(* ===== verification/Titan_Prelude.thy ===== *)
theory Titan_Prelude
  imports Main "HOL-Library.Word" "HOL-Library.AList"
begin

text \<open>
  Shared vocabulary of the development: the machine integer types of the C++ code, the
  collections of facts the components extend, and generic lemmas on lists, words and
  association lists that several components use.
\<close>

section \<open>Machine integers\<close>

type_synonym u8 = "8 word"
type_synonym u16 = "16 word"
type_synonym u32 = "32 word"
type_synonym u64 = "64 word"

section \<open>Collections of facts\<close>

text \<open>
  \<open>frame_simps\<close> holds the equations saying which part of a state an operation leaves
  alone; \<open>inv_intros\<close> the preservation rules of the components' invariants.
\<close>

named_theorems frame_simps
named_theorems inv_intros

section \<open>Words\<close>

lemma word_pos_iff: "0 < w \<longleftrightarrow> w \<noteq> 0" for w :: "'a::len word"
  by (simp add: word_neq_0_conv)

lemma unat_less_64: "unat w < 2 ^ 64" for w :: u64
  by (rule unsigned_less [THEN order_less_le_trans]) simp

lemma unat_minus_min:
  "unat (a - min a b) = unat a - unat (min a b)" for a b :: "'a::len word"
  by (rule unat_sub) simp

lemma minus_min_cases:
  fixes a b :: "'a::len word"
  obtains "a \<le> b" "min a b = a" "a - min a b = 0"
  | "b < a" "min a b = b" "b - min a b = 0"
  by (cases "a \<le> b") (auto simp: min_def)

lemma diff_min_eq_0_iff: "b - min a b = 0 \<longleftrightarrow> b \<le> a" for a b :: "'a::len word"
  by (auto simp: min_def)

lemma unat_sum_list: "unat (sum_list ws) = sum_list (map unat ws) mod 2 ^ LENGTH('a)"
  for ws :: "'a::len word list"
proof (induction ws)
  case Nil
  then show ?case by simp
next
  case (Cons w ws)
  then show ?case by (simp add: unat_word_ariths mod_add_right_eq)
qed

lemma unat_add_small:
  "unat w + k < 2 ^ LENGTH('a) \<Longrightarrow> unat (w + word_of_nat k) = unat w + k"
  for w :: "'a::len word"
  by (simp add: unat_word_ariths unat_of_nat mod_simps)

text \<open>Positions of a ring closer to each other than its size are distinct.\<close>

lemma mod_window:
  fixes i j n x :: nat
  assumes "i < n" "j < n" "(x + i) mod n = (x + j) mod n"
  shows "i = j"
proof -
  have "a = b" if "a \<le> b" "b < n" "(x + b) mod n = (x + a) mod n" for a b
  proof -
    have "n dvd b - a"
      using that mod_eq_dvd_iff_nat [of "x + a" "x + b" n] by simp
    with that show ?thesis by (auto dest: dvd_imp_le)
  qed
  from this [of i j] this [of j i] assms show ?thesis by (cases "i \<le> j") auto
qed

section \<open>Lists\<close>

lemma set_remove1_distinct [simp]:
  "distinct xs \<Longrightarrow> set (remove1 x xs) = set xs - {x}"
  by (rule set_remove1_eq)

lemma remove1_middle: "x \<notin> set xs \<Longrightarrow> remove1 x (xs @ x # ys) = xs @ ys"
  by (simp add: remove1_append)

lemma filter_neq_id [simp]: "x \<notin> f ` set xs \<Longrightarrow> filter (\<lambda>y. f y \<noteq> x) xs = xs"
  by (induction xs) auto

lemma hd_append_Cons: "zs \<noteq> [] \<Longrightarrow> hd (xs @ y # zs) = hd (xs @ [y])"
  by (cases xs) simp_all

lemma sorted_wrt_takeWhile: "sorted_wrt R xs \<Longrightarrow> sorted_wrt R (takeWhile P xs)"
  by (induction xs) (auto dest: set_takeWhileD)

lemma take_upt_min: "take m [0..<n] = [0..<min n m]"
  by (cases "m \<le> n") simp_all

lemma list_all2_in_set2: "list_all2 P xs ys \<Longrightarrow> y \<in> set ys \<Longrightarrow> \<exists>x \<in> set xs. P x y"
  by (induction rule: list_all2_induct) auto

lemma sum_list_snoc [simp]: "sum_list (xs @ [x]) = sum_list xs + x" for x :: "'a::comm_monoid_add"
  by (simp add: add.commute)

section \<open>Association lists as hash maps\<close>

text \<open>
  A \<^verbatim>\<open>std::unordered_map\<close> is an association list with distinct keys: \<open>find\<close>
  is \<open>map_of\<close>, \<open>operator[]=\<close> is \<open>AList.update\<close>, \<open>erase(key)\<close> is
  \<open>AList.delete\<close> and \<open>size\<close> is \<open>length\<close>. Its iteration order is never used.
\<close>

lemma map_of_update [simp]: "map_of (AList.update k v m) = (map_of m)(k \<mapsto> v)"
  by (rule AList.update_conv')

lemma map_of_delete [simp]: "map_of (AList.delete k m) = (map_of m)(k := None)"
  by (rule AList.delete_conv')

lemma length_update_new: "k \<notin> fst ` set m \<Longrightarrow> length (AList.update k v m) = Suc (length m)"
  by (induction m) auto

lemma length_delete_present:
  "distinct (map fst m) \<Longrightarrow> map_of m k = Some v \<Longrightarrow> Suc (length (AList.delete k m)) = length m"
proof (induction m)
  case Nil
  then show ?case by simp
next
  case (Cons e m)
  obtain k' v' where e: "e = (k', v')" by (cases e)
  show ?case
  proof (cases "k' = k")
    case True
    with Cons.prems e have "AList.delete k m = m"
      by (auto simp: delete_id)
    with True e show ?thesis by simp
  next
    case False
    with Cons e show ?thesis by simp
  qed
qed

lemma card_dom_map_of: "distinct (map fst m) \<Longrightarrow> card (dom (map_of m)) = length m"
  by (metis card_image distinct_card distinct_map dom_map_of_conv_image_fst length_map list.set_map)

end
