(* ===== verification/Types.thy ===== *)
theory Types
  imports Titan_Prelude
begin

text \<open>
  The value types of \<^verbatim>\<open>include/types.hpp\<close>: sides, order types, orders and trades.
  Ids, prices and timestamps are 64-bit words, quantities 32-bit words, as in the code.
\<close>

section \<open>Identifiers, prices and quantities\<close>

type_synonym order_id = u64
type_synonym price = u64
type_synonym quantity = u32
type_synonym timestamp = u64

section \<open>Sides and order types\<close>

datatype side = Buy | Sell

datatype order_type = Limit | Market

lemma not_Limit_iff [simp]: "t \<noteq> Limit \<longleftrightarrow> t = Market"
  by (cases t) simp_all

text \<open>Both enumerations are finite, so quantifiers over them compute.\<close>

instantiation side :: enum
begin

definition enum_side :: "side list" where
  "enum_side = [Buy, Sell]"

definition enum_all_side :: "(side \<Rightarrow> bool) \<Rightarrow> bool" where
  "enum_all_side P \<longleftrightarrow> P Buy \<and> P Sell"

definition enum_ex_side :: "(side \<Rightarrow> bool) \<Rightarrow> bool" where
  "enum_ex_side P \<longleftrightarrow> P Buy \<or> P Sell"

instance
proof
  have univ: "(UNIV :: side set) = {Buy, Sell}"
    by (auto intro: side.exhaust)
  show "(UNIV :: side set) = set enum_class.enum"
    by (simp add: univ enum_side_def)
  show "distinct (enum_class.enum :: side list)"
    by (simp add: enum_side_def)
  show "enum_class.enum_all P \<longleftrightarrow> Ball UNIV P" for P :: "side \<Rightarrow> bool"
    by (simp add: univ enum_all_side_def)
  show "enum_class.enum_ex P \<longleftrightarrow> Bex UNIV P" for P :: "side \<Rightarrow> bool"
    by (simp add: univ enum_ex_side_def)
qed

end

lemma all_side: "(\<forall>s. P s) \<longleftrightarrow> P Buy \<and> P Sell" for P :: "side \<Rightarrow> bool"
  by (metis side.exhaust)

fun opposite :: "side \<Rightarrow> side" where
  "opposite Buy = Sell"
| "opposite Sell = Buy"

lemma opposite_opposite [simp]: "opposite (opposite s) = s"
  by (cases s) simp_all

lemma opposite_neq [simp]: "opposite s \<noteq> s" "s \<noteq> opposite s"
  by (cases s; simp)+

section \<open>Orders and trades\<close>

record order =
  order_id :: order_id
  price :: price
  initial_quantity :: quantity
  remaining_quantity :: quantity
  timestamp :: timestamp
  side :: side
  otype :: order_type

record trade =
  maker_order_id :: order_id
  taker_order_id :: order_id
  trade_price :: price
  trade_quantity :: quantity
  trade_timestamp :: timestamp
  aggressor_side :: side

text \<open>The value-initialised order \<^verbatim>\<open>Order{}\<close>.\<close>

definition default_order :: order where
  "default_order = \<lparr>order_id = 0, price = 0, initial_quantity = 0, remaining_quantity = 0,
     timestamp = 0, side = Buy, otype = Limit\<rparr>"

definition is_filled :: "order \<Rightarrow> bool" where
  "is_filled ord \<longleftrightarrow> remaining_quantity ord = 0"

definition side_to_string :: "side \<Rightarrow> string" where
  "side_to_string s = (if s = Buy then ''BUY'' else ''SELL'')"

definition order_type_to_string :: "order_type \<Rightarrow> string" where
  "order_type_to_string t = (if t = Limit then ''LIMIT'' else ''MARKET'')"

lemma side_to_string_inject [simp]: "side_to_string s = side_to_string t \<longleftrightarrow> s = t"
  by (cases s; cases t) (simp_all add: side_to_string_def)

lemma order_type_to_string_inject [simp]:
  "order_type_to_string s = order_type_to_string t \<longleftrightarrow> s = t"
  by (cases s; cases t) (simp_all add: order_type_to_string_def)

end
