(* ===== verification/Std_Containers.thy ===== *)
theory Std_Containers
  imports Types
begin

text \<open>
  The standard containers the books are built from. A \<^verbatim>\<open>std::map<Price, V, Compare>\<close>
  is an association list sorted by its comparator; \<open>begin()\<close> is its first entry,
  \<open>find\<close> is \<open>map_of\<close>, \<open>operator[]\<close> followed by a write is \<open>omap_put\<close> and
  \<open>erase\<close> is \<open>AList.delete\<close>. The locale \<open>key_order\<close> is the contract the
  comparator must satisfy; \<open>price_before\<close> gives the two comparators of the code,
  \<^verbatim>\<open>std::greater<Price>\<close> for bids and \<^verbatim>\<open>std::less<Price>\<close> for asks.
\<close>

section \<open>Ordered maps\<close>

fun omap_put :: "('k \<Rightarrow> 'k \<Rightarrow> bool) \<Rightarrow> 'k \<Rightarrow> 'v \<Rightarrow> ('k \<times> 'v) list \<Rightarrow> ('k \<times> 'v) list" where
  "omap_put lt k v [] = [(k, v)]"
| "omap_put lt k v ((k', v') # m) =
     (if k = k' then (k, v) # m
      else if lt k k' then (k, v) # (k', v') # m
      else (k', v') # omap_put lt k v m)"

definition omap_sorted :: "('k \<Rightarrow> 'k \<Rightarrow> bool) \<Rightarrow> ('k \<times> 'v) list \<Rightarrow> bool" where
  "omap_sorted lt m \<longleftrightarrow> sorted_wrt lt (map fst m)"

lemma omap_sorted_Nil [simp]: "omap_sorted lt []"
  by (simp add: omap_sorted_def)

lemma omap_sorted_Cons [simp]:
  "omap_sorted lt ((k, v) # m) \<longleftrightarrow> (\<forall>k' \<in> fst ` set m. lt k k') \<and> omap_sorted lt m"
  by (simp add: omap_sorted_def)

lemma map_of_omap_put [simp]: "map_of (omap_put lt k v m) = (map_of m)(k \<mapsto> v)"
  by (induction m) auto

lemma keys_omap_put [simp]: "fst ` set (omap_put lt k v m) = insert k (fst ` set m)"
  by (induction lt k v m rule: omap_put.induct) (simp_all add: insert_commute)

lemma omap_put_append:
  "(\<forall>k' \<in> fst ` set m1. k \<noteq> k' \<and> \<not> lt k k') \<Longrightarrow> omap_put lt k v (m1 @ m2) = m1 @ omap_put lt k v m2"
  by (induction m1) auto

lemma omap_sorted_delete: "omap_sorted lt m \<Longrightarrow> omap_sorted lt (AList.delete k m)"
  by (induction m) (auto simp: omap_sorted_def AList.delete_eq)

locale key_order =
  fixes lt :: "'k \<Rightarrow> 'k \<Rightarrow> bool"
  assumes irrefl: "\<not> lt k k"
    and trans: "lt a b \<Longrightarrow> lt b c \<Longrightarrow> lt a c"
    and total: "a \<noteq> b \<Longrightarrow> lt a b \<or> lt b a"
begin

lemma asym: "lt a b \<Longrightarrow> \<not> lt b a"
  using irrefl trans by blast

lemma sorted_put: "omap_sorted lt m \<Longrightarrow> omap_sorted lt (omap_put lt k v m)"
proof (induction m)
  case Nil
  then show ?case by simp
next
  case (Cons e m)
  obtain k' v' where e: "e = (k', v')" by (cases e)
  from Cons show ?case
    using total [of k k'] by (auto simp: e intro: trans)
qed

lemma sorted_distinct: "omap_sorted lt m \<Longrightarrow> distinct (map fst m)"
  by (induction m) (use irrefl in fastforce)+

lemma sorted_map_of: "omap_sorted lt m \<Longrightarrow> (k, v) \<in> set m \<Longrightarrow> map_of m k = Some v"
  by (simp add: sorted_distinct)

lemma sorted_split:
  assumes "omap_sorted lt (m1 @ (k, v) # m2)"
  shows "k \<notin> fst ` set m1" "k \<notin> fst ` set m2"
    "\<And>k'. k' \<in> fst ` set m1 \<Longrightarrow> lt k' k" "\<And>k'. k' \<in> fst ` set m2 \<Longrightarrow> lt k k'"
  using assms by (auto simp: omap_sorted_def sorted_wrt_append irrefl)

lemma put_present:
  assumes "omap_sorted lt (m1 @ (k, v) # m2)"
  shows "omap_put lt k w (m1 @ (k, v) # m2) = m1 @ (k, w) # m2"
proof -
  have "\<forall>k' \<in> fst ` set m1. k \<noteq> k' \<and> \<not> lt k k'"
    using sorted_split [OF assms] asym by blast
  then show ?thesis by (simp add: omap_put_append)
qed

lemma delete_present:
  assumes "omap_sorted lt (m1 @ (k, v) # m2)"
  shows "AList.delete k (m1 @ (k, v) # m2) = m1 @ m2"
proof -
  have "AList.delete k m1 = m1" "AList.delete k m2 = m2"
    using sorted_split(1,2) [OF assms] by (auto intro: delete_id)
  then show ?thesis by (simp add: AList.delete_eq)
qed

text \<open>The insertion point of a new key: everything before it sorts first, nothing after it does.\<close>

lemma put_absent:
  assumes "omap_sorted lt m" "map_of m k = None"
  obtains m1 m2 where "m = m1 @ m2" "omap_put lt k v m = m1 @ (k, v) # m2"
    "\<And>k'. k' \<in> fst ` set m1 \<Longrightarrow> lt k' k" "\<And>k'. k' \<in> fst ` set m2 \<Longrightarrow> lt k k'"
proof -
  define m1 where "m1 = takeWhile (\<lambda>e. lt (fst e) k) m"
  define m2 where "m2 = dropWhile (\<lambda>e. lt (fst e) k) m"
  have m: "m = m1 @ m2" by (simp add: m1_def m2_def)
  have before: "lt k' k" if "k' \<in> fst ` set m1" for k'
    using that by (auto simp: m1_def dest: set_takeWhileD)
  have absent: "k \<notin> fst ` set m"
    using assms(2) by (simp add: map_of_eq_None_iff)
  have after: "lt k k'" if "k' \<in> fst ` set m2" for k'
  proof (cases m2)
    case Nil
    with that show ?thesis by simp
  next
    case (Cons e m3)
    then have "\<not> lt (fst e) k"
      using hd_dropWhile [of "\<lambda>e. lt (fst e) k" m] by (simp add: m2_def)
    moreover have "fst e \<noteq> k"
      using absent m Cons by auto
    ultimately have le: "lt k (fst e)"
      using total by blast
    have "sorted_wrt lt (map fst m2)"
      using assms(1) m by (simp add: omap_sorted_def sorted_wrt_append)
    then show ?thesis
      using that Cons le by (auto intro: trans)
  qed
  have "\<forall>k' \<in> fst ` set m1. k \<noteq> k' \<and> \<not> lt k k'"
    using before asym irrefl by blast
  then have "omap_put lt k v m = m1 @ omap_put lt k v m2"
    by (simp add: m omap_put_append)
  also have "omap_put lt k v m2 = (k, v) # m2"
    using after irrefl by (cases m2) fastforce+
  finally show ?thesis
    using that m before after by blast
qed

end

section \<open>The price comparators\<close>

fun price_before :: "side \<Rightarrow> price \<Rightarrow> price \<Rightarrow> bool" where
  "price_before Buy p q \<longleftrightarrow> q < p"
| "price_before Sell p q \<longleftrightarrow> p < q"

interpretation lv: key_order "price_before s" for s
  by unfold_locales (cases s; auto)+

text \<open>Best price first: the head of a sorted map is the maximum bid or the minimum ask.\<close>

lemma not_price_before_refl [simp]: "\<not> price_before s p p"
  by (rule lv.irrefl)

end
