(* ===== verification/Price_Time_Book.thy ===== *)
theory Price_Time_Book
  imports Std_Containers "HOL-Library.Sublist" "HOL-Library.Multiset"
begin

text \<open>
  What a limit order book promises, without its data structures: each side is one list of
  resting orders in priority order (better price first, earlier arrival first at a price),
  an incoming order trades with the front of the opposite side, and what is left of a
  limit order is inserted behind every order of an equal or better price. Both engines of
  the code are proved to implement this book.
\<close>

type_synonym lob = "side \<Rightarrow> order list"

lemma lob_eqI: "bk s = bk' s \<Longrightarrow> bk (opposite s) = bk' (opposite s) \<Longrightarrow> bk = bk'" for bk :: lob
  by (rule ext) (metis opposite.simps side.exhaust)

section \<open>Matching\<close>

definition crosses :: "order \<Rightarrow> price \<Rightarrow> bool" where
  "crosses inc p \<longleftrightarrow> otype inc = Market \<or> \<not> price_before (opposite (side inc)) (price inc) p"

definition make_trade :: "order \<Rightarrow> order \<Rightarrow> quantity \<Rightarrow> trade" where
  "make_trade inc maker q =
     \<lparr>maker_order_id = order_id maker, taker_order_id = order_id inc, trade_price = price maker,
      trade_quantity = q, trade_timestamp = timestamp inc, aggressor_side = side inc\<rparr>"

abbreviation reduce :: "order \<Rightarrow> quantity \<Rightarrow> order" where
  "reduce ord q \<equiv> ord\<lparr>remaining_quantity := remaining_quantity ord - q\<rparr>"

fun lob_match :: "order \<Rightarrow> order list \<Rightarrow> trade list \<times> order \<times> order list" where
  "lob_match inc [] = ([], inc, [])"
| "lob_match inc (m # ms) =
     (if remaining_quantity inc = 0 \<or> \<not> crosses inc (price m) then ([], inc, m # ms)
      else if remaining_quantity m \<le> remaining_quantity inc then
        (case lob_match (reduce inc (remaining_quantity m)) ms of
          (ts, inc', ms') \<Rightarrow> (make_trade inc m (remaining_quantity m) # ts, inc', ms'))
      else
        ([make_trade inc m (remaining_quantity inc)], inc\<lparr>remaining_quantity := 0\<rparr>,
         reduce m (remaining_quantity inc) # ms))"

text \<open>
  Where a new order goes: behind every order of an equal or better price, which is time
  priority, and in front of the first order of a strictly worse price.
\<close>

definition lob_insert :: "order \<Rightarrow> order list \<Rightarrow> order list" where
  "lob_insert ord xs =
     (let ahead = (\<lambda>x. \<not> price_before (side ord) (price ord) (price x))
      in takeWhile ahead xs @ ord # dropWhile ahead xs)"

section \<open>The operations\<close>

definition lob_orders :: "lob \<Rightarrow> order list" where
  "lob_orders bk = bk Buy @ bk Sell"

definition lob_ids :: "lob \<Rightarrow> order_id set" where
  "lob_ids bk = order_id ` set (lob_orders bk)"

definition lob_empty :: lob where
  "lob_empty = (\<lambda>_. [])"

definition acceptable :: "order \<Rightarrow> bool" where
  "acceptable ord \<longleftrightarrow> initial_quantity ord \<noteq> 0 \<and> \<not> (otype ord = Limit \<and> price ord = 0)"

definition normalise :: "order \<Rightarrow> order" where
  "normalise ord =
     (if remaining_quantity ord = 0 then ord\<lparr>remaining_quantity := initial_quantity ord\<rparr> else ord)"

definition lob_settle :: "order \<Rightarrow> lob \<Rightarrow> lob" where
  "lob_settle ord bk =
     (if remaining_quantity ord \<noteq> 0 \<and> otype ord = Limit
      then bk(side ord := lob_insert ord (bk (side ord))) else bk)"

definition lob_submit :: "order \<Rightarrow> lob \<Rightarrow> bool \<times> trade list \<times> lob" where
  "lob_submit ord bk =
     (if \<not> acceptable ord \<or> order_id ord \<in> lob_ids bk then (False, [], bk)
      else let opp = opposite (side ord)
        in case lob_match (normalise ord) (bk opp) of
          (ts, ord', rest) \<Rightarrow> (True, ts, lob_settle ord' (bk(opp := rest))))"

definition lob_cancel :: "order_id \<Rightarrow> lob \<Rightarrow> bool \<times> lob" where
  "lob_cancel i bk = (i \<in> lob_ids bk, \<lambda>s. filter (\<lambda>ord. order_id ord \<noteq> i) (bk s))"

definition lob_get :: "order_id \<Rightarrow> lob \<Rightarrow> order option" where
  "lob_get i bk = List.find (\<lambda>ord. order_id ord = i) (lob_orders bk)"

definition lob_best :: "side \<Rightarrow> lob \<Rightarrow> price option" where
  "lob_best s bk = (case bk s of [] \<Rightarrow> None | ord # _ \<Rightarrow> Some (price ord))"

definition lob_volume :: "side \<Rightarrow> price \<Rightarrow> lob \<Rightarrow> quantity" where
  "lob_volume s p bk = sum_list (map remaining_quantity (filter (\<lambda>ord. price ord = p) (bk s)))"

section \<open>The invariant\<close>

definition priority_sorted :: "side \<Rightarrow> order list \<Rightarrow> bool" where
  "priority_sorted s = sorted_wrt (\<lambda>x y. \<not> price_before s (price y) (price x))"

definition resting_ok :: "side \<Rightarrow> order \<Rightarrow> bool" where
  "resting_ok s ord \<longleftrightarrow>
     side ord = s \<and> otype ord = Limit \<and> remaining_quantity ord \<noteq> 0 \<and> price ord \<noteq> 0"

definition uncrossed :: "lob \<Rightarrow> bool" where
  "uncrossed bk \<longleftrightarrow> (\<forall>b \<in> set (bk Buy). \<forall>a \<in> set (bk Sell). price b < price a)"

definition lob_inv :: "lob \<Rightarrow> bool" where
  "lob_inv bk \<longleftrightarrow>
     (\<forall>s. priority_sorted s (bk s) \<and> (\<forall>ord \<in> set (bk s). resting_ok s ord))
     \<and> distinct (map order_id (lob_orders bk)) \<and> uncrossed bk"

section \<open>Lemmas on matching\<close>

lemma make_trade_reduce [simp]: "make_trade (reduce inc q) m r = make_trade inc m r"
  by (simp add: make_trade_def)

lemma crosses_reduce [simp]: "crosses (inc\<lparr>remaining_quantity := q\<rparr>) p = crosses inc p"
  by (simp add: crosses_def)

lemma make_trade_sel [simp]:
  "maker_order_id (make_trade inc m q) = order_id m"
  "taker_order_id (make_trade inc m q) = order_id inc"
  "trade_price (make_trade inc m q) = price m"
  "trade_quantity (make_trade inc m q) = q"
  "trade_timestamp (make_trade inc m q) = timestamp inc"
  "aggressor_side (make_trade inc m q) = side inc"
  by (simp_all add: make_trade_def)

text \<open>The three ways one step of the matching loop can go.\<close>

lemma lob_match_ConsE:
  assumes "lob_match inc (m # ms) = (ts, inc', ms')"
  obtains (stop) "remaining_quantity inc = 0 \<or> \<not> crosses inc (price m)"
      "ts = []" "inc' = inc" "ms' = m # ms"
    | (fill) ts1 where "remaining_quantity inc \<noteq> 0" "crosses inc (price m)"
      "remaining_quantity m \<le> remaining_quantity inc"
      "lob_match (reduce inc (remaining_quantity m)) ms = (ts1, inc', ms')"
      "ts = make_trade inc m (remaining_quantity m) # ts1"
    | (part) "remaining_quantity inc \<noteq> 0" "crosses inc (price m)"
      "remaining_quantity inc < remaining_quantity m"
      "ts = [make_trade inc m (remaining_quantity inc)]" "inc' = inc\<lparr>remaining_quantity := 0\<rparr>"
      "ms' = reduce m (remaining_quantity inc) # ms"
proof -
  let ?stop = "remaining_quantity inc = 0 \<or> \<not> crosses inc (price m)"
  consider (s) ?stop | (f) "\<not> ?stop" "remaining_quantity m \<le> remaining_quantity inc"
    | (p) "\<not> ?stop" "\<not> remaining_quantity m \<le> remaining_quantity inc"
    by blast
  then show ?thesis
  proof cases
    case s
    with assms have "ts = []" "inc' = inc" "ms' = m # ms" by simp_all
    with s show ?thesis by (rule stop)
  next
    case f
    obtain ts1 inc1 ms1 where rec: "lob_match (reduce inc (remaining_quantity m)) ms = (ts1, inc1, ms1)"
      by (cases "lob_match (reduce inc (remaining_quantity m)) ms")
    with assms f have "ts = make_trade inc m (remaining_quantity m) # ts1" "inc1 = inc'" "ms1 = ms'"
      by simp_all
    with f rec show ?thesis by (intro fill [of ts1]) simp_all
  next
    case p
    with assms show ?thesis by (intro part) (simp_all add: not_le)
  qed
qed

lemma unat_reduce_add:
  "a \<le> b \<Longrightarrow> unat b = unat (b - a) + unat a" for a b :: "'a::len word"
  by (simp add: unat_sub word_le_nat_alt)

text \<open>Only the remaining quantity of the incoming order changes.\<close>

lemma lob_match_frame:
  "lob_match inc ms = (ts, inc', ms') \<Longrightarrow>
   inc' = inc\<lparr>remaining_quantity := remaining_quantity inc'\<rparr>"
  by (induction inc ms arbitrary: ts inc' ms' rule: lob_match.induct)
    (auto split: if_splits prod.splits)

lemma lob_match_frame_sel:
  assumes "lob_match inc ms = (ts, inc', ms')"
  shows "order_id inc' = order_id inc" "price inc' = price inc" "side inc' = side inc"
    "otype inc' = otype inc" "timestamp inc' = timestamp inc"
    "initial_quantity inc' = initial_quantity inc"
    "crosses inc' p = crosses inc p"
  by (subst lob_match_frame [OF assms], simp)+

lemma lob_match_zero [simp]: "remaining_quantity inc = 0 \<Longrightarrow> lob_match inc ms = ([], inc, ms)"
  by (cases ms) auto

text \<open>
  The shape of a match: some makers at the front are filled completely, in priority order,
  and at most one more maker, the next in line, is filled partially, which exhausts the
  incoming order.
\<close>

definition match_shape ::
    "order \<Rightarrow> order list \<Rightarrow> trade list \<Rightarrow> order \<Rightarrow> order list \<Rightarrow> nat \<Rightarrow> bool" where
  "match_shape inc ms ts inc' ms' k \<longleftrightarrow>
     k \<le> length ms \<and> (\<forall>m \<in> set (take k ms). crosses inc (price m)) \<and>
     (ms' = drop k ms
        \<and> ts = map (\<lambda>m. make_trade inc m (remaining_quantity m)) (take k ms)
      \<or> (\<exists>q m ms2. drop k ms = m # ms2 \<and> ms' = reduce m q # ms2 \<and> 0 < q
          \<and> q < remaining_quantity m \<and> crosses inc (price m) \<and> remaining_quantity inc' = 0
          \<and> ts = map (\<lambda>m. make_trade inc m (remaining_quantity m)) (take k ms)
                  @ [make_trade inc m q]))"

lemma lob_match_shape:
  "lob_match inc ms = (ts, inc', ms') \<Longrightarrow> \<exists>k. match_shape inc ms ts inc' ms' k"
proof (induction ms arbitrary: inc ts)
  case Nil
  then show ?case by (auto simp: match_shape_def)
next
  case (Cons m ms)
  from Cons.prems show ?case
  proof (cases rule: lob_match_ConsE)
    case stop
    then have "match_shape inc (m # ms) ts inc' ms' 0"
      by (simp add: match_shape_def)
    then show ?thesis ..
  next
    case (fill ts1)
    obtain k where "match_shape (reduce inc (remaining_quantity m)) ms ts1 inc' ms' k"
      using Cons.IH [OF fill(4)] by blast
    then have "match_shape inc (m # ms) ts inc' ms' (Suc k)"
      using fill by (auto simp: match_shape_def)
    then show ?thesis ..
  next
    case part
    then have "match_shape inc (m # ms) ts inc' ms' 0"
      by (auto simp: match_shape_def word_pos_iff)
    then show ?thesis ..
  qed
qed

lemma lob_match_conserves:
  "lob_match inc ms = (ts, inc', ms') \<Longrightarrow>
   unat (remaining_quantity inc)
     = unat (remaining_quantity inc') + sum_list (map (unat \<circ> trade_quantity) ts)"
proof (induction ms arbitrary: inc ts)
  case Nil
  then show ?case by simp
next
  case (Cons m ms)
  from Cons.prems show ?case
  proof (cases rule: lob_match_ConsE)
    case (fill ts1)
    then show ?thesis
      using Cons.IH [OF fill(4)] unat_reduce_add [OF fill(3)] by simp
  qed simp_all
qed

lemma lob_match_side_conserves:
  "lob_match inc ms = (ts, inc', ms') \<Longrightarrow>
   sum_list (map (unat \<circ> remaining_quantity) ms)
     = sum_list (map (unat \<circ> remaining_quantity) ms') + sum_list (map (unat \<circ> trade_quantity) ts)"
proof (induction ms arbitrary: inc ts)
  case Nil
  then show ?case by simp
next
  case (Cons m ms)
  from Cons.prems show ?case
  proof (cases rule: lob_match_ConsE)
    case (fill ts1)
    then show ?thesis
      using Cons.IH [OF fill(4)] by simp
  next
    case part
    then show ?thesis
      using unat_reduce_add [of "remaining_quantity inc" "remaining_quantity m"] by simp
  qed simp
qed

lemma lob_match_stops:
  "lob_match inc ms = (ts, inc', ms') \<Longrightarrow> remaining_quantity inc' \<noteq> 0 \<Longrightarrow>
   ms' = [] \<or> \<not> crosses inc (price (hd ms'))"
proof (induction ms arbitrary: inc ts)
  case Nil
  then show ?case by simp
next
  case (Cons m ms)
  from Cons.prems(1) show ?case
  proof (cases rule: lob_match_ConsE)
    case (fill ts1)
    then show ?thesis
      using Cons.IH [OF fill(4) Cons.prems(2)] by simp
  qed (use Cons.prems in auto)
qed

text \<open>Every maker that traded crossed the incoming price, and no trade is for quantity zero.\<close>

lemma lob_match_trades:
  assumes "lob_match inc ms = (ts, inc', ms')" "t \<in> set ts"
  shows "crosses inc (trade_price t)" "taker_order_id t = order_id inc"
    "aggressor_side t = side inc" "trade_timestamp t = timestamp inc"
    "\<exists>m \<in> set ms. maker_order_id t = order_id m \<and> trade_price t = price m
       \<and> trade_quantity t \<le> remaining_quantity m"
    "\<forall>m \<in> set ms. remaining_quantity m \<noteq> 0 \<Longrightarrow> trade_quantity t \<noteq> 0"
proof -
  obtain k where k: "match_shape inc ms ts inc' ms' k"
    using lob_match_shape [OF assms(1)] ..
  then have sub: "set (take k ms) \<subseteq> set ms" "set (drop k ms) \<subseteq> set ms"
    by (simp_all add: set_take_subset set_drop_subset)
  have "crosses inc (trade_price t) \<and> taker_order_id t = order_id inc
    \<and> aggressor_side t = side inc \<and> trade_timestamp t = timestamp inc
    \<and> (\<exists>m \<in> set ms. maker_order_id t = order_id m \<and> trade_price t = price m
       \<and> trade_quantity t \<le> remaining_quantity m \<and> (trade_quantity t = 0 \<longrightarrow> remaining_quantity m = 0))"
    using k sub assms(2) unfolding match_shape_def
    by (elim conjE disjE exE) (auto simp: word_pos_iff intro!: bexI)
  then show "crosses inc (trade_price t)" "taker_order_id t = order_id inc"
    "aggressor_side t = side inc" "trade_timestamp t = timestamp inc"
    "\<exists>m \<in> set ms. maker_order_id t = order_id m \<and> trade_price t = price m
       \<and> trade_quantity t \<le> remaining_quantity m"
    "\<forall>m \<in> set ms. remaining_quantity m \<noteq> 0 \<Longrightarrow> trade_quantity t \<noteq> 0"
    by auto
qed

text \<open>What a match leaves on the book: a suffix whose head may have shrunk.\<close>

lemma lob_match_rest:
  assumes "lob_match inc ms = (ts, inc', ms')"
  obtains ks where "suffix ks (map order_id ms)" "map order_id ms' = ks"
    "suffix (map price ms') (map price ms)"
    "\<And>m'. m' \<in> set ms' \<Longrightarrow> \<exists>m \<in> set ms. m' = m\<lparr>remaining_quantity := remaining_quantity m'\<rparr>
       \<and> (remaining_quantity m \<noteq> 0 \<longrightarrow> remaining_quantity m' \<noteq> 0)"
proof -
  obtain k where k: "match_shape inc ms ts inc' ms' k"
    using lob_match_shape [OF assms(1)] ..
  have ids: "map order_id ms' = map order_id (drop k ms)" "map price ms' = map price (drop k ms)"
    using k unfolding match_shape_def by (elim conjE disjE exE; simp)+
  have sub: "set (drop k ms) \<subseteq> set ms"
    by (rule set_drop_subset)
  show ?thesis
  proof
    show "suffix (map order_id (drop k ms)) (map order_id ms)"
      by (simp add: suffix_drop drop_map [symmetric])
    show "map order_id ms' = map order_id (drop k ms)" by (rule ids)
    show "suffix (map price ms') (map price ms)"
      by (simp add: ids suffix_drop drop_map [symmetric])
    fix m' assume m': "m' \<in> set ms'"
    show "\<exists>m \<in> set ms. m' = m\<lparr>remaining_quantity := remaining_quantity m'\<rparr>
       \<and> (remaining_quantity m \<noteq> 0 \<longrightarrow> remaining_quantity m' \<noteq> 0)"
    proof (cases "m' \<in> set (drop k ms)")
      case True
      with sub show ?thesis by (intro bexI [of _ m']) auto
    next
      case False
      then obtain q m ms2 where "drop k ms = m # ms2" "m' = reduce m q" "q < remaining_quantity m"
        using k m' unfolding match_shape_def by (elim conjE disjE exE) auto
      with sub show ?thesis by (intro bexI [of _ m]) auto
    qed
  qed
qed

section \<open>Lemmas on insertion\<close>

lemma set_lob_insert [simp]: "set (lob_insert ord xs) = insert ord (set xs)"
proof -
  have "set xs = set (takeWhile P xs) \<union> set (dropWhile P xs)" for P
    by (metis set_append takeWhile_dropWhile_id)
  then show ?thesis by (auto simp: lob_insert_def Let_def)
qed

lemma mset_lob_insert: "mset (lob_insert ord xs) = add_mset ord (mset xs)"
proof -
  have "mset xs = mset (takeWhile P xs) + mset (dropWhile P xs)" for P
    by (metis mset_append takeWhile_dropWhile_id)
  then show ?thesis by (simp add: lob_insert_def Let_def)
qed

lemma distinct_lob_insert [simp]:
  "distinct (map f (lob_insert ord xs)) \<longleftrightarrow> f ord \<notin> f ` set xs \<and> distinct (map f xs)"
proof -
  have "mset (map f (lob_insert ord xs)) = mset (map f (ord # xs))"
    by (simp add: mset_lob_insert)
  then have "distinct (map f (lob_insert ord xs)) = distinct (map f (ord # xs))"
    by (rule mset_eq_imp_distinct_iff)
  then show ?thesis by simp
qed

lemma priority_sorted_alt:
  "priority_sorted s xs \<longleftrightarrow> sorted_wrt (\<lambda>p q. \<not> price_before s q p) (map price xs)"
  by (simp add: priority_sorted_def sorted_wrt_map)

lemma priority_sorted_Nil [simp]: "priority_sorted s []"
  by (simp add: priority_sorted_def)

lemma price_before_chain:
  "price_before s p q \<Longrightarrow> \<not> price_before s r q \<Longrightarrow> price_before s p r"
  using lv.total [of q r s] lv.trans [of s p q r] by (cases "q = r") auto

lemma priority_sorted_insert:
  assumes "priority_sorted (side ord) xs"
  shows "priority_sorted (side ord) (lob_insert ord xs)"
proof -
  let ?s = "side ord"
  let ?ahead = "\<lambda>x. \<not> price_before ?s (price ord) (price x)"
  let ?R = "\<lambda>x y. \<not> price_before ?s (price y) (price x)"
  define a where "a = takeWhile ?ahead xs"
  define b where "b = dropWhile ?ahead xs"
  have xs: "xs = a @ b" by (simp add: a_def b_def)
  have sorted: "sorted_wrt ?R a" "sorted_wrt ?R b" "\<forall>x \<in> set a. \<forall>y \<in> set b. ?R x y"
    using assms by (simp_all add: xs priority_sorted_def sorted_wrt_append)
  have a: "\<forall>x \<in> set a. ?R x ord"
    by (auto simp: a_def dest: set_takeWhileD)
  have b: "\<forall>y \<in> set b. ?R ord y"
  proof (cases b)
    case Nil
    then show ?thesis by simp
  next
    case (Cons y b')
    have y: "price_before ?s (price ord) (price y)"
      using hd_dropWhile [of ?ahead xs] Cons unfolding b_def by (metis list.distinct(1) list.sel(1))
    then have "price_before ?s (price ord) (price z)" if "z \<in> set b" for z
      using that sorted(2) Cons by (auto intro: price_before_chain)
    then show ?thesis by (blast dest: lv.asym)
  qed
  have "lob_insert ord xs = a @ ord # b"
    by (simp only: lob_insert_def a_def b_def Let_def)
  then show ?thesis
    using sorted a b by (simp add: priority_sorted_def sorted_wrt_append)
qed

section \<open>The invariant is kept\<close>

lemma lob_orders_side: "set (lob_orders bk) = set (bk s) \<union> set (bk (opposite s))"
  by (cases s) (auto simp: lob_orders_def)

lemma lob_ids_side: "lob_ids bk = order_id ` set (bk s) \<union> order_id ` set (bk (opposite s))"
  unfolding lob_ids_def lob_orders_side [of bk s] by (rule image_Un)

lemma distinct_ids_side:
  "distinct (map order_id (lob_orders bk)) \<longleftrightarrow>
     distinct (map order_id (bk s)) \<and> distinct (map order_id (bk (opposite s)))
     \<and> order_id ` set (bk s) \<inter> order_id ` set (bk (opposite s)) = {}"
  by (cases s) (auto simp: lob_orders_def)

lemma uncrossed_side:
  "uncrossed bk \<longleftrightarrow>
     (\<forall>x \<in> set (bk s). \<forall>y \<in> set (bk (opposite s)). price_before (opposite s) (price x) (price y))"
  by (cases s) (auto simp: uncrossed_def)

lemma lob_inv_side:
  "lob_inv bk \<longleftrightarrow>
     priority_sorted s (bk s) \<and> (\<forall>ord \<in> set (bk s). resting_ok s ord)
     \<and> priority_sorted (opposite s) (bk (opposite s))
     \<and> (\<forall>ord \<in> set (bk (opposite s)). resting_ok (opposite s) ord)
     \<and> distinct (map order_id (bk s)) \<and> distinct (map order_id (bk (opposite s)))
     \<and> order_id ` set (bk s) \<inter> order_id ` set (bk (opposite s)) = {}
     \<and> (\<forall>x \<in> set (bk s). \<forall>y \<in> set (bk (opposite s)).
           price_before (opposite s) (price x) (price y))"
  unfolding lob_inv_def distinct_ids_side [of bk s] uncrossed_side [of bk s]
  by (cases s) (auto simp: all_side)

lemma lob_inv_empty [simp]: "lob_inv lob_empty"
  by (simp add: lob_inv_side [of _ Buy] lob_empty_def)

lemma lob_empty_simps [simp]: "lob_empty s = []" "lob_ids lob_empty = {}"
  by (simp_all add: lob_empty_def lob_ids_def lob_orders_def)

lemma normalise_sel [simp]:
  "order_id (normalise ord) = order_id ord" "price (normalise ord) = price ord"
  "side (normalise ord) = side ord" "otype (normalise ord) = otype ord"
  "timestamp (normalise ord) = timestamp ord"
  "initial_quantity (normalise ord) = initial_quantity ord"
  "crosses (normalise ord) p = crosses ord p"
  by (simp_all add: normalise_def crosses_def)

lemma normalise_remaining: "acceptable ord \<Longrightarrow> remaining_quantity (normalise ord) \<noteq> 0"
  by (simp add: normalise_def acceptable_def)

lemma disjoint_mono: "A \<subseteq> A' \<Longrightarrow> B \<subseteq> B' \<Longrightarrow> A' \<inter> B' = {} \<Longrightarrow> A \<inter> B = {}"
  by blast

lemma lob_match_inv:
  assumes inv: "lob_inv bk"
    and m: "lob_match inc (bk (opposite s)) = (ts, inc', rest)"
  shows "lob_inv (bk(opposite s := rest))"
proof -
  obtain ks where r: "suffix ks (map order_id (bk (opposite s)))" "map order_id rest = ks"
      "suffix (map price rest) (map price (bk (opposite s)))"
    and elem: "\<And>m'. m' \<in> set rest \<Longrightarrow> \<exists>m \<in> set (bk (opposite s)).
       m' = m\<lparr>remaining_quantity := remaining_quantity m'\<rparr>
       \<and> (remaining_quantity m \<noteq> 0 \<longrightarrow> remaining_quantity m' \<noteq> 0)"
    by (rule lob_match_rest [OF m]) blast
  have ok: "resting_ok (opposite s) m'" if m': "m' \<in> set rest" for m'
  proof -
    obtain m where "m \<in> set (bk (opposite s))"
      "m' = m\<lparr>remaining_quantity := remaining_quantity m'\<rparr>"
      "remaining_quantity m \<noteq> 0 \<longrightarrow> remaining_quantity m' \<noteq> 0"
      using elem [OF m'] by blast
    then have "m \<in> set (bk (opposite s))" "side m' = side m" "otype m' = otype m" "price m' = price m"
      "remaining_quantity m \<noteq> 0 \<longrightarrow> remaining_quantity m' \<noteq> 0"
      by (metis order.ext_inject order.surjective order.update_convs(4))+
    with inv show ?thesis by (auto simp: lob_inv_side [of _ s] resting_ok_def)
  qed
  have ids: "order_id ` set rest \<subseteq> order_id ` set (bk (opposite s))"
    using r(1,2) set_mono_suffix by (metis list.set_map)
  have prices: "price ` set rest \<subseteq> price ` set (bk (opposite s))"
    using r(3) set_mono_suffix by (metis list.set_map)
  note i = inv [unfolded lob_inv_side [of bk s]]
  have 1: "priority_sorted (opposite s) rest"
    using i r(3) by (auto simp: priority_sorted_alt suffix_def sorted_wrt_append)
  have 2: "distinct (map order_id rest)"
    using i r(1,2) by (auto simp: suffix_def)
  have 3: "\<forall>x \<in> set (bk s). \<forall>y \<in> set rest. price_before (opposite s) (price x) (price y)"
  proof (intro ballI)
    fix x y assume xy: "x \<in> set (bk s)" "y \<in> set rest"
    then have "price y \<in> price ` set (bk (opposite s))"
      using prices by blast
    then obtain z where "z \<in> set (bk (opposite s))" "price z = price y"
      by (rule imageE) simp
    moreover have "\<forall>x \<in> set (bk s). \<forall>y \<in> set (bk (opposite s)). price_before (opposite s) (price x) (price y)"
      using i by (elim conjE)
    ultimately show "price_before (opposite s) (price x) (price y)"
      using xy(1) by metis
  qed
  have 4: "order_id ` set (bk s) \<inter> order_id ` set rest = {}"
    using i disjoint_mono [OF subset_refl ids] by simp
  have 5: "(bk(opposite s := rest)) s = bk s" "(bk(opposite s := rest)) (opposite s) = rest"
    by simp_all
  from ok have 6: "\<forall>ord \<in> set rest. resting_ok (opposite s) ord" by blast
  show ?thesis
    unfolding lob_inv_side [of "bk(opposite s := rest)" s] 5
    using i by (simp add: 1 2 3 4 6)
qed

lemma lob_settle_inv:
  assumes inv: "lob_inv bk" and new: "order_id ord \<notin> lob_ids bk"
    and acc: "acceptable ord"
    and clear: "remaining_quantity ord \<noteq> 0 \<Longrightarrow> bk (opposite (side ord)) = []
       \<or> \<not> crosses ord (price (hd (bk (opposite (side ord)))))"
  shows "lob_inv (lob_settle ord bk)"
proof (cases "remaining_quantity ord \<noteq> 0 \<and> otype ord = Limit")
  case False
  with inv show ?thesis unfolding lob_settle_def by (simp only: if_False)
next
  case True
  let ?s = "side ord"
  have "price_before (opposite ?s) (price ord) (price y)" if y: "y \<in> set (bk (opposite ?s))" for y
  proof (cases "bk (opposite ?s)")
    case Nil
    with y show ?thesis by simp
  next
    case (Cons h ms)
    then have "price_before (opposite ?s) (price ord) (price h)"
      using clear True by (simp add: crosses_def)
    moreover have "\<not> price_before (opposite ?s) (price y) (price h)"
      using inv y Cons by (auto simp: lob_inv_side [of _ ?s] priority_sorted_def)
    ultimately show ?thesis by (rule price_before_chain)
  qed
  moreover have "resting_ok ?s ord"
    using True acc by (auto simp: resting_ok_def acceptable_def)
  ultimately show ?thesis
    using True inv new by (auto simp: lob_settle_def lob_inv_side [of _ ?s] lob_ids_side [of _ ?s]
        priority_sorted_insert)
qed

lemma lob_submit_inv [inv_intros]:
  assumes inv: "lob_inv bk" and "lob_submit ord bk = (ok, ts, bk')"
  shows "lob_inv bk'"
proof (cases "acceptable ord \<and> order_id ord \<notin> lob_ids bk")
  case False
  with assms show ?thesis by (auto simp: lob_submit_def)
next
  case True
  let ?opp = "opposite (side ord)"
  obtain ord' rest where m: "lob_match (normalise ord) (bk ?opp) = (ts, ord', rest)"
    and bk': "bk' = lob_settle ord' (bk(?opp := rest))"
    using assms(2) True by (auto simp: lob_submit_def Let_def split: prod.splits)
  note sel = lob_match_frame_sel [OF m]
  have ids: "order_id ` set rest \<subseteq> order_id ` set (bk ?opp)"
    by (rule lob_match_rest [OF m]) (metis list.set_map set_mono_suffix)
  have "lob_inv (lob_settle ord' (bk(?opp := rest)))"
  proof (rule lob_settle_inv)
    show "lob_inv (bk(?opp := rest))"
      using inv m by (rule lob_match_inv)
    show "order_id ord' \<notin> lob_ids (bk(?opp := rest))"
      using True ids sel(1) by (auto simp: lob_ids_side [of _ "side ord"])
    show "acceptable ord'"
      using True sel by (simp add: acceptable_def)
    assume "remaining_quantity ord' \<noteq> 0"
    then show "(bk(?opp := rest)) (opposite (side ord')) = []
      \<or> \<not> crosses ord' (price (hd ((bk(?opp := rest)) (opposite (side ord')))))"
      using lob_match_stops [OF m] sel by simp
  qed
  with bk' show ?thesis by simp
qed

lemma lob_cancel_inv [inv_intros]:
  assumes "lob_inv bk" and "lob_cancel i bk = (ok, bk')"
  shows "lob_inv bk'"
proof -
  have "order_id ` set (filter P xs) \<subseteq> order_id ` set xs" for P xs by auto
  then have "order_id ` set (filter P (bk Buy)) \<inter> order_id ` set (filter P (bk Sell)) = {}" for P
    using assms(1) by (auto simp: lob_inv_side [of _ Buy])
  moreover have "distinct (map order_id (filter P (bk s)))" for P s
    using assms(1) by (cases s) (simp_all add: lob_inv_side [of _ Buy] distinct_map_filter)
  moreover have "priority_sorted s (filter P (bk s))" for P s
    using assms(1) by (cases s) (simp_all add: lob_inv_side [of _ Buy] priority_sorted_def sorted_wrt_filter)
  moreover have "bk' = (\<lambda>s. filter (\<lambda>ord. order_id ord \<noteq> i) (bk s))"
    using assms(2) by (simp add: lob_cancel_def)
  ultimately show ?thesis
    using assms(1) unfolding lob_inv_side [of _ Buy] by simp
qed

lemma lob_cancel_absent: "i \<notin> lob_ids bk \<Longrightarrow> lob_cancel i bk = (False, bk)"
  unfolding lob_cancel_def prod.inject
  by (intro conjI lob_eqI [of _ Buy]) (auto simp: lob_ids_side [of _ Buy])

text \<open>A cancel removes one order, when the id is there.\<close>

lemma lob_cancel_count:
  assumes "lob_inv bk"
  shows "length (lob_orders bk) = length (lob_orders (\<lambda>s. filter (\<lambda>ord. order_id ord \<noteq> i) (bk s)))
    + (if i \<in> lob_ids bk then 1 else 0)"
proof -
  have flt: "lob_orders (\<lambda>s. filter (\<lambda>ord. order_id ord \<noteq> i) (bk s))
    = filter (\<lambda>ord. order_id ord \<noteq> i) (lob_orders bk)"
    by (simp add: lob_orders_def)
  have count: "length xs = length (filter (\<lambda>ord. order_id ord \<noteq> i) xs) + (if i \<in> order_id ` set xs then 1 else 0)"
    if "distinct (map order_id xs)" for xs
    using that
  proof (induction xs)
    case (Cons x xs)
    show ?case
    proof (cases "order_id x = i")
      case True
      with Cons.prems have "i \<notin> order_id ` set xs" by simp
      with True show ?thesis by simp
    next
      case False
      with Cons show ?thesis by simp
    qed
  qed simp
  from count [of "lob_orders bk"] assms show ?thesis
    unfolding flt lob_inv_def lob_ids_def by blast
qed

text \<open>What is found under a new id after settling is what was left to rest.\<close>

lemma find_absent: "i \<notin> order_id ` set xs \<Longrightarrow> List.find (\<lambda>ord. order_id ord = i) xs = None"
  by (auto simp: find_None_iff)

lemma find_append:
  "List.find P (xs @ ys) = (case List.find P xs of None \<Rightarrow> List.find P ys | Some x \<Rightarrow> Some x)"
  by (induction xs) auto

lemma find_insert:
  assumes "order_id ord \<notin> order_id ` set xs"
  shows "List.find (\<lambda>x. order_id x = order_id ord) (lob_insert ord xs) = Some ord"
proof -
  have "order_id ord \<notin> order_id ` set (takeWhile P xs)" for P
    using assms set_takeWhileD by fastforce
  then show ?thesis
    by (simp add: lob_insert_def Let_def find_append find_absent)
qed

lemma lob_get_settle:
  assumes "order_id ord \<notin> lob_ids bk"
  shows "lob_get (order_id ord) (lob_settle ord bk)
    = (if remaining_quantity ord \<noteq> 0 \<and> otype ord = Limit then Some ord else None)"
proof -
  have new: "order_id ord \<notin> order_id ` set (bk Buy)" "order_id ord \<notin> order_id ` set (bk Sell)"
    using assms by (auto simp: lob_ids_side [of _ Buy])
  then show ?thesis
    by (cases "side ord")
      (simp_all add: lob_get_def lob_settle_def lob_orders_def find_append find_absent find_insert)
qed

end
