(* ===== verification/Level_Book.thy ===== *)
theory Level_Book
  imports Price_Time_Book
begin

text \<open>
  The book as both engines organise it, without addresses: each side is an ordered map from
  price to the queue of orders resting there. The matching loops run over whole levels here,
  with the price test once per level as in the code. Flattening the levels gives the
  price-time book, and every operation commutes with flattening.
\<close>

type_synonym levels = "(price \<times> order list) list"

definition flat :: "levels \<Rightarrow> order list" where
  "flat lvs = concat (map snd lvs)"

lemma flat_simps [simp]: "flat [] = []" "flat ((p, os) # lvs) = os @ flat lvs"
  "flat (l1 @ l2) = flat l1 @ flat l2"
  by (simp_all add: flat_def)

definition levels_ok :: "side \<Rightarrow> levels \<Rightarrow> bool" where
  "levels_ok s lvs \<longleftrightarrow> omap_sorted (price_before s) lvs
     \<and> (\<forall>(p, os) \<in> set lvs. os \<noteq> [] \<and> (\<forall>ord \<in> set os. price ord = p))"

lemma levels_ok_Nil [simp]: "levels_ok s []"
  by (simp add: levels_ok_def)

lemma levels_ok_Cons [simp]:
  "levels_ok s ((p, os) # lvs) \<longleftrightarrow>
     os \<noteq> [] \<and> (\<forall>ord \<in> set os. price ord = p) \<and> (\<forall>p' \<in> fst ` set lvs. price_before s p p')
     \<and> levels_ok s lvs"
  by (auto simp: levels_ok_def)

section \<open>Matching over levels\<close>

fun lv_fill :: "order \<Rightarrow> order list \<Rightarrow> trade list \<times> order \<times> order list" where
  "lv_fill inc [] = ([], inc, [])"
| "lv_fill inc (m # ms) =
     (if remaining_quantity inc = 0 then ([], inc, m # ms)
      else let q = min (remaining_quantity inc) (remaining_quantity m); t = make_trade inc m q
        in if is_filled (reduce m q)
           then (case lv_fill (reduce inc q) ms of (ts, inc', ms') \<Rightarrow> (t # ts, inc', ms'))
           else ([t], reduce inc q, reduce m q # ms))"

fun lv_match :: "order \<Rightarrow> levels \<Rightarrow> trade list \<times> order \<times> levels" where
  "lv_match inc [] = ([], inc, [])"
| "lv_match inc ((p, os) # lvs) =
     (if remaining_quantity inc = 0 \<or> \<not> crosses inc p then ([], inc, (p, os) # lvs)
      else case lv_fill inc os of (ts, inc', os') \<Rightarrow>
        if os' = [] then (case lv_match inc' lvs of (ts', inc'', lvs') \<Rightarrow> (ts @ ts', inc'', lvs'))
        else (ts, inc', (p, os') # lvs))"

text \<open>Where all prices cross, filling a queue is matching it.\<close>

lemma lv_fill_match:
  "\<forall>m \<in> set ms. crosses inc (price m) \<Longrightarrow> lv_fill inc ms = lob_match inc ms"
proof (induction ms arbitrary: inc)
  case Nil
  then show ?case by simp
next
  case (Cons m ms)
  let ?i = "remaining_quantity inc" and ?m = "remaining_quantity m"
  show ?case
  proof (cases "?m \<le> ?i")
    case True
    then have "min ?i ?m = ?m" by (simp add: min_def)
    with True Cons show ?thesis by (simp add: is_filled_def Let_def)
  next
    case False
    then have "min ?i ?m = ?i" "?m - ?i \<noteq> 0" by (auto simp: min_def)
    with False Cons show ?thesis by (simp add: is_filled_def Let_def)
  qed
qed

lemma lob_match_append:
  "\<forall>m \<in> set xs. crosses inc (price m) \<Longrightarrow> lob_match inc xs = (ts, inc', xs') \<Longrightarrow>
   lob_match inc (xs @ ys) =
     (if xs' = [] then (case lob_match inc' ys of (ts', inc'', ys') \<Rightarrow> (ts @ ts', inc'', ys'))
      else (ts, inc', xs' @ ys))"
proof (induction xs arbitrary: inc ts)
  case Nil
  then show ?case by (auto split: prod.splits)
next
  case (Cons m xs)
  from Cons.prems(2) show ?case
  proof (cases rule: lob_match_ConsE)
    case stop
    with Cons.prems(1) show ?thesis by simp
  next
    case (fill ts1)
    with Cons.prems(1) Cons.IH [OF _ fill(4)] show ?thesis
      by (auto split: prod.splits)
  next
    case part
    with Cons.prems(1) show ?thesis by (simp add: not_le [symmetric])
  qed
qed

lemma lv_fill_levels:
  assumes "lv_fill inc os = (ts, inc', os')" "\<forall>ord \<in> set os. price ord = p" "crosses inc p"
  shows "\<forall>ord \<in> set os'. price ord = p" "crosses inc' p' = crosses inc p'"
    "lob_match inc os = (ts, inc', os')"
    "side inc' = side inc" "otype inc' = otype inc" "order_id inc' = order_id inc"
    "price inc' = price inc" "timestamp inc' = timestamp inc"
    "initial_quantity inc' = initial_quantity inc"
proof -
  show m: "lob_match inc os = (ts, inc', os')"
    using assms lv_fill_match [of os inc] by simp
  obtain ks where "suffix (map price os') (map price os)"
    by (rule lob_match_rest [OF m])
  then have "price ` set os' \<subseteq> price ` set os"
    by (metis list.set_map set_mono_suffix)
  with assms(2) show "\<forall>ord \<in> set os'. price ord = p" by auto
qed (use lob_match_frame_sel [of inc os ts inc' os'] assms lv_fill_match [of os inc] in auto)

lemma lv_match_flat:
  assumes "levels_ok s lvs" "lv_match inc lvs = (ts, inc', lvs')"
  shows "lob_match inc (flat lvs) = (ts, inc', flat lvs')"
    "levels_ok s lvs'" "fst ` set lvs' \<subseteq> fst ` set lvs"
proof -
  have "lob_match inc (flat lvs) = (ts, inc', flat lvs') \<and> levels_ok s lvs'
    \<and> fst ` set lvs' \<subseteq> fst ` set lvs"
    using assms
  proof (induction lvs arbitrary: inc ts inc' lvs')
    case Nil
    then show ?case by simp
  next
    case (Cons l lvs)
    obtain p os where l: "l = (p, os)" by (cases l)
    show ?case
    proof (cases "remaining_quantity inc = 0 \<or> \<not> crosses inc p")
      case True
      with Cons.prems l show ?thesis
        by (cases os) auto
    next
      case False
      obtain ts1 inc1 os1 where f: "lv_fill inc os = (ts1, inc1, os1)"
        by (cases "lv_fill inc os")
      have os: "\<forall>ord \<in> set os. price ord = p"
        using Cons.prems(1) l by simp
      note fl = lv_fill_levels [OF f os]
      have cr: "\<forall>m \<in> set os. crosses inc (price m)"
        using os False by simp
      obtain ts2 inc2 lvs2 where r: "lv_match inc1 lvs = (ts2, inc2, lvs2)"
        by (cases "lv_match inc1 lvs")
      show ?thesis
        using Cons.IH [OF _ r] Cons.prems l False f fl r lob_match_append [OF cr fl(3)]
        by (auto split: if_splits)
    qed
  qed
  then show "lob_match inc (flat lvs) = (ts, inc', flat lvs')"
    "levels_ok s lvs'" "fst ` set lvs' \<subseteq> fst ` set lvs"
    by blast+
qed

section \<open>Resting and removing\<close>

definition level_at :: "price \<Rightarrow> (price \<times> 'a list) list \<Rightarrow> 'a list" where
  "level_at p lvs = (case map_of lvs p of None \<Rightarrow> [] | Some q \<Rightarrow> q)"

definition lv_rest :: "side \<Rightarrow> order \<Rightarrow> levels \<Rightarrow> levels" where
  "lv_rest s ord lvs = omap_put (price_before s) (price ord) (level_at (price ord) lvs @ [ord]) lvs"

definition lv_drop :: "side \<Rightarrow> price \<Rightarrow> order_id \<Rightarrow> levels \<Rightarrow> levels" where
  "lv_drop s p i lvs =
     (let os = filter (\<lambda>ord. order_id ord \<noteq> i) (level_at p lvs)
      in if os = [] then AList.delete p lvs else omap_put (price_before s) p os lvs)"

lemma map_of_split:
  assumes "map_of m k = Some v"
  obtains m1 m2 where "m = m1 @ (k, v) # m2"
  using map_of_SomeD [OF assms] by (auto simp: in_set_conv_decomp)

lemma levels_ok_sorted: "levels_ok s lvs \<Longrightarrow> omap_sorted (price_before s) lvs"
  by (simp add: levels_ok_def)

lemma levels_ok_append:
  "levels_ok s (l1 @ l2) \<longleftrightarrow> levels_ok s l1 \<and> levels_ok s l2
     \<and> (\<forall>p \<in> fst ` set l1. \<forall>q \<in> fst ` set l2. price_before s p q)"
proof (induction l1)
  case Nil
  then show ?case by simp
next
  case (Cons l l1)
  obtain p os where "l = (p, os)" by (cases l)
  with Cons show ?case by (simp add: image_Un ball_Un) blast
qed

lemma flat_price: "levels_ok s lvs \<Longrightarrow> ord \<in> set (flat lvs) \<Longrightarrow> price ord \<in> fst ` set lvs"
  by (force simp: flat_def levels_ok_def)

lemma lob_insert_between:
  assumes "\<forall>x \<in> set xs. \<not> price_before (side ord) (price ord) (price x)"
    "\<forall>y \<in> set ys. price_before (side ord) (price ord) (price y)"
  shows "lob_insert ord (xs @ ys) = xs @ ord # ys"
proof -
  have "takeWhile P (xs @ ys) = xs" "dropWhile P (xs @ ys) = ys"
    if "\<forall>x \<in> set xs. P x" "\<forall>y \<in> set ys. \<not> P y" for P
    using that by (cases ys; simp add: takeWhile_append dropWhile_append)+
  with assms show ?thesis by (simp add: lob_insert_def Let_def)
qed

lemma lv_rest_correct:
  assumes ok: "levels_ok s lvs" and s: "side ord = s"
  shows "flat (lv_rest s ord lvs) = lob_insert ord (flat lvs)" "levels_ok s (lv_rest s ord lvs)"
proof -
  note sorted = levels_ok_sorted [OF ok]
  have "flat (lv_rest s ord lvs) = lob_insert ord (flat lvs) \<and> levels_ok s (lv_rest s ord lvs)"
  proof (cases "map_of lvs (price ord)")
    case None
    have put: "lv_rest s ord lvs = omap_put (price_before s) (price ord) [ord] lvs"
      by (simp add: lv_rest_def level_at_def None)
    obtain m1 m2 where m: "lvs = m1 @ m2" "lv_rest s ord lvs = m1 @ (price ord, [ord]) # m2"
      and b: "\<And>k. k \<in> fst ` set m1 \<Longrightarrow> price_before s k (price ord)"
        "\<And>k. k \<in> fst ` set m2 \<Longrightarrow> price_before s (price ord) k"
      by (rule lv.put_absent [OF sorted None, where v = "[ord]"]) (metis put)
    have ok': "levels_ok s m1" "levels_ok s m2"
      using ok m by (simp_all add: levels_ok_append)
    have "lob_insert ord (flat m1 @ flat m2) = flat m1 @ ord # flat m2"
      using b flat_price [OF ok'(1)] flat_price [OF ok'(2)] s
      by (intro lob_insert_between) (auto dest: lv.asym)
    with m ok ok' b show ?thesis by (auto simp: levels_ok_append)
  next
    case (Some os)
    obtain m1 m2 where m: "lvs = m1 @ (price ord, os) # m2"
      using Some by (rule map_of_split)
    note sp = lv.sorted_split [OF sorted [unfolded m]]
    have r: "lv_rest s ord lvs = m1 @ (price ord, os @ [ord]) # m2"
      unfolding lv_rest_def level_at_def Some
      using lv.put_present [OF sorted [unfolded m]] by (simp add: m)
    have ok': "levels_ok s m1" "levels_ok s m2" "\<forall>x \<in> set os. price x = price ord"
      using ok m by (simp_all add: levels_ok_append)
    have "lob_insert ord ((flat m1 @ os) @ flat m2) = (flat m1 @ os) @ ord # flat m2"
      using sp(3,4) flat_price [OF ok'(1)] flat_price [OF ok'(2)] ok'(3) s
      by (intro lob_insert_between) (auto dest: lv.asym)
    with m ok ok' r show ?thesis by (auto simp: levels_ok_append)
  qed
  then show "flat (lv_rest s ord lvs) = lob_insert ord (flat lvs)" "levels_ok s (lv_rest s ord lvs)"
    by blast+
qed

lemma lv_drop_correct:
  assumes ok: "levels_ok s lvs"
    and only: "\<And>ord. ord \<in> set (flat lvs) \<Longrightarrow> order_id ord = i \<Longrightarrow> price ord = p"
  shows "flat (lv_drop s p i lvs) = filter (\<lambda>ord. order_id ord \<noteq> i) (flat lvs)"
    "levels_ok s (lv_drop s p i lvs)"
proof -
  note sorted = levels_ok_sorted [OF ok]
  let ?P = "\<lambda>ord. order_id ord \<noteq> i"
  have "flat (lv_drop s p i lvs) = filter ?P (flat lvs) \<and> levels_ok s (lv_drop s p i lvs)"
  proof (cases "map_of lvs p")
    case None
    then have absent: "p \<notin> fst ` set lvs" by (simp add: map_of_eq_None_iff)
    then have "\<forall>ord \<in> set (flat lvs). ?P ord"
      using only flat_price [OF ok] by blast
    moreover have "lv_drop s p i lvs = lvs"
      using absent by (simp add: lv_drop_def level_at_def None delete_id)
    ultimately show ?thesis using ok by simp
  next
    case (Some os)
    obtain m1 m2 where m: "lvs = m1 @ (p, os) # m2"
      using Some by (rule map_of_split)
    note sp = lv.sorted_split [OF sorted [unfolded m]]
    have ok': "levels_ok s m1" "levels_ok s m2"
      using ok m by (simp_all add: levels_ok_append)
    have others: "\<forall>ord \<in> set (flat m1) \<union> set (flat m2). ?P ord"
    proof (intro ballI notI)
      fix ord assume mem: "ord \<in> set (flat m1) \<union> set (flat m2)" and "order_id ord = i"
      then have "price ord = p" using only m by auto
      moreover have "price ord \<in> fst ` set m1 \<union> fst ` set m2"
        using mem flat_price [OF ok'(1)] flat_price [OF ok'(2)] by blast
      ultimately show False using sp(1,2) by auto
    qed
    have flt: "filter ?P (flat lvs) = flat m1 @ filter ?P os @ flat m2"
      using others by (simp add: m)
    have "lv_drop s p i lvs
      = (if filter ?P os = [] then m1 @ m2 else m1 @ (p, filter ?P os) # m2)"
      using lv.put_present [OF sorted [unfolded m]] lv.delete_present [OF sorted [unfolded m]] Some m
      by (simp add: lv_drop_def level_at_def)
    with ok flt m show ?thesis by (auto simp: levels_ok_append)
  qed
  then show "flat (lv_drop s p i lvs) = filter ?P (flat lvs)" "levels_ok s (lv_drop s p i lvs)"
    by blast+
qed

section \<open>Queries over levels\<close>

lemma level_at_flat:
  assumes "levels_ok s lvs"
  shows "filter (\<lambda>ord. price ord = p) (flat lvs) = level_at p lvs"
  using assms
proof (induction lvs)
  case Nil
  then show ?case by (simp add: level_at_def)
next
  case (Cons l lvs)
  obtain p' os where l: "l = (p', os)" by (cases l)
  show ?case
  proof (cases "p' = p")
    case True
    have "p \<notin> fst ` set lvs" using Cons.prems l True by auto
    then have "filter (\<lambda>ord. price ord = p) (flat lvs) = []"
      using Cons.prems l flat_price [of s lvs] by (auto simp: filter_empty_conv)
    with Cons.prems l True show ?thesis by (simp add: level_at_def)
  next
    case False
    with Cons l show ?thesis by (simp add: level_at_def)
  qed
qed

lemma best_flat:
  "levels_ok s lvs \<Longrightarrow>
   (case flat lvs of [] \<Rightarrow> None | ord # _ \<Rightarrow> Some (price ord))
     = (case lvs of [] \<Rightarrow> None | (p, _) # _ \<Rightarrow> Some p)"
  by (cases lvs) (auto split: list.split simp: neq_Nil_conv)

lemma level_count_flat:
  assumes "levels_ok s lvs"
  shows "card (price ` set (flat lvs)) = length lvs"
proof -
  have "price ` set (flat lvs) = fst ` set lvs"
  proof (intro subset_antisym subsetI)
    fix p assume "p \<in> price ` set (flat lvs)"
    then show "p \<in> fst ` set lvs" using flat_price [OF assms] by auto
  next
    fix p assume "p \<in> fst ` set lvs"
    then obtain os where "(p, os) \<in> set lvs" by auto
    moreover from this obtain ord where "ord \<in> set os" "price ord = p"
      using assms by (fastforce simp: levels_ok_def neq_Nil_conv)
    ultimately show "p \<in> price ` set (flat lvs)" by (force simp: flat_def)
  qed
  moreover have "distinct (map fst lvs)"
    using levels_ok_sorted [OF assms] by (rule lv.sorted_distinct)
  ultimately show ?thesis by (metis distinct_card length_map list.set_map)
qed

end
