(* ===== verification/Order_Store.thy ===== *)
theory Order_Store
  imports Level_Book
begin

text \<open>
  What the two engines share: levels that hold addresses (list nodes in one, pool slots in the
  other), a store giving the order at an address, and an index from order ids to addresses.
  \<open>index_ok\<close> says that the index and the live addresses describe the same orders; the lemmas
  give its change under each kind of store update, once for both engines.
\<close>

type_synonym 'a alevels = "(price \<times> 'a list) list"

definition addrs :: "'a alevels \<Rightarrow> 'a list" where
  "addrs lv = concat (map snd lv)"

definition resolve :: "('a \<rightharpoonup> order) \<Rightarrow> 'a alevels \<Rightarrow> levels" where
  "resolve h lv = map (\<lambda>(p, q). (p, map (\<lambda>a. the (h a)) q)) lv"

lemma addrs_simps [simp]:
  "addrs [] = []" "addrs ((p, q) # lv) = q @ addrs lv" "addrs (l1 @ l2) = addrs l1 @ addrs l2"
  by (simp_all add: addrs_def)

lemma resolve_simps [simp]:
  "resolve h [] = []"
  "resolve h ((p, q) # lv) = (p, map (\<lambda>a. the (h a)) q) # resolve h lv"
  "resolve h (l1 @ l2) = resolve h l1 @ resolve h l2"
  by (simp_all add: resolve_def)

lemma resolve_cong:
  "\<forall>a \<in> set (addrs lv). h a = h' a \<Longrightarrow> resolve h lv = resolve h' lv"
  by (induction lv) auto

lemma keys_resolve [simp]: "map fst (resolve h lv) = map fst lv" "fst ` set (resolve h lv) = fst ` set lv"
proof -
  show *: "map fst (resolve h lv) = map fst lv" by (induction lv) auto
  show "fst ` set (resolve h lv) = fst ` set lv" using * by (metis list.set_map)
qed

lemma length_resolve [simp]: "length (resolve h lv) = length lv"
  by (simp add: resolve_def)

lemma resolve_eq_Nil [simp]: "resolve h lv = [] \<longleftrightarrow> lv = []"
  by (simp add: resolve_def)

lemma flat_resolve: "flat (resolve h lv) = map (\<lambda>a. the (h a)) (addrs lv)"
  by (induction lv) auto

lemma map_of_resolve: "map_of (resolve h lv) p = map_option (map (\<lambda>a. the (h a))) (map_of lv p)"
  by (induction lv) auto

lemma level_at_resolve: "level_at p (resolve h lv) = map (\<lambda>a. the (h a)) (level_at p lv)"
  by (simp add: level_at_def map_of_resolve split: option.split)

lemma resolve_put:
  "resolve h (omap_put lt p q lv) = omap_put lt p (map (\<lambda>a. the (h a)) q) (resolve h lv)"
  by (induction lv) auto

lemma resolve_delete: "resolve h (AList.delete p lv) = AList.delete p (resolve h lv)"
  by (induction lv) auto

lemma set_addrs_map_of: "map_of lv p = Some q \<Longrightarrow> set q \<subseteq> set (addrs lv)"
  by (induction lv) (auto split: if_splits)

lemma level_at_subset: "set (level_at p lv) \<subseteq> set (addrs lv)"
  by (cases "map_of lv p") (simp_all add: level_at_def set_addrs_map_of)

text \<open>Writing one level of an address map back.\<close>

lemma addrs_split:
  assumes "map_of lv p = Some q"
  obtains l1 l2 where "lv = l1 @ (p, q) # l2" "addrs lv = addrs l1 @ q @ addrs l2"
  using assms by (auto elim: map_of_split)

section \<open>Index and store\<close>

definition index_ok :: "'a set \<Rightarrow> ('a \<rightharpoonup> order) \<Rightarrow> (order_id \<rightharpoonup> 'a) \<Rightarrow> bool" where
  "index_ok A h ix \<longleftrightarrow> A \<subseteq> dom h
     \<and> (\<forall>i a. ix i = Some a \<longleftrightarrow> a \<in> A \<and> order_id (the (h a)) = i)"

lemma index_okI:
  assumes "\<And>a. a \<in> A \<Longrightarrow> \<exists>ord. h a = Some ord"
    and "\<And>i a. ix i = Some a \<longleftrightarrow> a \<in> A \<and> order_id (the (h a)) = i"
  shows "index_ok A h ix"
  using assms by (auto simp: index_ok_def dom_def)

lemma index_ok_defined: "index_ok A h ix \<Longrightarrow> a \<in> A \<Longrightarrow> \<exists>ord. h a = Some ord"
  by (auto simp: index_ok_def)

lemma index_ok_iff:
  "index_ok A h ix \<Longrightarrow> ix i = Some a \<longleftrightarrow> a \<in> A \<and> order_id (the (h a)) = i"
  by (simp add: index_ok_def)

lemma index_okD:
  assumes "index_ok A h ix" "a \<in> A"
  obtains ord where "h a = Some ord" "ix (order_id ord) = Some a"
proof -
  obtain ord where "h a = Some ord" using index_ok_defined [OF assms] ..
  with index_ok_iff [OF assms(1), of "order_id ord" a] assms(2) that show ?thesis by simp
qed

lemma index_ok_lookup:
  assumes "index_ok A h ix" "ix i = Some a"
  obtains ord where "a \<in> A" "h a = Some ord" "order_id ord = i"
proof -
  have "a \<in> A" "order_id (the (h a)) = i"
    using assms(2) index_ok_iff [OF assms(1), of i a] by simp_all
  with index_ok_defined [OF assms(1), of a] that show ?thesis by auto
qed

lemma index_ok_inj:
  "index_ok A h ix \<Longrightarrow> a \<in> A \<Longrightarrow> b \<in> A \<Longrightarrow> order_id (the (h a)) = order_id (the (h b)) \<Longrightarrow> a = b"
  using index_ok_iff [of A h ix "order_id (the (h a))" a]
    index_ok_iff [of A h ix "order_id (the (h a))" b] by simp

lemma index_ok_remove:
  assumes ok: "index_ok A h ix" and a: "a \<in> A" "h a = Some ord"
    and h': "\<And>b. b \<in> A \<Longrightarrow> b \<noteq> a \<Longrightarrow> h' b = h b"
  shows "index_ok (A - {a}) h' (ix(order_id ord := None))"
proof (rule index_okI)
  fix b assume "b \<in> A - {a}"
  then show "\<exists>ord. h' b = Some ord" using index_ok_defined [OF ok] h' by simp
next
  fix i b
  show "(ix(order_id ord := None)) i = Some b \<longleftrightarrow> b \<in> A - {a} \<and> order_id (the (h' b)) = i"
  proof (cases "b \<in> A \<and> b \<noteq> a")
    case True
    then have "order_id (the (h b)) \<noteq> order_id ord"
      using index_ok_inj [OF ok, of b a] a by auto
    with True h' index_ok_iff [OF ok] show ?thesis by auto
  next
    case False
    with index_ok_iff [OF ok, of i b] a show ?thesis by auto
  qed
qed

lemma index_ok_update:
  assumes ok: "index_ok A h ix" and a: "h a = Some ord" "h' a = Some ord'"
    "order_id ord' = order_id ord"
    and h': "\<And>b. b \<in> A \<Longrightarrow> b \<noteq> a \<Longrightarrow> h' b = h b"
  shows "index_ok A h' ix"
proof (rule index_okI)
  fix b assume "b \<in> A"
  then show "\<exists>ord. h' b = Some ord" using index_ok_defined [OF ok] h' a by (cases "b = a") simp_all
next
  fix i b
  show "ix i = Some b \<longleftrightarrow> b \<in> A \<and> order_id (the (h' b)) = i"
    using index_ok_iff [OF ok, of i b] h' a by (cases "b = a") auto
qed

lemma index_ok_insert:
  assumes ok: "index_ok A h ix" and a: "a \<notin> A" "h' a = Some ord" "ix (order_id ord) = None"
    and h': "\<And>b. b \<in> A \<Longrightarrow> h' b = h b"
  shows "index_ok (insert a A) h' (ix(order_id ord \<mapsto> a))"
proof (rule index_okI)
  fix b assume "b \<in> insert a A"
  then show "\<exists>ord. h' b = Some ord" using index_ok_defined [OF ok] h' a by auto
next
  fix i b
  have "order_id (the (h b)) \<noteq> order_id ord" if "b \<in> A"
    using that index_ok_iff [OF ok, of "order_id ord" b] a(3) by auto
  then show "(ix(order_id ord \<mapsto> a)) i = Some b \<longleftrightarrow> b \<in> insert a A \<and> order_id (the (h' b)) = i"
    using index_ok_iff [OF ok, of i b] h' a by (cases "b = a") auto
qed

lemma index_ok_cong:
  "(\<And>a. a \<in> A \<Longrightarrow> h a = h' a) \<Longrightarrow> index_ok A h ix \<longleftrightarrow> index_ok A h' ix"
  unfolding index_ok_def by (auto simp: subset_iff dom_def)

lemma index_ok_ids:
  assumes "index_ok (set as) h ix"
  shows "dom ix = order_id ` set (map (\<lambda>a. the (h a)) as)"
proof (intro subset_antisym subsetI)
  fix i assume "i \<in> dom ix"
  then obtain a where "ix i = Some a" by auto
  then show "i \<in> order_id ` set (map (\<lambda>a. the (h a)) as)"
    using index_ok_iff [OF assms] by auto
next
  fix i assume "i \<in> order_id ` set (map (\<lambda>a. the (h a)) as)"
  then obtain a where "a \<in> set as" "order_id (the (h a)) = i" by auto
  then show "i \<in> dom ix" using index_ok_iff [OF assms, of i a] by auto
qed

lemma index_ok_distinct_ids:
  assumes "index_ok (set as) h ix" "distinct as"
  shows "distinct (map order_id (map (\<lambda>a. the (h a)) as))"
  using index_ok_inj [OF assms(1)] assms(2) by (simp add: distinct_map inj_on_def)

text \<open>The index finds exactly the order that the flat book holds under an id.\<close>

lemma find_unique:
  "x \<in> set xs \<Longrightarrow> P x \<Longrightarrow> (\<And>y. y \<in> set xs \<Longrightarrow> P y \<Longrightarrow> y = x) \<Longrightarrow> List.find P xs = Some x"
proof (induction xs)
  case Nil
  then show ?case by simp
next
  case (Cons y xs)
  show ?case
  proof (cases "P y")
    case True
    with Cons.prems(3) [of y] show ?thesis by simp
  next
    case False
    have "List.find P xs = Some x"
    proof (rule Cons.IH)
      show "x \<in> set xs" using Cons.prems(1,2) False by auto
      show "P x" by (rule Cons.prems(2))
      show "z = x" if "z \<in> set xs" "P z" for z
        by (rule Cons.prems(3)) (simp_all add: that)
    qed
    with False show ?thesis by simp
  qed
qed

lemma index_ok_find:
  assumes "index_ok (set as) h ix"
  shows "List.find (\<lambda>ord. order_id ord = i) (map (\<lambda>a. the (h a)) as)
    = (case ix i of None \<Rightarrow> None | Some a \<Rightarrow> h a)"
proof (cases "ix i")
  case None
  then have "i \<notin> order_id ` set (map (\<lambda>a. the (h a)) as)"
    using index_ok_ids [OF assms] by auto
  then have "List.find (\<lambda>ord. order_id ord = i) (map (\<lambda>a. the (h a)) as) = None"
    by (auto simp: find_None_iff)
  with None show ?thesis by simp
next
  case (Some a)
  obtain ord where a: "a \<in> set as" "h a = Some ord" "order_id ord = i"
    by (rule index_ok_lookup [OF assms Some])
  have "List.find (\<lambda>ord. order_id ord = i) (map (\<lambda>a. the (h a)) as) = Some ord"
  proof (rule find_unique)
    show "ord \<in> set (map (\<lambda>a. the (h a)) as)" using a by force
    show "order_id ord = i" by (rule a)
    fix y assume "y \<in> set (map (\<lambda>a. the (h a)) as)" "order_id y = i"
    then obtain b where "b \<in> set as" "y = the (h b)" "order_id (the (h b)) = i" by auto
    with a index_ok_inj [OF assms, of b a] show "y = ord" by auto
  qed
  with Some a show ?thesis by simp
qed

section \<open>Writing a level back\<close>

lemma sorted_resolve [simp]: "omap_sorted lt (resolve h lv) \<longleftrightarrow> omap_sorted lt lv"
  by (simp add: omap_sorted_def)

lemma levels_ok_omap_sorted: "levels_ok s (resolve h lv) \<Longrightarrow> omap_sorted (price_before s) lv"
  using levels_ok_sorted sorted_resolve by blast

lemma append_level:
  assumes "omap_sorted (price_before s) lv"
  obtains l1 l2 where "addrs lv = l1 @ l2"
    "addrs (omap_put (price_before s) p (level_at p lv @ [a]) lv) = l1 @ a # l2"
proof (cases "map_of lv p")
  case None
  obtain m1 m2 where "lv = m1 @ m2"
    "omap_put (price_before s) p (level_at p lv @ [a]) lv = m1 @ (p, level_at p lv @ [a]) # m2"
    by (rule lv.put_absent [OF assms None])
  moreover have "level_at p lv = []"
    by (simp add: level_at_def None)
  ultimately have "addrs lv = addrs m1 @ addrs m2"
    "addrs (omap_put (price_before s) p (level_at p lv @ [a]) lv) = addrs m1 @ a # addrs m2"
    by simp_all
  then show ?thesis by (rule that)
next
  case (Some q)
  obtain m1 m2 where m: "lv = m1 @ (p, q) # m2"
    using Some by (rule map_of_split)
  have "omap_put (price_before s) p (q @ [a]) lv = m1 @ (p, q @ [a]) # m2"
    using lv.put_present [OF assms [unfolded m]] by (simp add: m)
  then have "addrs (omap_put (price_before s) p (level_at p lv @ [a]) lv)
      = (addrs m1 @ q) @ a # addrs m2"
    by (simp add: level_at_def Some)
  moreover have "addrs lv = (addrs m1 @ q) @ addrs m2"
    by (simp add: m)
  ultimately show ?thesis by (intro that)
qed

lemma resolve_append:
  assumes "h' a = Some ord" "\<And>b. b \<in> set (addrs lv) \<Longrightarrow> h' b = h b"
  shows "resolve h' (omap_put (price_before s) (price ord) (level_at (price ord) lv @ [a]) lv)
    = lv_rest s ord (resolve h lv)"
proof -
  have "resolve h' lv = resolve h lv"
    by (rule resolve_cong) (simp add: assms(2))
  moreover have "map (\<lambda>b. the (h' b)) (level_at (price ord) lv)
      = map (\<lambda>b. the (h b)) (level_at (price ord) lv)"
    using assms(2) level_at_subset [of "price ord" lv] by (intro map_cong) auto
  ultimately show ?thesis
    using assms(1) by (simp only: resolve_put lv_rest_def level_at_resolve map_append list.map
        option.sel)
qed

text \<open>Different levels hold different addresses.\<close>

lemma other_levels:
  assumes "distinct (addrs lv)" "(k, r) \<in> set lv" "k \<noteq> p" "a \<in> set r"
  shows "a \<notin> set (level_at p lv)"
proof (cases "map_of lv p")
  case None
  then show ?thesis by (simp add: level_at_def)
next
  case (Some q)
  obtain l1 l2 where l: "lv = l1 @ (p, q) # l2"
    using Some by (rule map_of_split)
  then have "(k, r) \<in> set l1 \<or> (k, r) \<in> set l2" using assms(2,3) by auto
  then have "a \<in> set (addrs l1) \<or> a \<in> set (addrs l2)"
    using assms(4) by (force simp: addrs_def)
  with assms(1) Some show ?thesis by (auto simp: l level_at_def)
qed

lemma level_in_addrs: "(p, q) \<in> set lv \<Longrightarrow> set q \<subseteq> set (addrs lv)"
  by (force simp: addrs_def)

text \<open>Taking an address out of its level, dropping the level when it was the last one.\<close>

definition drop_addr :: "side \<Rightarrow> price \<Rightarrow> 'a \<Rightarrow> 'a list \<Rightarrow> 'a alevels \<Rightarrow> 'a alevels" where
  "drop_addr s p a q lv =
     (if remove1 a q = [] then AList.delete p lv else omap_put (price_before s) p (remove1 a q) lv)"

lemma addrs_drop:
  assumes sorted: "omap_sorted (price_before s) lv" and q: "map_of lv p = Some q" "a \<in> set q"
    and dist: "distinct (addrs lv)"
  shows "addrs (drop_addr s p a q lv) = remove1 a (addrs lv)"
proof -
  obtain m1 m2 where m: "lv = m1 @ (p, q) # m2"
    using q(1) by (rule map_of_split)
  have "drop_addr s p a q lv
    = (if remove1 a q = [] then m1 @ m2 else m1 @ (p, remove1 a q) # m2)"
    using lv.put_present [OF sorted [unfolded m]] lv.delete_present [OF sorted [unfolded m]]
    by (simp add: drop_addr_def m)
  then have "addrs (drop_addr s p a q lv) = addrs m1 @ remove1 a q @ addrs m2"
    by simp
  moreover have "a \<notin> set (addrs m1)"
    using dist q(2) by (auto simp: m)
  ultimately show ?thesis
    using q(2) by (simp add: m remove1_append)
qed

lemma resolve_drop:
  assumes q: "map_of lv p = Some q" "distinct q" "a \<in> set q"
    and id: "order_id (the (h a)) = i" "\<And>b. b \<in> set q \<Longrightarrow> order_id (the (h b)) = i \<Longrightarrow> b = a"
  shows "resolve h (drop_addr s p a q lv) = lv_drop s p i (resolve h lv)"
proof -
  have "filter (\<lambda>b. order_id (the (h b)) \<noteq> i) q = remove1 a q"
  proof -
    have "filter (\<lambda>b. order_id (the (h b)) \<noteq> i) q = filter (\<lambda>b. b \<noteq> a) q"
      using id by (intro filter_cong) auto
    also have "\<dots> = remove1 a q"
      using q(2) by (simp add: distinct_remove1_removeAll removeAll_filter_not_eq neq_commute)
    finally show ?thesis .
  qed
  then have "filter (\<lambda>ord. order_id ord \<noteq> i) (map (\<lambda>b. the (h b)) q)
      = map (\<lambda>b. the (h b)) (remove1 a q)"
    by (simp add: filter_map comp_def)
  then show ?thesis
    using q(1) by (simp add: drop_addr_def lv_drop_def level_at_def map_of_resolve resolve_put resolve_delete)
qed

text \<open>
  What dropping an order does to the book: its id disappears from the side it stood on, and
  the addresses of the other side never carried it.
\<close>

lemma drop_correct:
  assumes ok: "index_ok (set (addrs lv) \<union> A) h ix" and lok: "levels_ok s (resolve h lv)"
    and dist: "distinct (addrs lv)" and q: "map_of lv p = Some q" "a \<in> set q"
    and ord: "h a = Some ord" "order_id ord = i"
  shows "flat (resolve h (drop_addr s p a q lv))
      = filter (\<lambda>ord. order_id ord \<noteq> i) (flat (resolve h lv))"
    "levels_ok s (resolve h (drop_addr s p a q lv))"
    "set (addrs lv') \<subseteq> A \<Longrightarrow> a \<notin> set (addrs lv') \<Longrightarrow>
      filter (\<lambda>ord. order_id ord \<noteq> i) (flat (resolve h lv')) = flat (resolve h lv')"
proof -
  have live: "a \<in> set (addrs lv)" using set_addrs_map_of [OF q(1)] q(2) by blast
  have uniq: "c = a" if "c \<in> set (addrs lv) \<union> A" "order_id (the (h c)) = i" for c
    using index_ok_inj [OF ok that(1), of a] live that(2) ord by simp
  have dq: "distinct q" using dist addrs_split [OF q(1)] by (metis distinct_append)
  have "(p, map (\<lambda>c. the (h c)) q) \<in> set (resolve h lv)"
    using map_of_SomeD [OF q(1)] by (force simp: resolve_def)
  then have price: "price ord = p" using lok q(2) ord(1) by (fastforce simp: levels_ok_def)
  have eq: "resolve h (drop_addr s p a q lv) = lv_drop s p i (resolve h lv)"
  proof (rule resolve_drop [OF q(1) dq q(2)])
    show "c = a" if "c \<in> set q" "order_id (the (h c)) = i" for c
      using uniq [of c] that set_addrs_map_of [OF q(1)] by auto
  qed (simp add: ord)
  have only: "price x = p" if x: "x \<in> set (flat (resolve h lv))" "order_id x = i" for x
  proof -
    obtain c where c: "c \<in> set (addrs lv)" "x = the (h c)"
      using x(1) by (auto simp: flat_resolve)
    then have "c = a" using uniq [of c] x(2) by simp
    with c ord price show ?thesis by simp
  qed
  note dropped = lv_drop_correct [OF lok only]
  show "flat (resolve h (drop_addr s p a q lv))
      = filter (\<lambda>ord. order_id ord \<noteq> i) (flat (resolve h lv))"
    unfolding eq by (rule dropped(1))
  show "levels_ok s (resolve h (drop_addr s p a q lv))"
    unfolding eq by (rule dropped(2))
  assume lv': "set (addrs lv') \<subseteq> A" "a \<notin> set (addrs lv')"
  have "order_id (the (h c)) \<noteq> i" if "c \<in> set (addrs lv')" for c
    using uniq [of c] that lv' by auto
  then show "filter (\<lambda>ord. order_id ord \<noteq> i) (flat (resolve h lv')) = flat (resolve h lv')"
    unfolding flat_resolve by (intro filter_True) auto
qed

end
