(* ===== verification/Stl_Order_Book.thy ===== *)
theory Stl_Order_Book
  imports Order_Store "HOL-Library.Monad_Syntax"
begin

text \<open>
  The baseline engine, \<^verbatim>\<open>StlOrderBook\<close>: two ordered maps from price to
  \<^verbatim>\<open>std::list<Order>\<close> and a hash map from order id to the list iterator. A list node
  is an address in \<open>list_nodes\<close>, a queue is the list of its nodes' addresses and an iterator
  is the address it points to. Dereferencing an iterator whose node was freed, or erasing one
  through a list it does not belong to, has no defined behaviour in C++ and is \<open>None\<close> here, so
  every theorem that an operation returns \<open>Some\<close> says that no iterator dangles.
\<close>

section \<open>State\<close>

type_synonym addr = nat

record order_location =
  loc_side :: side
  loc_price :: price
  list_it :: addr

record stl_book =
  bids :: "addr alevels"
  asks :: "addr alevels"
  order_index :: "(order_id \<times> order_location) list"
  list_nodes :: "addr \<rightharpoonup> order"
  next_node :: addr

definition stl_empty :: stl_book where
  "stl_empty = \<lparr>bids = [], asks = [], order_index = [], list_nodes = Map.empty, next_node = 0\<rparr>"

text \<open>\<^verbatim>\<open>queue.push_back(order)\<close> allocates a node; \<^verbatim>\<open>erase\<close> and
  \<^verbatim>\<open>pop_front\<close> free one.\<close>

definition push_back :: "order \<Rightarrow> addr list \<Rightarrow> stl_book \<Rightarrow> addr list \<times> stl_book" where
  "push_back ord queue b =
     (queue @ [next_node b],
      b\<lparr>list_nodes := (list_nodes b)(next_node b \<mapsto> ord), next_node := Suc (next_node b)\<rparr>)"

definition list_erase :: "addr \<Rightarrow> addr list \<Rightarrow> stl_book \<Rightarrow> (addr list \<times> stl_book) option" where
  "list_erase a queue b =
     (if a \<in> set queue
      then Some (remove1 a queue, b\<lparr>list_nodes := (list_nodes b)(a := None)\<rparr>) else None)"

section \<open>Matching\<close>

text \<open>The inner loop, \<^verbatim>\<open>while (!queue.empty() && incoming.remaining_quantity > 0)\<close>; the
  two copies in the source differ in the aggressor side only.\<close>

function match_queue ::
    "side \<Rightarrow> order \<Rightarrow> addr list \<Rightarrow> stl_book \<Rightarrow> trade list
      \<Rightarrow> (order \<times> addr list \<times> stl_book \<times> trade list) option" where
  "match_queue agg incoming queue b out_trades =
     (case queue of
        [] \<Rightarrow> Some (incoming, queue, b, out_trades)
      | front # rest \<Rightarrow>
          if remaining_quantity incoming > 0 then
            do {
              maker \<leftarrow> list_nodes b front;
              let match_qty = min (remaining_quantity incoming) (remaining_quantity maker);
              let trade = \<lparr>maker_order_id = order_id maker, taker_order_id = order_id incoming,
                trade_price = price maker, trade_quantity = match_qty,
                trade_timestamp = timestamp incoming, aggressor_side = agg\<rparr>;
              let maker = maker\<lparr>remaining_quantity := remaining_quantity maker - match_qty\<rparr>;
              let incoming = incoming\<lparr>remaining_quantity := remaining_quantity incoming - match_qty\<rparr>;
              if is_filled maker then
                match_queue agg incoming rest
                  (b\<lparr>order_index := AList.delete (order_id maker) (order_index b),
                     list_nodes := (list_nodes b)(front := None)\<rparr>)
                  (out_trades @ [trade])
              else
                match_queue agg incoming (front # rest)
                  (b\<lparr>list_nodes := (list_nodes b)(front \<mapsto> maker)\<rparr>) (out_trades @ [trade])
            }
          else Some (incoming, queue, b, out_trades))"
  by pat_completeness auto

text \<open>
  Each round either removes the front node or exhausts the incoming order, so the loop ends
  in every state, well formed or not.
\<close>

termination
  by (relation "measure (\<lambda>(_, incoming, queue, _, _).
        length queue + (if remaining_quantity incoming > 0 then 1 else 0))")
    (auto simp: is_filled_def min_def split: if_splits)

declare match_queue.simps [simp del]

lemma match_queue_Nil [simp]: "match_queue agg incoming [] b ts = Some (incoming, [], b, ts)"
  by (simp add: match_queue.simps)

lemma match_queue_exhausted [simp]:
  "remaining_quantity incoming = 0 \<Longrightarrow>
   match_queue agg incoming queue b ts = Some (incoming, queue, b, ts)"
  by (simp add: match_queue.simps split: list.split)

text \<open>One round of the loop, by whether it fills the maker.\<close>

lemma match_queue_Cons:
  assumes "remaining_quantity incoming \<noteq> 0"
  shows "match_queue (side incoming) incoming (front # rest) b ts =
    (case list_nodes b front of
       None \<Rightarrow> None
     | Some maker \<Rightarrow>
         let q = min (remaining_quantity incoming) (remaining_quantity maker);
             ts' = ts @ [make_trade incoming maker q]
         in if is_filled (reduce maker q) then
              match_queue (side incoming) (reduce incoming q) rest
                (b\<lparr>order_index := AList.delete (order_id maker) (order_index b),
                   list_nodes := (list_nodes b)(front := None)\<rparr>) ts'
            else Some (reduce incoming q, front # rest,
              b\<lparr>list_nodes := (list_nodes b)(front \<mapsto> reduce maker q)\<rparr>, ts'))"
proof (cases "list_nodes b front")
  case None
  with assms show ?thesis by (subst match_queue.simps) (simp add: word_pos_iff)
next
  case (Some maker)
  let ?q = "min (remaining_quantity incoming) (remaining_quantity maker)"
  have "remaining_quantity incoming - ?q = 0" if "\<not> is_filled (reduce maker ?q)"
    using that by (auto simp: is_filled_def min_def split: if_splits)
  with assms Some show ?thesis
    by (subst match_queue.simps) (simp add: word_pos_iff Let_def make_trade_def)
qed

text \<open>After the inner loop, the level is empty or the incoming order is exhausted.\<close>

lemma match_queue_done:
  "match_queue agg incoming queue b ts = Some (incoming', queue', b', ts') \<Longrightarrow>
   queue' = [] \<or> \<not> remaining_quantity incoming' > 0"
proof (induction agg incoming queue b ts rule: match_queue.induct)
  case (1 agg incoming queue b out_trades)
  note IH = "1.IH" and ret = "1.prems"
  consider "queue = [] \<or> remaining_quantity incoming = 0"
    | front rest where "queue = front # rest" "remaining_quantity incoming > 0"
    by (cases queue) (auto simp: word_pos_iff)
  then show ?case
  proof cases
    case 1
    with ret show ?thesis by auto
  next
    case 2
    with ret obtain maker where maker: "list_nodes b front = Some maker"
      by (subst (asm) match_queue.simps) (auto simp: bind_eq_Some_conv)
    let ?q = "min (remaining_quantity incoming) (remaining_quantity maker)"
    show ?thesis
      using ret 2 maker IH(1) [OF 2 maker refl refl refl refl] IH(2) [OF 2 maker refl refl refl refl]
      by (subst (asm) match_queue.simps) (simp add: Let_def split: if_splits)
  qed
qed

function match_buy :: "order \<Rightarrow> stl_book \<Rightarrow> trade list \<Rightarrow> (order \<times> stl_book \<times> trade list) option" where
  "match_buy incoming_buy b out_trades =
     (case asks b of
        [] \<Rightarrow> Some (incoming_buy, b, out_trades)
      | (best_ask_price, queue) # others \<Rightarrow>
          if remaining_quantity incoming_buy > 0 then
            if otype incoming_buy = Limit \<and> price incoming_buy < best_ask_price
            then Some (incoming_buy, b, out_trades)
            else do {
              (incoming_buy, queue, b, out_trades) \<leftarrow> match_queue Buy incoming_buy queue b out_trades;
              if queue = [] then match_buy incoming_buy (b\<lparr>asks := others\<rparr>) out_trades
              else match_buy incoming_buy (b\<lparr>asks := (best_ask_price, queue) # others\<rparr>) out_trades
            }
          else Some (incoming_buy, b, out_trades))"
  by pat_completeness auto

termination
  by (relation "measure (\<lambda>(incoming, b, _).
        length (asks b) + (if remaining_quantity incoming > 0 then 1 else 0))")
    (auto dest: match_queue_done)

function match_sell :: "order \<Rightarrow> stl_book \<Rightarrow> trade list \<Rightarrow> (order \<times> stl_book \<times> trade list) option" where
  "match_sell incoming_sell b out_trades =
     (case bids b of
        [] \<Rightarrow> Some (incoming_sell, b, out_trades)
      | (best_bid_price, queue) # others \<Rightarrow>
          if remaining_quantity incoming_sell > 0 then
            if otype incoming_sell = Limit \<and> price incoming_sell > best_bid_price
            then Some (incoming_sell, b, out_trades)
            else do {
              (incoming_sell, queue, b, out_trades) \<leftarrow> match_queue Sell incoming_sell queue b out_trades;
              if queue = [] then match_sell incoming_sell (b\<lparr>bids := others\<rparr>) out_trades
              else match_sell incoming_sell (b\<lparr>bids := (best_bid_price, queue) # others\<rparr>) out_trades
            }
          else Some (incoming_sell, b, out_trades))"
  by pat_completeness auto

termination
  by (relation "measure (\<lambda>(incoming, b, _).
        length (bids b) + (if remaining_quantity incoming > 0 then 1 else 0))")
    (auto dest: match_queue_done)

declare match_buy.simps [simp del] match_sell.simps [simp del]

section \<open>Submitting and cancelling\<close>

definition rest_bid :: "order \<Rightarrow> stl_book \<Rightarrow> stl_book" where
  "rest_bid ord b =
     (let it = next_node b; (queue, b) = push_back ord (level_at (price ord) (bids b)) b
      in b\<lparr>bids := omap_put (price_before Buy) (price ord) queue (bids b),
           order_index := AList.update (order_id ord)
             \<lparr>loc_side = Buy, loc_price = price ord, list_it = it\<rparr> (order_index b)\<rparr>)"

definition rest_ask :: "order \<Rightarrow> stl_book \<Rightarrow> stl_book" where
  "rest_ask ord b =
     (let it = next_node b; (queue, b) = push_back ord (level_at (price ord) (asks b)) b
      in b\<lparr>asks := omap_put (price_before Sell) (price ord) queue (asks b),
           order_index := AList.update (order_id ord)
             \<lparr>loc_side = Sell, loc_price = price ord, list_it = it\<rparr> (order_index b)\<rparr>)"

definition stl_submit_order ::
    "order \<Rightarrow> trade list \<Rightarrow> stl_book \<Rightarrow> (bool \<times> trade list \<times> stl_book) option" where
  "stl_submit_order ord out_trades b =
     (if initial_quantity ord = 0 then Some (False, out_trades, b)
      else
        let ord = (if remaining_quantity ord = 0
                   then ord\<lparr>remaining_quantity := initial_quantity ord\<rparr> else ord)
        in if otype ord = Limit \<and> price ord = 0 then Some (False, out_trades, b)
           else if map_of (order_index b) (order_id ord) \<noteq> None then Some (False, out_trades, b)
           else do {
             (ord, b, out_trades) \<leftarrow> (if side ord = Buy then match_buy ord b out_trades
                                     else match_sell ord b out_trades);
             Some (True, out_trades,
               if remaining_quantity ord > 0 \<and> otype ord = Limit
               then if side ord = Buy then rest_bid ord b else rest_ask ord b
               else b)
           })"

definition stl_cancel_order :: "order_id \<Rightarrow> stl_book \<Rightarrow> (bool \<times> stl_book) option" where
  "stl_cancel_order i b =
     (case map_of (order_index b) i of
        None \<Rightarrow> Some (False, b)
      | Some loc \<Rightarrow>
          do {
            b \<leftarrow> (if loc_side loc = Buy then
                    case map_of (bids b) (loc_price loc) of
                      None \<Rightarrow> Some b
                    | Some queue \<Rightarrow> do {
                        (queue, b) \<leftarrow> list_erase (list_it loc) queue b;
                        Some (b\<lparr>bids := if queue = [] then AList.delete (loc_price loc) (bids b)
                                else omap_put (price_before Buy) (loc_price loc) queue (bids b)\<rparr>)
                      }
                  else
                    case map_of (asks b) (loc_price loc) of
                      None \<Rightarrow> Some b
                    | Some queue \<Rightarrow> do {
                        (queue, b) \<leftarrow> list_erase (list_it loc) queue b;
                        Some (b\<lparr>asks := if queue = [] then AList.delete (loc_price loc) (asks b)
                                else omap_put (price_before Sell) (loc_price loc) queue (asks b)\<rparr>)
                      });
            Some (True, b\<lparr>order_index := AList.delete i (order_index b)\<rparr>)
          })"

section \<open>Queries and clearing\<close>

definition stl_has_order :: "order_id \<Rightarrow> stl_book \<Rightarrow> bool" where
  "stl_has_order i b \<longleftrightarrow> map_of (order_index b) i \<noteq> None"

definition stl_get_order :: "order_id \<Rightarrow> stl_book \<Rightarrow> order option option" where
  "stl_get_order i b =
     (case map_of (order_index b) i of
        None \<Rightarrow> Some None
      | Some loc \<Rightarrow> do { ord \<leftarrow> list_nodes b (list_it loc); Some (Some ord) })"

definition stl_best_bid :: "stl_book \<Rightarrow> price option" where
  "stl_best_bid b = (case bids b of [] \<Rightarrow> None | (p, _) # _ \<Rightarrow> Some p)"

definition stl_best_ask :: "stl_book \<Rightarrow> price option" where
  "stl_best_ask b = (case asks b of [] \<Rightarrow> None | (p, _) # _ \<Rightarrow> Some p)"

definition stl_total_orders :: "stl_book \<Rightarrow> nat" where
  "stl_total_orders b = length (order_index b)"

definition stl_bid_levels :: "stl_book \<Rightarrow> nat" where
  "stl_bid_levels b = length (bids b)"

definition stl_ask_levels :: "stl_book \<Rightarrow> nat" where
  "stl_ask_levels b = length (asks b)"

fun sum_remaining :: "quantity \<Rightarrow> addr list \<Rightarrow> (addr \<rightharpoonup> order) \<Rightarrow> quantity option" where
  "sum_remaining tot [] nodes = Some tot"
| "sum_remaining tot (a # queue) nodes =
     do { ord \<leftarrow> nodes a; sum_remaining (tot + remaining_quantity ord) queue nodes }"

definition stl_volume_at_price :: "side \<Rightarrow> price \<Rightarrow> stl_book \<Rightarrow> quantity option" where
  "stl_volume_at_price s p b =
     (if s = Buy then
        case map_of (bids b) p of None \<Rightarrow> Some 0 | Some queue \<Rightarrow> sum_remaining 0 queue (list_nodes b)
      else
        case map_of (asks b) p of None \<Rightarrow> Some 0 | Some queue \<Rightarrow> sum_remaining 0 queue (list_nodes b))"

definition stl_clear :: "stl_book \<Rightarrow> stl_book" where
  "stl_clear b = b\<lparr>bids := [], asks := [], order_index := [], list_nodes := Map.empty\<rparr>"

end
