(* ===== verification/Matching_Engine.thy ===== *)
theory Matching_Engine
  imports Price_Time_Book "HOL-Library.Monad_Syntax"
begin

text \<open>
  The interface between an engine and its clients. The locale \<open>matching_engine\<close> lists the
  operations a client calls and the laws they promise: each returns, keeps the invariant and
  acts on the abstraction as the price-time book does. \<open>room n b\<close> says that \<open>n\<close> more orders
  fit. The clients are the action loops of the benchmark and of the differential test, which
  the code writes against a template parameter \<^verbatim>\<open>Engine\<close>.
\<close>

section \<open>Actions\<close>

datatype action_type = NewOrder | CancelOrder

record order_action =
  action_type :: action_type
  act_order :: order
  act_cancel_id :: order_id

text \<open>The loop over the actions, with the results of the calls collected.\<close>

fun run_actions ::
    "(order \<Rightarrow> trade list \<Rightarrow> 'b \<Rightarrow> (bool \<times> trade list \<times> 'b) option)
      \<Rightarrow> (order_id \<Rightarrow> 'b \<Rightarrow> (bool \<times> 'b) option)
      \<Rightarrow> order_action list \<Rightarrow> trade list \<Rightarrow> 'b \<Rightarrow> (bool list \<times> trade list \<times> 'b) option" where
  "run_actions submit_order cancel_order [] trades engine = Some ([], trades, engine)"
| "run_actions submit_order cancel_order (act # actions) trades engine =
     do {
       (res, trades, engine) \<leftarrow>
         (if action_type act = NewOrder then submit_order (act_order act) trades engine
          else do { (res, engine) \<leftarrow> cancel_order (act_cancel_id act) engine;
                    Some (res, trades, engine) });
       (results, trades, engine) \<leftarrow> run_actions submit_order cancel_order actions trades engine;
       Some (res # results, trades, engine)
     }"

text \<open>
  The benchmark runs a prefix of the actions to warm up, clears the engine and runs all of
  them; of its statistics the number of trades and the orders left in the book do not depend
  on the clock.
\<close>

definition run_benchmark ::
    "(order \<Rightarrow> trade list \<Rightarrow> 'b \<Rightarrow> (bool \<times> trade list \<times> 'b) option)
      \<Rightarrow> (order_id \<Rightarrow> 'b \<Rightarrow> (bool \<times> 'b) option) \<Rightarrow> ('b \<Rightarrow> 'b) \<Rightarrow> ('b \<Rightarrow> nat)
      \<Rightarrow> order_action list \<Rightarrow> nat \<Rightarrow> 'b \<Rightarrow> (nat \<times> nat) option" where
  "run_benchmark submit_order cancel_order clear total_orders actions warmup_count engine =
     do {
       (_, _, engine) \<leftarrow> run_actions submit_order cancel_order
         (take (min warmup_count (length actions)) actions) [] engine;
       let engine = clear engine;
       (_, trades, engine) \<leftarrow> run_actions submit_order cancel_order actions [] engine;
       Some (length trades, total_orders engine)
     }"

fun lob_run :: "order_action list \<Rightarrow> lob \<Rightarrow> bool list \<times> trade list \<times> lob" where
  "lob_run [] bk = ([], [], bk)"
| "lob_run (act # actions) bk =
     (let (res, ts, bk) =
            (if action_type act = NewOrder then lob_submit (act_order act) bk
             else let (res, bk) = lob_cancel (act_cancel_id act) bk in (res, [], bk));
          (results, ts', bk) = lob_run actions bk
      in (res # results, ts @ ts', bk))"

lemma lob_run_inv: "lob_inv bk \<Longrightarrow> lob_run actions bk = (rs, ts, bk') \<Longrightarrow> lob_inv bk'"
proof (induction actions arbitrary: bk rs ts)
  case Nil
  then show ?case by simp
next
  case (Cons act actions)
  then show ?case
    by (auto simp: Let_def split: prod.splits if_splits)
      (metis lob_submit_inv, metis lob_cancel_inv)
qed

section \<open>The contract\<close>

locale matching_engine =
  fixes submit_order :: "order \<Rightarrow> trade list \<Rightarrow> 'b \<Rightarrow> (bool \<times> trade list \<times> 'b) option"
    and cancel_order :: "order_id \<Rightarrow> 'b \<Rightarrow> (bool \<times> 'b) option"
    and get_order :: "order_id \<Rightarrow> 'b \<Rightarrow> order option option"
    and clear :: "'b \<Rightarrow> 'b"
    and total_orders :: "'b \<Rightarrow> nat"
    and inv :: "'b \<Rightarrow> bool"
    and abs :: "'b \<Rightarrow> lob"
    and room :: "nat \<Rightarrow> 'b \<Rightarrow> bool"
  assumes inv_lob: "inv b \<Longrightarrow> lob_inv (abs b)"
    and submit_refines: "inv b \<Longrightarrow> room (Suc n) b \<Longrightarrow> lob_submit ord (abs b) = (ok, ts1, bk') \<Longrightarrow>
      \<exists>b'. submit_order ord ts b = Some (ok, ts @ ts1, b') \<and> inv b' \<and> room n b' \<and> abs b' = bk'"
    and cancel_refines: "inv b \<Longrightarrow> room n b \<Longrightarrow> lob_cancel i (abs b) = (ok, bk') \<Longrightarrow>
      \<exists>b'. cancel_order i b = Some (ok, b') \<and> inv b' \<and> room n b' \<and> abs b' = bk'"
    and get_refines: "inv b \<Longrightarrow> get_order i b = Some (lob_get i (abs b))"
    and clear_refines: "inv b \<Longrightarrow> inv (clear b) \<and> abs (clear b) = lob_empty"
    and clear_room: "inv b \<Longrightarrow> room n b \<Longrightarrow> room n (clear b)"
    and total_refines: "inv b \<Longrightarrow> total_orders b = length (lob_orders (abs b))"
    and room_mono: "room (Suc n) b \<Longrightarrow> room n b"
begin

lemma room_add: "room (n + m) b \<Longrightarrow> room n b"
  by (induction m) (auto intro: room_mono)

lemma room_le: "room n b \<Longrightarrow> m \<le> n \<Longrightarrow> room m b"
  using room_add [of m "n - m" b] by simp

text \<open>An action sequence on the engine is the same sequence on the price-time book.\<close>

lemma run_refines:
  assumes "inv b" "room (length actions + n) b" "lob_run actions (abs b) = (rs, ts1, bk')"
  shows "\<exists>b'. run_actions submit_order cancel_order actions ts b = Some (rs, ts @ ts1, b')
    \<and> inv b' \<and> room n b' \<and> abs b' = bk'"
  using assms
proof (induction actions arbitrary: b ts rs ts1)
  case Nil
  then show ?case by auto
next
  case (Cons act actions)
  have room: "room (Suc (length actions + n)) b" using Cons.prems(2) by simp
  show ?case
  proof (cases "action_type act = NewOrder")
    case True
    obtain res ts2 bk2 where s: "lob_submit (act_order act) (abs b) = (res, ts2, bk2)"
      by (cases "lob_submit (act_order act) (abs b)")
    obtain rs3 ts3 where r: "lob_run actions bk2 = (rs3, ts3, bk')" "rs = res # rs3" "ts1 = ts2 @ ts3"
      using Cons.prems(3) True s by (auto split: prod.splits)
    obtain b2 where b2: "submit_order (act_order act) ts b = Some (res, ts @ ts2, b2)"
      "inv b2" "room (length actions + n) b2" "abs b2 = bk2"
      using submit_refines [OF Cons.prems(1) room s] by blast
    obtain b' where "run_actions submit_order cancel_order actions (ts @ ts2) b2
      = Some (rs3, (ts @ ts2) @ ts3, b')" "inv b'" "room n b'" "abs b' = bk'"
      using Cons.IH [OF b2(2,3), of rs3 ts3 "ts @ ts2"] r(1) b2(4) by blast
    with True b2(1) r show ?thesis by simp
  next
    case False
    obtain res bk2 where s: "lob_cancel (act_cancel_id act) (abs b) = (res, bk2)"
      by (cases "lob_cancel (act_cancel_id act) (abs b)")
    obtain rs3 where r: "lob_run actions bk2 = (rs3, ts1, bk')" "rs = res # rs3"
      using Cons.prems(3) False s by (auto split: prod.splits)
    obtain b2 where b2: "cancel_order (act_cancel_id act) b = Some (res, b2)"
      "inv b2" "room (length actions + n) b2" "abs b2 = bk2"
      using cancel_refines [OF Cons.prems(1) room_mono [OF room] s] by blast
    obtain b' where "run_actions submit_order cancel_order actions ts b2
      = Some (rs3, ts @ ts1, b')" "inv b'" "room n b'" "abs b' = bk'"
      using Cons.IH [OF b2(2,3), of rs3 ts1 ts] r(1) b2(4) by blast
    with False b2(1) r show ?thesis by simp
  qed
qed

text \<open>The warm-up run leaves no trace in what the benchmark reports.\<close>

lemma benchmark_refines:
  assumes b: "inv b" "room (length actions + length actions) b"
    and run: "lob_run actions lob_empty = (rs, ts, bk)"
  shows "run_benchmark submit_order cancel_order clear total_orders actions warmup_count b
    = Some (length ts, length (lob_orders bk))"
proof -
  let ?warm = "take (min warmup_count (length actions)) actions"
  obtain rs1 ts1 bk1 where w: "lob_run ?warm (abs b) = (rs1, ts1, bk1)"
    by (cases "lob_run ?warm (abs b)")
  have "room (length ?warm + length actions) b"
    by (rule room_le [OF b(2)]) simp
  then obtain b1 where b1: "run_actions submit_order cancel_order ?warm [] b = Some (rs1, ts1, b1)"
    "inv b1" "room (length actions) b1"
    using run_refines [OF b(1) _ w, of "length actions" "[]"] by auto
  have "inv (clear b1)" "abs (clear b1) = lob_empty" "room (length actions + 0) (clear b1)"
    using clear_refines [OF b1(2)] clear_room [OF b1(2,3)] by simp_all
  then obtain b2 where "run_actions submit_order cancel_order actions [] (clear b1) = Some (rs, ts, b2)"
    "inv b2" "abs b2 = bk"
    using run_refines [of "clear b1" actions 0 rs ts bk "[]"] run by auto
  with b1(1) total_refines [of b2] show ?thesis
    by (simp add: run_benchmark_def)
qed

end

end
