(* ===== verification/Stl_Refinement.thy ===== *)
theory Stl_Refinement
  imports Stl_Order_Book Matching_Engine
begin

text \<open>
  The baseline engine implements the price-time book: the abstraction \<open>stl_abs\<close> reads the
  orders of each side off the levels, \<open>stl_inv\<close> is the invariant of the data structure, and
  every operation returns (no iterator dangles, no loop diverges), keeps the invariant and
  commutes with the abstraction.
\<close>

section \<open>Abstraction and invariant\<close>

fun levels_of :: "stl_book \<Rightarrow> side \<Rightarrow> addr alevels" where
  "levels_of b Buy = bids b"
| "levels_of b Sell = asks b"

fun set_levels :: "side \<Rightarrow> addr alevels \<Rightarrow> stl_book \<Rightarrow> stl_book" where
  "set_levels Buy lv b = b\<lparr>bids := lv\<rparr>"
| "set_levels Sell lv b = b\<lparr>asks := lv\<rparr>"

definition stl_abs :: "stl_book \<Rightarrow> lob" where
  "stl_abs b = (\<lambda>s. flat (resolve (list_nodes b) (levels_of b s)))"

definition live :: "stl_book \<Rightarrow> side \<Rightarrow> addr set" where
  "live b s = set (addrs (levels_of b s))"

definition index_addr :: "stl_book \<Rightarrow> order_id \<Rightarrow> addr option" where
  "index_addr b i = map_option list_it (map_of (order_index b) i)"

definition locations_ok :: "stl_book \<Rightarrow> bool" where
  "locations_ok b \<longleftrightarrow> distinct (map fst (order_index b))
     \<and> (\<forall>i loc ord. map_of (order_index b) i = Some loc \<longrightarrow> list_nodes b (list_it loc) = Some ord
          \<longrightarrow> loc_side loc = side ord \<and> loc_price loc = price ord)"

definition stl_wf :: "stl_book \<Rightarrow> bool" where
  "stl_wf b \<longleftrightarrow>
     (\<forall>s. levels_ok s (resolve (list_nodes b) (levels_of b s)) \<and> distinct (addrs (levels_of b s)))
     \<and> live b Buy \<inter> live b Sell = {}
     \<and> dom (list_nodes b) = live b Buy \<union> live b Sell
     \<and> index_ok (live b Buy \<union> live b Sell) (list_nodes b) (index_addr b)
     \<and> locations_ok b \<and> (\<forall>a \<in> dom (list_nodes b). a < next_node b)"

definition stl_inv :: "stl_book \<Rightarrow> bool" where
  "stl_inv b \<longleftrightarrow> stl_wf b \<and> lob_inv (stl_abs b)"

lemma stl_wf_side:
  "stl_wf b \<longleftrightarrow>
     levels_ok s (resolve (list_nodes b) (levels_of b s)) \<and> distinct (addrs (levels_of b s))
     \<and> levels_ok (opposite s) (resolve (list_nodes b) (levels_of b (opposite s)))
     \<and> distinct (addrs (levels_of b (opposite s)))
     \<and> live b s \<inter> live b (opposite s) = {}
     \<and> dom (list_nodes b) = live b s \<union> live b (opposite s)
     \<and> index_ok (live b s \<union> live b (opposite s)) (list_nodes b) (index_addr b)
     \<and> locations_ok b \<and> (\<forall>a \<in> dom (list_nodes b). a < next_node b)"
  unfolding stl_wf_def all_side by (cases s) (auto simp: Un_commute Int_commute)

lemma stl_abs_side: "stl_abs b s = flat (resolve (list_nodes b) (levels_of b s))"
  by (simp add: stl_abs_def)

lemma levels_of_set_levels [simp]:
  "levels_of (set_levels s lv b) s = lv"
  "s' \<noteq> s \<Longrightarrow> levels_of (set_levels s lv b) s' = levels_of b s'"
  "list_nodes (set_levels s lv b) = list_nodes b" "order_index (set_levels s lv b) = order_index b"
  "next_node (set_levels s lv b) = next_node b" "index_addr (set_levels s lv b) = index_addr b"
  by (cases s; cases s'; simp add: index_addr_def fun_eq_iff)+

lemma levels_of_updates [simp]:
  "levels_of (b\<lparr>list_nodes := h\<rparr>) s = levels_of b s"
  "levels_of (b\<lparr>order_index := ix\<rparr>) s = levels_of b s"
  "levels_of (b\<lparr>next_node := n\<rparr>) s = levels_of b s"
  by (cases s; simp)+

section \<open>How a book evolves during a match\<close>

text \<open>
  Nodes are only freed or have their remaining quantity changed, index entries only
  disappear.
\<close>

definition evolves :: "stl_book \<Rightarrow> stl_book \<Rightarrow> bool" where
  "evolves b b' \<longleftrightarrow> next_node b' = next_node b
     \<and> (\<forall>a ord'. list_nodes b' a = Some ord' \<longrightarrow>
          (\<exists>ord. list_nodes b a = Some ord \<and> side ord' = side ord \<and> price ord' = price ord))
     \<and> map_of (order_index b') \<subseteq>\<^sub>m map_of (order_index b)
     \<and> (distinct (map fst (order_index b)) \<longrightarrow> distinct (map fst (order_index b')))"

lemma evolves_refl [simp]: "evolves b b"
  by (simp add: evolves_def)

lemma evolves_trans: "evolves b b' \<Longrightarrow> evolves b' b'' \<Longrightarrow> evolves b b''"
  unfolding evolves_def by (auto intro: map_le_trans) metis+

lemma evolves_set_levels [simp]: "evolves b (set_levels s lv b') \<longleftrightarrow> evolves b b'"
  by (simp add: evolves_def)

lemma evolves_free:
  "evolves b (b\<lparr>order_index := AList.delete i (order_index b), list_nodes := (list_nodes b)(a := None)\<rparr>)"
  by (auto simp: evolves_def map_le_def distinct_delete)

lemma evolves_reduce:
  "list_nodes b a = Some ord \<Longrightarrow> evolves b (b\<lparr>list_nodes := (list_nodes b)(a \<mapsto> reduce ord q)\<rparr>)"
  by (auto simp: evolves_def)

lemma evolves_locations: "evolves b b' \<Longrightarrow> locations_ok b \<Longrightarrow> locations_ok b'"
  unfolding locations_ok_def
proof (intro conjI allI impI; (elim conjE)?)
  fix i loc ord'
  assume ev: "evolves b b'"
    and ok: "\<forall>i loc ord. map_of (order_index b) i = Some loc \<longrightarrow> list_nodes b (list_it loc) = Some ord
          \<longrightarrow> loc_side loc = side ord \<and> loc_price loc = price ord"
    and loc: "map_of (order_index b') i = Some loc" "list_nodes b' (list_it loc) = Some ord'"
  obtain ord where "list_nodes b (list_it loc) = Some ord" "side ord' = side ord" "price ord' = price ord"
    using ev loc(2) by (auto simp: evolves_def)
  moreover have "map_of (order_index b) i = Some loc"
    using ev loc(1) unfolding evolves_def map_le_def by (metis domI)
  ultimately show "loc_side loc = side ord'" "loc_price loc = price ord'"
    using ok by auto
qed (simp add: evolves_def)

section \<open>The inner loop\<close>

lemma index_addr_free:
  "index_addr (b\<lparr>order_index := AList.delete i (order_index b), list_nodes := h\<rparr>)
    = (index_addr b)(i := None)"
  by (simp add: index_addr_def fun_eq_iff)

lemma match_queue_sim:
  assumes "index_ok (set queue \<union> A) (list_nodes b) (index_addr b)"
    and "dom (list_nodes b) = set queue \<union> A" "distinct queue" "set queue \<inter> A = {}"
    and "lv_fill inc (map (\<lambda>a. the (list_nodes b a)) queue) = (ts1, inc', os')"
  shows "\<exists>queue' b'. match_queue (side inc) inc queue b ts = Some (inc', queue', b', ts @ ts1)
    \<and> suffix queue' queue \<and> os' = map (\<lambda>a. the (list_nodes b' a)) queue'
    \<and> index_ok (set queue' \<union> A) (list_nodes b') (index_addr b')
    \<and> dom (list_nodes b') = set queue' \<union> A \<and> (\<forall>a \<in> A. list_nodes b' a = list_nodes b a)
    \<and> (\<forall>s. levels_of b' s = levels_of b s) \<and> evolves b b'"
  using assms
proof (induction queue arbitrary: inc b ts ts1)
  case Nil
  then show ?case by auto
next
  case (Cons a queue)
  show ?case
  proof (cases "remaining_quantity inc = 0")
    case True
    with Cons.prems show ?thesis by (intro exI [of _ "a # queue"] exI [of _ b]) auto
  next
    case False
    obtain maker where maker: "list_nodes b a = Some maker"
      using Cons.prems(2) by (auto simp: dom_def)
    define q where "q = min (remaining_quantity inc) (remaining_quantity maker)"
    have ab: "a \<notin> set queue" "a \<notin> A" "distinct queue" "set queue \<inter> A = {}"
      using Cons.prems(3,4) by auto
    show ?thesis
    proof (cases "is_filled (reduce maker q)")
      case filled: True
      define b1 where "b1 = b\<lparr>order_index := AList.delete (order_id maker) (order_index b),
        list_nodes := (list_nodes b)(a := None)\<rparr>"
      obtain ts2 where ts1: "ts1 = make_trade inc maker q # ts2"
        and fill: "lv_fill (reduce inc q) (map (\<lambda>a. the (list_nodes b a)) queue) = (ts2, inc', os')"
        using Cons.prems(5) False filled maker by (auto simp: q_def Let_def split: prod.splits)
      have same: "map (\<lambda>a. the (list_nodes b1 a)) queue = map (\<lambda>a. the (list_nodes b a)) queue"
        using ab by (auto simp: b1_def)
      have "index_ok (set (a # queue) \<union> A - {a}) (list_nodes b1) (index_addr b1)"
        unfolding b1_def index_addr_free
        by (rule index_ok_remove [OF Cons.prems(1) _ maker]) auto
      moreover have A: "set (a # queue) \<union> A - {a} = set queue \<union> A"
        using ab by auto
      moreover have "dom (list_nodes b1) = set queue \<union> A"
        using Cons.prems(2) A by (auto simp: b1_def)
      ultimately obtain queue' b' where
        "match_queue (side inc) (reduce inc q) queue b1 (ts @ [make_trade inc maker q])
          = Some (inc', queue', b', ts @ ts1)"
        and r: "suffix queue' queue" "os' = map (\<lambda>a. the (list_nodes b' a)) queue'"
          "index_ok (set queue' \<union> A) (list_nodes b') (index_addr b')"
          "dom (list_nodes b') = set queue' \<union> A" "\<forall>a \<in> A. list_nodes b' a = list_nodes b1 a"
          "\<forall>s. levels_of b' s = levels_of b1 s" "evolves b1 b'"
        using Cons.IH [of b1 "reduce inc q" ts2 "ts @ [make_trade inc maker q]"] ab fill
        unfolding same ts1 by auto
      then have run: "match_queue (side inc) inc (a # queue) b ts = Some (inc', queue', b', ts @ ts1)"
        using False filled maker by (simp add: match_queue_Cons b1_def q_def Let_def)
      have "evolves b b'"
        using evolves_trans [OF evolves_free r(7) [unfolded b1_def]] .
      with run r ab show ?thesis
        by (intro exI [of _ queue'] exI [of _ b']) (auto simp: b1_def suffix_Cons)
    next
      case part: False
      define b1 where "b1 = b\<lparr>list_nodes := (list_nodes b)(a \<mapsto> reduce maker q)\<rparr>"
      have r: "ts1 = [make_trade inc maker q]" "inc' = reduce inc q"
        "os' = reduce maker q # map (\<lambda>a. the (list_nodes b a)) queue"
        using Cons.prems(5) False part maker by (auto simp: q_def Let_def)
      have run: "match_queue (side inc) inc (a # queue) b ts = Some (inc', a # queue, b1, ts @ ts1)"
        using False part maker r by (simp add: match_queue_Cons b1_def q_def Let_def)
      have "index_ok (set (a # queue) \<union> A) (list_nodes b1) (index_addr b)"
        unfolding b1_def
        by (rule index_ok_update [OF Cons.prems(1) maker, where ord' = "reduce maker q"]) auto
      moreover have "index_addr b1 = index_addr b"
        by (simp add: b1_def index_addr_def fun_eq_iff)
      moreover have "dom (list_nodes b1) = set (a # queue) \<union> A" "evolves b b1"
        "\<forall>x \<in> A. list_nodes b1 x = list_nodes b x" "\<forall>s. levels_of b1 s = levels_of b s"
        "os' = map (\<lambda>x. the (list_nodes b1 x)) (a # queue)"
        using ab Cons.prems(2) r(3) evolves_reduce [OF maker, of q] by (auto simp: b1_def)
      ultimately show ?thesis
        using run by (intro exI [of _ "a # queue"] exI [of _ b1]) simp
    qed
  qed
qed

section \<open>The outer loop\<close>

text \<open>
  \<^verbatim>\<open>match_buy\<close> and \<^verbatim>\<open>match_sell\<close> are one loop over the opposite side; the
  locale states that shape as the equation both satisfy, and proves the loop once.
\<close>

locale matching_loop =
  fixes loop :: "order \<Rightarrow> stl_book \<Rightarrow> trade list \<Rightarrow> (order \<times> stl_book \<times> trade list) option"
    and s :: side
  assumes loop_eq: "side inc = opposite s \<Longrightarrow> loop inc b ts =
    (case levels_of b s of
       [] \<Rightarrow> Some (inc, b, ts)
     | (p, queue) # others \<Rightarrow>
         if remaining_quantity inc = 0 \<or> \<not> crosses inc p then Some (inc, b, ts)
         else do {
           (inc, queue, b, ts) \<leftarrow> match_queue (side inc) inc queue b ts;
           loop inc (set_levels s (if queue = [] then others else (p, queue) # others) b) ts
         })"
begin

lemma loop_stop:
  assumes "side inc = opposite s" "remaining_quantity inc = 0 \<or> levels_of b s = []
    \<or> \<not> crosses inc (fst (hd (levels_of b s)))"
  shows "loop inc b ts = Some (inc, b, ts)"
  using assms by (subst loop_eq) (auto split: list.split)

lemma loop_sim:
  assumes "levels_of b s = lv" "side inc = opposite s" "levels_ok s (resolve (list_nodes b) lv)"
    and "index_ok (set (addrs lv) \<union> A) (list_nodes b) (index_addr b)"
    and "dom (list_nodes b) = set (addrs lv) \<union> A" "distinct (addrs lv)" "set (addrs lv) \<inter> A = {}"
    and "lv_match inc (resolve (list_nodes b) lv) = (ts1, inc', lvs')"
  shows "\<exists>b'. loop inc b ts = Some (inc', b', ts @ ts1)
    \<and> resolve (list_nodes b') (levels_of b' s) = lvs'
    \<and> levels_of b' (opposite s) = levels_of b (opposite s)
    \<and> index_ok (live b' s \<union> A) (list_nodes b') (index_addr b')
    \<and> dom (list_nodes b') = live b' s \<union> A \<and> distinct (addrs (levels_of b' s))
    \<and> live b' s \<subseteq> set (addrs lv) \<and> (\<forall>a \<in> A. list_nodes b' a = list_nodes b a) \<and> evolves b b'"
  using assms
proof (induction lv arbitrary: inc b ts ts1 inc' lvs')
  case Nil
  then show ?case by (intro exI [of _ b]) (auto simp: loop_stop live_def)
next
  case (Cons l others)
  obtain p queue where l: "l = (p, queue)" by (cases l)
  note lvls = Cons.prems(1) [unfolded l]
  show ?case
  proof (cases "remaining_quantity inc = 0 \<or> \<not> crosses inc p")
    case True
    then have "loop inc b ts = Some (inc, b, ts)"
      using lvls Cons.prems(2) by (intro loop_stop) auto
    with True Cons.prems l show ?thesis by (intro exI [of _ b]) (auto simp: live_def)
  next
    case False
    let ?h = "list_nodes b"
    let ?B = "set (addrs others) \<union> A"
    obtain ts2 inc1 os1 where fill: "lv_fill inc (map (\<lambda>a. the (?h a)) queue) = (ts2, inc1, os1)"
      by (cases "lv_fill inc (map (\<lambda>a. the (?h a)) queue)")
    have price: "\<forall>ord \<in> set (map (\<lambda>a. the (?h a)) queue). price ord = p"
      using Cons.prems(3) l by auto
    have side1: "side inc1 = opposite s"
      using lv_fill_levels(4) [OF fill price] False Cons.prems(2) by simp
    have pre: "index_ok (set queue \<union> ?B) ?h (index_addr b)" "dom ?h = set queue \<union> ?B"
      "distinct queue" "set queue \<inter> ?B = {}"
      using Cons.prems(4-7) l by (auto simp: Un_assoc)
    obtain queue' b1 where
      run: "match_queue (side inc) inc queue b ts = Some (inc1, queue', b1, ts @ ts2)"
      and q': "suffix queue' queue" "os1 = map (\<lambda>a. the (list_nodes b1 a)) queue'"
      and b1: "index_ok (set queue' \<union> ?B) (list_nodes b1) (index_addr b1)"
        "dom (list_nodes b1) = set queue' \<union> ?B" "\<forall>a \<in> ?B. list_nodes b1 a = ?h a"
        "\<forall>s. levels_of b1 s = levels_of b s" "evolves b b1"
      using match_queue_sim [OF pre fill, of ts] by blast
    have rest: "resolve (list_nodes b1) others = resolve ?h others"
      by (rule resolve_cong) (use b1(3) in auto)
    have q'_facts: "set queue' \<subseteq> set queue" "distinct queue'"
      using q'(1) pre(3) by (auto simp: suffix_def)
    show ?thesis
    proof (cases "os1 = []")
      case True
      then have "queue' = []" using q'(2) by simp
      define b2 where "b2 = set_levels s others b1"
      obtain ts3 where m: "lv_match inc1 (resolve ?h others) = (ts3, inc', lvs')"
        and ts1: "ts1 = ts2 @ ts3"
        using Cons.prems(8) l False fill True by (auto split: prod.splits)
      have "\<exists>b'. loop inc1 b2 (ts @ ts2) = Some (inc', b', (ts @ ts2) @ ts3)
        \<and> resolve (list_nodes b') (levels_of b' s) = lvs'
        \<and> levels_of b' (opposite s) = levels_of b2 (opposite s)
        \<and> index_ok (live b' s \<union> A) (list_nodes b') (index_addr b')
        \<and> dom (list_nodes b') = live b' s \<union> A \<and> distinct (addrs (levels_of b' s))
        \<and> live b' s \<subseteq> set (addrs others) \<and> (\<forall>a \<in> A. list_nodes b' a = list_nodes b2 a)
        \<and> evolves b2 b'"
        using b1 side1 Cons.prems(3,6,7) l m rest \<open>queue' = []\<close>
        by (intro Cons.IH) (auto simp: b2_def)
      moreover have "loop inc b ts = loop inc1 b2 (ts @ ts2)"
        using False lvls run \<open>queue' = []\<close> Cons.prems(2) by (subst loop_eq) (auto simp: b2_def)
      moreover have "evolves b b2" "\<forall>a \<in> A. list_nodes b2 a = ?h a"
        "levels_of b2 (opposite s) = levels_of b (opposite s)"
        using b1 by (simp_all add: b2_def)
      ultimately show ?thesis
        using l ts1 evolves_trans [of b b2] by fastforce
    next
      case part: False
      then have "queue' \<noteq> []" using q'(2) by simp
      define b2 where "b2 = set_levels s ((p, queue') # others) b1"
      have zero: "remaining_quantity inc1 = 0"
        using match_queue_done [OF run] \<open>queue' \<noteq> []\<close> by (simp add: word_pos_iff)
      have res: "ts1 = ts2" "inc' = inc1" "lvs' = (p, os1) # resolve ?h others"
        using Cons.prems(8) l False fill part by (auto split: prod.splits)
      have "loop inc b ts = loop inc1 b2 (ts @ ts2)"
        using False lvls run \<open>queue' \<noteq> []\<close> Cons.prems(2) by (subst loop_eq) (auto simp: b2_def)
      also have "\<dots> = Some (inc1, b2, ts @ ts2)"
        by (rule loop_stop) (use side1 zero in auto)
      finally have run2: "loop inc b ts = Some (inc', b2, ts @ ts1)"
        using res by simp
      have "live b2 s = set queue' \<union> set (addrs others)"
        by (simp add: live_def b2_def)
      moreover have "distinct (addrs (levels_of b2 s))"
        using q'_facts Cons.prems(6) l by (auto simp: b2_def)
      ultimately show ?thesis
        using run2 b1 q' q'_facts res rest l
        by (intro exI [of _ b2]) (auto simp: b2_def Un_assoc)
    qed
  qed
qed

lemma loop_wf:
  assumes wf: "stl_wf b" and side: "side inc = opposite s"
    and m: "lob_match inc (stl_abs b s) = (ts1, inc', rest)"
  shows "\<exists>b'. loop inc b ts = Some (inc', b', ts @ ts1) \<and> stl_wf b'
    \<and> stl_abs b' = (stl_abs b)(s := rest)"
proof -
  let ?h = "list_nodes b" and ?lv = "levels_of b s" and ?A = "live b (opposite s)"
  note wf' = wf [unfolded stl_wf_side [of b s]]
  obtain ts2 inc2 lvs2 where lm: "lv_match inc (resolve ?h ?lv) = (ts2, inc2, lvs2)"
    by (cases "lv_match inc (resolve ?h ?lv)")
  have ok: "levels_ok s (resolve ?h ?lv)" using wf' by simp
  note fl = lv_match_flat [OF ok lm]
  have eqs: "ts2 = ts1" "inc2 = inc'" "flat lvs2 = rest"
    using fl(1) m by (simp_all add: stl_abs_side)
  have pre: "index_ok (set (addrs ?lv) \<union> ?A) ?h (index_addr b)" "dom ?h = set (addrs ?lv) \<union> ?A"
    "distinct (addrs ?lv)" "set (addrs ?lv) \<inter> ?A = {}"
    using wf' by (simp_all add: live_def)
  obtain b' where run: "loop inc b ts = Some (inc2, b', ts @ ts2)"
    and lvs: "resolve (list_nodes b') (levels_of b' s) = lvs2"
      "levels_of b' (opposite s) = levels_of b (opposite s)"
    and ix: "index_ok (live b' s \<union> ?A) (list_nodes b') (index_addr b')"
      "dom (list_nodes b') = live b' s \<union> ?A" "distinct (addrs (levels_of b' s))"
      "live b' s \<subseteq> set (addrs ?lv)" "\<forall>a \<in> ?A. list_nodes b' a = ?h a"
    and ev: "evolves b b'"
    using loop_sim [OF refl side ok pre lm, of ts] by blast
  have A: "live b' (opposite s) = ?A" by (simp add: live_def lvs)
  have opp: "resolve (list_nodes b') (levels_of b (opposite s)) = resolve ?h (levels_of b (opposite s))"
    by (rule resolve_cong) (use ix(5) in \<open>auto simp: live_def\<close>)
  have "stl_wf b'"
    unfolding stl_wf_side [of b' s] A lvs opp
  proof (intro conjI)
    show "levels_ok s lvs2" by (rule fl(2))
    show "locations_ok b'" using evolves_locations [OF ev] wf' by blast
    show "live b' s \<inter> ?A = {}" using ix(4) pre(4) by blast
    have "next_node b' = next_node b" "dom (list_nodes b') \<subseteq> dom ?h"
      using ev by (auto simp: evolves_def)
    then show "\<forall>a \<in> dom (list_nodes b'). a < next_node b'" using wf' by auto
  qed (use wf' ix in simp_all)
  moreover have "stl_abs b' = (stl_abs b)(s := rest)"
    by (rule lob_eqI [of _ s]) (simp_all add: stl_abs_side lvs opp eqs)
  ultimately show ?thesis using run eqs by auto
qed

end

interpretation buying: matching_loop match_buy Sell
proof
  fix inc :: order and b ts
  assume "side inc = opposite Sell"
  then show "match_buy inc b ts =
    (case levels_of b Sell of
       [] \<Rightarrow> Some (inc, b, ts)
     | (p, queue) # others \<Rightarrow>
         if remaining_quantity inc = 0 \<or> \<not> crosses inc p then Some (inc, b, ts)
         else do {
           (inc, queue, b, ts) \<leftarrow> match_queue (side inc) inc queue b ts;
           match_buy inc (set_levels Sell (if queue = [] then others else (p, queue) # others) b) ts
         })"
    by (subst match_buy.simps)
      (auto simp: crosses_def word_pos_iff split: list.split intro!: Option.bind_cong)
qed

interpretation selling: matching_loop match_sell Buy
proof
  fix inc :: order and b ts
  assume "side inc = opposite Buy"
  then show "match_sell inc b ts =
    (case levels_of b Buy of
       [] \<Rightarrow> Some (inc, b, ts)
     | (p, queue) # others \<Rightarrow>
         if remaining_quantity inc = 0 \<or> \<not> crosses inc p then Some (inc, b, ts)
         else do {
           (inc, queue, b, ts) \<leftarrow> match_queue (side inc) inc queue b ts;
           match_sell inc (set_levels Buy (if queue = [] then others else (p, queue) # others) b) ts
         })"
    by (subst match_sell.simps)
      (auto simp: crosses_def word_pos_iff split: list.split intro!: Option.bind_cong)
qed

section \<open>Resting an order\<close>

text \<open>Resting a bid and resting an ask are the same operation on the two sides.\<close>

definition rest_on :: "side \<Rightarrow> order \<Rightarrow> stl_book \<Rightarrow> stl_book" where
  "rest_on s ord b =
     set_levels s (omap_put (price_before s) (price ord)
         (level_at (price ord) (levels_of b s) @ [next_node b]) (levels_of b s))
       (b\<lparr>list_nodes := (list_nodes b)(next_node b \<mapsto> ord), next_node := Suc (next_node b),
          order_index := AList.update (order_id ord)
            \<lparr>loc_side = s, loc_price = price ord, list_it = next_node b\<rparr> (order_index b)\<rparr>)"

lemma rest_bid_on: "rest_bid ord b = rest_on Buy ord b"
  by (simp add: rest_bid_def rest_on_def push_back_def)

lemma rest_ask_on: "rest_ask ord b = rest_on Sell ord b"
  by (simp add: rest_ask_def rest_on_def push_back_def)

lemma rest_on_wf:
  assumes wf: "stl_wf b" and side: "side ord = s" and new: "index_addr b (order_id ord) = None"
  shows "stl_wf (rest_on s ord b)"
    "stl_abs (rest_on s ord b) = (stl_abs b)(s := lob_insert ord (stl_abs b s))"
proof -
  let ?h = "list_nodes b" and ?lv = "levels_of b s" and ?a = "next_node b" and ?b = "rest_on s ord b"
  let ?h' = "?h(?a \<mapsto> ord)"
  note wf' = wf [unfolded stl_wf_side [of b s]]
  have fresh: "?a \<notin> dom ?h" using wf' by blast
  then have fresh': "?a \<notin> live b s" "?a \<notin> live b (opposite s)" using wf' by auto
  have ok: "levels_ok s (resolve ?h ?lv)" using wf' by simp
  obtain l1 l2 where l: "addrs ?lv = l1 @ l2" "addrs (levels_of ?b s) = l1 @ ?a # l2"
    using append_level [OF levels_ok_omap_sorted [OF ok], of "price ord" ?a]
    by (auto simp: rest_on_def)
  have nodes: "list_nodes ?b = ?h'" "levels_of ?b (opposite s) = levels_of b (opposite s)"
    "next_node ?b = Suc ?a"
    by (simp_all add: rest_on_def)
  have res: "resolve ?h' (levels_of ?b s) = lv_rest s ord (resolve ?h ?lv)"
    unfolding rest_on_def levels_of_set_levels using fresh'
    by (intro resolve_append) (auto simp: live_def)
  have opp: "resolve ?h' (levels_of b (opposite s)) = resolve ?h (levels_of b (opposite s))"
    by (rule resolve_cong) (use fresh' in \<open>auto simp: live_def\<close>)
  have live: "live ?b s = insert ?a (live b s)" "live ?b (opposite s) = live b (opposite s)"
    using l by (auto simp: live_def nodes)
  have ixb: "index_addr ?b = (index_addr b)(order_id ord \<mapsto> ?a)"
    by (simp add: rest_on_def index_addr_def fun_eq_iff)
  have "index_ok (insert ?a (live b s \<union> live b (opposite s))) ?h' (index_addr ?b)"
    unfolding ixb
  proof (rule index_ok_insert [where h = ?h])
    show "index_ok (live b s \<union> live b (opposite s)) ?h (index_addr b)" using wf' by simp
  qed (use fresh' new in auto)
  moreover have "locations_ok ?b"
  proof -
    have none: "map_of (order_index b) (order_id ord) = None"
      using new by (simp add: index_addr_def)
    have "list_it loc \<noteq> ?a" if "map_of (order_index b) i = Some loc" for i loc
    proof -
      have "index_addr b i = Some (list_it loc)" by (simp add: index_addr_def that)
      moreover have "index_ok (live b s \<union> live b (opposite s)) ?h (index_addr b)"
        using wf' by (elim conjE)
      ultimately have "list_it loc \<in> live b s \<union> live b (opposite s)"
        by (blast elim: index_ok_lookup)
      with fresh' show ?thesis by auto
    qed
    then show ?thesis
      using wf' side none by (auto simp: locations_ok_def rest_on_def distinct_update)
  qed
  moreover have "distinct (addrs (levels_of ?b s))"
    using wf' l fresh' by (auto simp: live_def)
  ultimately show "stl_wf ?b"
    using wf' fresh' lv_rest_correct(2) [OF ok side] res opp
    unfolding stl_wf_side [of ?b s] nodes live by (auto simp: less_Suc_eq)
  show "stl_abs ?b = (stl_abs b)(s := lob_insert ord (stl_abs b s))"
    using lv_rest_correct(1) [OF ok side]
    by (intro lob_eqI [of _ s]) (simp_all add: stl_abs_side nodes res opp)
qed

section \<open>Submitting\<close>

lemma stl_orders:
  "lob_orders (stl_abs b) = map (\<lambda>a. the (list_nodes b a)) (addrs (bids b) @ addrs (asks b))"
  by (simp add: lob_orders_def stl_abs_def flat_resolve)

lemma stl_index_ok:
  "stl_wf b \<Longrightarrow> index_ok (set (addrs (bids b) @ addrs (asks b))) (list_nodes b) (index_addr b)"
  by (simp add: stl_wf_def live_def)

lemma stl_ids:
  assumes "stl_wf b"
  shows "i \<in> lob_ids (stl_abs b) \<longleftrightarrow> map_of (order_index b) i \<noteq> None"
proof -
  have "lob_ids (stl_abs b) = dom (index_addr b)"
    using index_ok_ids [OF stl_index_ok [OF assms]] by (simp add: lob_ids_def stl_orders)
  then show ?thesis by (auto simp: index_addr_def)
qed

lemma stl_match_wf:
  assumes "stl_wf b" "lob_match inc (stl_abs b (opposite (side inc))) = (ts1, inc', rest)"
  shows "\<exists>b'. (if side inc = Buy then match_buy inc b ts else match_sell inc b ts)
      = Some (inc', b', ts @ ts1)
    \<and> stl_wf b' \<and> stl_abs b' = (stl_abs b)(opposite (side inc) := rest)"
proof (cases "side inc")
  case Buy
  with assms buying.loop_wf [of b inc ts1 inc' rest ts] show ?thesis by simp
next
  case Sell
  with assms selling.loop_wf [of b inc ts1 inc' rest ts] show ?thesis by simp
qed

lemma stl_settle_wf:
  assumes wf: "stl_wf b" and new: "order_id ord \<notin> lob_ids (stl_abs b)"
  shows "stl_wf (if remaining_quantity ord > 0 \<and> otype ord = Limit
      then if side ord = Buy then rest_bid ord b else rest_ask ord b else b)"
    "stl_abs (if remaining_quantity ord > 0 \<and> otype ord = Limit
      then if side ord = Buy then rest_bid ord b else rest_ask ord b else b)
      = lob_settle ord (stl_abs b)"
proof -
  have "index_addr b (order_id ord) = None"
    using new stl_ids [OF wf] by (simp add: index_addr_def)
  note r = rest_on_wf [OF wf refl this]
  have "(if side ord = Buy then rest_bid ord b else rest_ask ord b) = rest_on (side ord) ord b"
    by (cases "side ord") (simp_all add: rest_bid_on rest_ask_on)
  then show "stl_wf (if remaining_quantity ord > 0 \<and> otype ord = Limit
      then if side ord = Buy then rest_bid ord b else rest_ask ord b else b)"
    "stl_abs (if remaining_quantity ord > 0 \<and> otype ord = Limit
      then if side ord = Buy then rest_bid ord b else rest_ask ord b else b)
      = lob_settle ord (stl_abs b)"
    using r wf by (simp_all add: lob_settle_def word_pos_iff)
qed

lemma stl_submit_unfold:
  assumes "stl_wf b"
  shows "stl_submit_order ord ts b =
    (if \<not> acceptable ord \<or> order_id ord \<in> lob_ids (stl_abs b) then Some (False, ts, b)
     else do {
       (ord, b, ts) \<leftarrow> (if side (normalise ord) = Buy then match_buy (normalise ord) b ts
                       else match_sell (normalise ord) b ts);
       Some (True, ts, if remaining_quantity ord > 0 \<and> otype ord = Limit
         then if side ord = Buy then rest_bid ord b else rest_ask ord b else b)
     })"
  unfolding stl_submit_order_def stl_ids [OF assms] acceptable_def Let_def
    normalise_def [symmetric] by (simp add: normalise_sel)

lemma stl_submit_refines:
  assumes inv: "stl_inv b" and lob: "lob_submit ord (stl_abs b) = (ok, ts1, bk')"
  shows "\<exists>b'. stl_submit_order ord ts b = Some (ok, ts @ ts1, b') \<and> stl_inv b' \<and> stl_abs b' = bk'"
proof -
  have wf: "stl_wf b" and linv: "lob_inv (stl_abs b)" using inv by (simp_all add: stl_inv_def)
  note bk_inv = lob_submit_inv [OF linv lob]
  show ?thesis
  proof (cases "acceptable ord \<and> order_id ord \<notin> lob_ids (stl_abs b)")
    case False
    with lob inv show ?thesis
      by (auto simp: stl_submit_unfold [OF wf] lob_submit_def)
  next
    case True
    let ?opp = "opposite (side ord)"
    obtain ord' rest where m: "lob_match (normalise ord) (stl_abs b ?opp) = (ts1, ord', rest)"
      and res: "ok" "bk' = lob_settle ord' ((stl_abs b)(?opp := rest))"
      using lob True by (auto simp: lob_submit_def Let_def split: prod.splits)
    have "lob_match (normalise ord) (stl_abs b (opposite (side (normalise ord)))) = (ts1, ord', rest)"
      using m by simp
    then obtain b1 where run: "(if side (normalise ord) = Buy then match_buy (normalise ord) b ts
        else match_sell (normalise ord) b ts) = Some (ord', b1, ts @ ts1)"
      and b1: "stl_wf b1" "stl_abs b1 = (stl_abs b)(?opp := rest)"
      using stl_match_wf [OF wf, of "normalise ord" ts1 ord' rest ts] by auto
    have "order_id ` set rest \<subseteq> order_id ` set (stl_abs b ?opp)"
      by (rule lob_match_rest [OF m]) (metis list.set_map set_mono_suffix)
    then have new: "order_id ord' \<notin> lob_ids (stl_abs b1)"
      using True lob_match_frame_sel(1) [OF m] b1(2)
      by (auto simp: lob_ids_side [of _ "side ord"])
    define b2 where "b2 = (if remaining_quantity ord' > 0 \<and> otype ord' = Limit
         then if side ord' = Buy then rest_bid ord' b1 else rest_ask ord' b1 else b1)"
    have b2: "stl_wf b2" "stl_abs b2 = bk'"
      using stl_settle_wf [OF b1(1) new] unfolding b2_def res(2) b1(2) by blast+
    have "stl_submit_order ord ts b = Some (ok, ts @ ts1, b2)"
      unfolding stl_submit_unfold [OF wf] run b2_def using True res(1) by simp
    with b2 bk_inv show ?thesis by (auto simp: stl_inv_def)
  qed
qed

section \<open>Cancelling\<close>

text \<open>What a successful cancel does to the book, on either side.\<close>

definition remove_on :: "side \<Rightarrow> price \<Rightarrow> addr \<Rightarrow> addr list \<Rightarrow> order_id \<Rightarrow> stl_book \<Rightarrow> stl_book" where
  "remove_on s p a q i b = set_levels s (drop_addr s p a q (levels_of b s))
    (b\<lparr>order_index := AList.delete i (order_index b), list_nodes := (list_nodes b)(a := None)\<rparr>)"

lemma stl_cancel_on:
  assumes "map_of (order_index b) i = Some loc" "loc_side loc = s" "loc_price loc = p"
    "list_it loc = a" "map_of (levels_of b s) p = Some q" "a \<in> set q"
  shows "stl_cancel_order i b = Some (True, remove_on s p a q i b)"
  using assms
  by (cases s) (simp_all add: stl_cancel_order_def remove_on_def list_erase_def drop_addr_def)

lemma remove_on_sel [simp]:
  "levels_of (remove_on s p a q i b) s = drop_addr s p a q (levels_of b s)"
  "levels_of (remove_on s p a q i b) (opposite s) = levels_of b (opposite s)"
  "list_nodes (remove_on s p a q i b) = (list_nodes b)(a := None)"
  "next_node (remove_on s p a q i b) = next_node b"
  "order_index (remove_on s p a q i b) = AList.delete i (order_index b)"
  "index_addr (remove_on s p a q i b) = (index_addr b)(i := None)"
  by (simp_all add: remove_on_def index_addr_def fun_eq_iff)

lemma stl_wf_inj:
  assumes "stl_wf b" "a \<in> live b s" "c \<in> live b s \<union> live b (opposite s)"
    "order_id (the (list_nodes b c)) = order_id (the (list_nodes b a))"
  shows "c = a"
proof -
  have "index_ok (live b s \<union> live b (opposite s)) (list_nodes b) (index_addr b)"
    using assms(1) unfolding stl_wf_side [of b s] by (elim conjE)
  then show ?thesis
    by (rule index_ok_inj) (use assms(2-4) in auto)
qed

lemma remove_on_levels:
  assumes wf: "stl_wf b" and q: "map_of (levels_of b s) p = Some q" "a \<in> set q"
    and id: "order_id (the (list_nodes b a)) = i"
  shows "a \<in> live b s" "a \<notin> live b (opposite s)"
    "addrs (levels_of (remove_on s p a q i b) s) = remove1 a (addrs (levels_of b s))"
    "resolve (list_nodes (remove_on s p a q i b)) (levels_of (remove_on s p a q i b) s)
      = lv_drop s p i (resolve (list_nodes b) (levels_of b s))"
    "resolve (list_nodes (remove_on s p a q i b)) (levels_of b (opposite s))
      = resolve (list_nodes b) (levels_of b (opposite s))"
proof -
  let ?b = "remove_on s p a q i b" and ?h = "list_nodes b" and ?lv = "levels_of b s"
  note wf' = wf [unfolded stl_wf_side [of b s]]
  have set_q: "set q \<subseteq> live b s" using set_addrs_map_of [OF q(1)] by (simp add: live_def)
  with q(2) show live_a: "a \<in> live b s" by blast
  have disj: "live b s \<inter> live b (opposite s) = {}" using wf' by (elim conjE)
  with live_a show a_opp: "a \<notin> live b (opposite s)" by blast
  have lok: "levels_ok s (resolve ?h ?lv)" and dist: "distinct (addrs ?lv)" using wf' by simp_all
  show addrs': "addrs (levels_of ?b s) = remove1 a (addrs ?lv)"
    using addrs_drop [OF levels_ok_omap_sorted [OF lok] q dist] by simp
  have "distinct q" using dist addrs_split [OF q(1)] by (metis distinct_append)
  moreover have "c = a" if "c \<in> set q" "order_id (the (?h c)) = i" for c
    using stl_wf_inj [OF wf live_a, of c] that set_q id by auto
  ultimately have "resolve ?h (levels_of ?b s) = lv_drop s p i (resolve ?h ?lv)"
    unfolding remove_on_sel using id by (intro resolve_drop [OF q(1) _ q(2)]) auto
  moreover have "resolve (list_nodes ?b) (levels_of ?b s) = resolve ?h (levels_of ?b s)"
    by (rule resolve_cong) (use dist in \<open>auto simp: addrs' simp del: remove_on_sel(1)\<close>)
  ultimately show "resolve (list_nodes ?b) (levels_of ?b s) = lv_drop s p i (resolve ?h ?lv)"
    by simp
  show "resolve (list_nodes ?b) (levels_of b (opposite s)) = resolve ?h (levels_of b (opposite s))"
    by (rule resolve_cong) (use a_opp in \<open>auto simp: live_def\<close>)
qed

lemma remove_on_correct:
  assumes wf: "stl_wf b" and q: "map_of (levels_of b s) p = Some q" "a \<in> set q"
    and ord: "list_nodes b a = Some ord" "order_id ord = i" "price ord = p"
  shows "stl_wf (remove_on s p a q i b)"
    "stl_abs (remove_on s p a q i b) = (\<lambda>s. filter (\<lambda>ord. order_id ord \<noteq> i) (stl_abs b s))"
proof -
  let ?b = "remove_on s p a q i b" and ?h = "list_nodes b" and ?lv = "levels_of b s"
  have id: "order_id (the (?h a)) = i" using ord by simp
  note r = remove_on_levels [OF wf q id]
  note wf' = wf [unfolded stl_wf_side [of b s]]
  have lok: "levels_ok s (resolve ?h ?lv)" and dist: "distinct (addrs ?lv)" using wf' by simp_all
  have uniq: "c = a" if "c \<in> live b s \<union> live b (opposite s)" "order_id (the (?h c)) = i" for c
    using stl_wf_inj [OF wf r(1) that(1)] that(2) id by simp
  have only: "price x = p" if x: "x \<in> set (flat (resolve ?h ?lv))" "order_id x = i" for x
  proof -
    obtain c where c: "c \<in> live b s" "x = the (?h c)"
      using x(1) by (auto simp: flat_resolve live_def)
    then have "c = a" using uniq x(2) by auto
    with c ord show ?thesis by simp
  qed
  note dropped = lv_drop_correct [OF lok only]
  have "order_id x \<noteq> i" if x: "x \<in> set (stl_abs b (opposite s))" for x
  proof -
    obtain c where c: "c \<in> live b (opposite s)" "x = the (?h c)"
      using x by (auto simp: stl_abs_side flat_resolve live_def)
    then have "c \<noteq> a" using r(2) by auto
    with uniq [of c] c show ?thesis by auto
  qed
  then have opp: "filter (\<lambda>ord. order_id ord \<noteq> i) (stl_abs b (opposite s)) = stl_abs b (opposite s)"
    by (intro filter_True ballI)
  show "stl_abs ?b = (\<lambda>s. filter (\<lambda>ord. order_id ord \<noteq> i) (stl_abs b s))"
  proof (rule lob_eqI [of _ s])
    show "stl_abs ?b s = filter (\<lambda>ord. order_id ord \<noteq> i) (stl_abs b s)"
      unfolding stl_abs_side r(4) by (rule dropped(1))
    show "stl_abs ?b (opposite s) = filter (\<lambda>ord. order_id ord \<noteq> i) (stl_abs b (opposite s))"
      unfolding opp unfolding stl_abs_side remove_on_sel(2) r(5) ..
  qed
  have live': "live ?b s = live b s - {a}" "live ?b (opposite s) = live b (opposite s)"
    using dist by (simp_all add: live_def r(3) del: remove_on_sel(1))
  have "index_ok (live b s \<union> live b (opposite s) - {a}) (list_nodes ?b)
      ((index_addr b)(order_id ord := None))"
    by (rule index_ok_remove [of _ ?h]) (use wf' r(1) ord(1) in auto)
  moreover have "live b s \<union> live b (opposite s) - {a} = live ?b s \<union> live ?b (opposite s)"
    using r(2) live' by auto
  moreover have "index_addr ?b = (index_addr b)(order_id ord := None)"
    by (simp add: ord(2))
  ultimately have ix': "index_ok (live ?b s \<union> live ?b (opposite s)) (list_nodes ?b) (index_addr ?b)"
    by simp
  have loc': "locations_ok ?b"
    using wf' by (auto simp: locations_ok_def distinct_delete)
  have "distinct (addrs (levels_of ?b s))"
    unfolding r(3) using dist by simp
  then show "stl_wf ?b"
    unfolding stl_wf_side [of ?b s] r(4) remove_on_sel(2) r(5)
    using wf' ix' loc' dropped(2) live' r(2) by (intro conjI) auto
qed

text \<open>An indexed order stands in the level its location names.\<close>

lemma stl_locate:
  assumes inv: "stl_inv b" and loc: "map_of (order_index b) i = Some loc"
  obtains ord q where "list_nodes b (list_it loc) = Some ord" "order_id ord = i"
    "list_it loc \<in> live b (loc_side loc)"
    "map_of (levels_of b (loc_side loc)) (loc_price loc) = Some q" "list_it loc \<in> set q"
proof -
  let ?a = "list_it loc"
  have wf: "stl_wf b" and linv: "lob_inv (stl_abs b)" using inv by (simp_all add: stl_inv_def)
  have "index_addr b i = Some ?a" using loc by (simp add: index_addr_def)
  moreover have "index_ok (live b Buy \<union> live b Sell) (list_nodes b) (index_addr b)"
    using wf by (simp add: stl_wf_def)
  ultimately obtain ord where ord: "?a \<in> live b Buy \<union> live b Sell" "list_nodes b ?a = Some ord"
    "order_id ord = i" by (blast elim: index_ok_lookup)
  have lo: "loc_side loc = side ord" "loc_price loc = price ord"
    using wf loc ord(2) by (auto simp: stl_wf_def locations_ok_def)
  obtain s where s: "?a \<in> live b s" using ord(1) by blast
  then have "ord \<in> set (stl_abs b s)"
    using ord(2) by (force simp: stl_abs_side flat_resolve live_def)
  then have "side ord = s"
    using linv unfolding lob_inv_def resting_ok_def by blast
  with lo s have live: "?a \<in> live b (loc_side loc)" by simp
  obtain p q where pq: "(p, q) \<in> set (levels_of b (loc_side loc))" "?a \<in> set q"
    using live by (auto simp: live_def addrs_def)
  have ok: "levels_ok (loc_side loc) (resolve (list_nodes b) (levels_of b (loc_side loc)))"
    using wf by (simp add: stl_wf_def)
  have "(p, map (\<lambda>a. the (list_nodes b a)) q)
      \<in> set (resolve (list_nodes b) (levels_of b (loc_side loc)))"
    using pq(1) by (force simp: resolve_def)
  then have "price ord = p"
    using ok pq(2) ord(2) by (fastforce simp: levels_ok_def)
  moreover have "map_of (levels_of b (loc_side loc)) p = Some q"
    using lv.sorted_map_of [OF levels_ok_omap_sorted [OF ok] pq(1)] .
  ultimately show ?thesis
    by (intro that [OF ord(2,3) live _ pq(2)]) (simp add: lo)
qed

lemma stl_cancel_refines:
  assumes inv: "stl_inv b" and lob: "lob_cancel i (stl_abs b) = (ok, bk')"
  shows "\<exists>b'. stl_cancel_order i b = Some (ok, b') \<and> stl_inv b' \<and> stl_abs b' = bk'"
proof -
  have wf: "stl_wf b" and linv: "lob_inv (stl_abs b)" using inv by (simp_all add: stl_inv_def)
  have bk': "bk' = (\<lambda>s. filter (\<lambda>ord. order_id ord \<noteq> i) (stl_abs b s))"
    and ok: "ok \<longleftrightarrow> map_of (order_index b) i \<noteq> None"
    using lob stl_ids [OF wf] by (auto simp: lob_cancel_def)
  show ?thesis
  proof (cases "map_of (order_index b) i")
    case None
    then have "i \<notin> lob_ids (stl_abs b)" using stl_ids [OF wf] by simp
    then have "bk' = stl_abs b"
      by (intro lob_eqI [of _ Buy]) (auto simp: bk' lob_ids_side [of _ Buy])
    with None ok inv show ?thesis by (auto simp: stl_cancel_order_def)
  next
    case (Some loc)
    obtain ord q where ord: "list_nodes b (list_it loc) = Some ord" "order_id ord = i"
      and q: "map_of (levels_of b (loc_side loc)) (loc_price loc) = Some q" "list_it loc \<in> set q"
      by (rule stl_locate [OF inv Some])
    have "price ord = loc_price loc"
      using wf Some ord(1) by (simp add: stl_wf_def locations_ok_def)
    note r = remove_on_correct [OF wf q ord this]
    have "lob_inv bk'" using lob_cancel_inv [OF linv lob] .
    with r bk' ok Some stl_cancel_on [OF Some refl refl refl q] show ?thesis
      by (auto simp: stl_inv_def)
  qed
qed

section \<open>Queries\<close>

lemma stl_has_order_correct: "stl_inv b \<Longrightarrow> stl_has_order i b \<longleftrightarrow> i \<in> lob_ids (stl_abs b)"
  by (simp add: stl_has_order_def stl_inv_def stl_ids)

lemma stl_get_order_correct:
  assumes "stl_inv b"
  shows "stl_get_order i b = Some (lob_get i (stl_abs b))"
proof -
  have wf: "stl_wf b" using assms by (simp add: stl_inv_def)
  note find = index_ok_find [OF stl_index_ok [OF wf], of i]
  show ?thesis
  proof (cases "map_of (order_index b) i")
    case None
    with find show ?thesis by (simp add: stl_get_order_def lob_get_def stl_orders index_addr_def)
  next
    case (Some loc)
    obtain ord where "list_nodes b (list_it loc) = Some ord"
      by (rule stl_locate [OF assms Some])
    with Some find show ?thesis
      by (simp add: stl_get_order_def lob_get_def stl_orders index_addr_def)
  qed
qed

lemma stl_levels_ok: "stl_inv b \<Longrightarrow> levels_ok s (resolve (list_nodes b) (levels_of b s))"
  by (simp add: stl_inv_def stl_wf_def)

lemma stl_best_correct:
  assumes "stl_inv b"
  shows "stl_best_bid b = lob_best Buy (stl_abs b)" "stl_best_ask b = lob_best Sell (stl_abs b)"
proof -
  have "lob_best s (stl_abs b) = (case levels_of b s of [] \<Rightarrow> None | (p, _) # _ \<Rightarrow> Some p)" for s
    using best_flat [OF stl_levels_ok [OF assms, of s]]
    by (auto simp: lob_best_def stl_abs_side resolve_def split: list.split)
  from this [of Buy] this [of Sell]
  show "stl_best_bid b = lob_best Buy (stl_abs b)" "stl_best_ask b = lob_best Sell (stl_abs b)"
    by (simp_all add: stl_best_bid_def stl_best_ask_def)
qed

lemma stl_level_counts:
  assumes "stl_inv b"
  shows "stl_bid_levels b = card (price ` set (stl_abs b Buy))"
    "stl_ask_levels b = card (price ` set (stl_abs b Sell))"
  using level_count_flat [OF stl_levels_ok [OF assms, of Buy]]
    level_count_flat [OF stl_levels_ok [OF assms, of Sell]]
  by (simp_all add: stl_bid_levels_def stl_ask_levels_def stl_abs_side)

lemma stl_total_correct:
  assumes "stl_inv b"
  shows "stl_total_orders b = length (lob_orders (stl_abs b))"
proof -
  have wf: "stl_wf b" using assms by (simp add: stl_inv_def)
  have d: "distinct (addrs (bids b) @ addrs (asks b))"
    using wf by (simp add: stl_wf_def all_side live_def)
  have "dom (index_addr b) = order_id ` set (lob_orders (stl_abs b))"
    using index_ok_ids [OF stl_index_ok [OF wf]] by (simp add: stl_orders)
  moreover have "distinct (map order_id (lob_orders (stl_abs b)))"
    using index_ok_distinct_ids [OF stl_index_ok [OF wf] d] by (simp add: stl_orders)
  ultimately have "card (dom (index_addr b)) = length (lob_orders (stl_abs b))"
    by (metis distinct_card length_map list.set_map)
  moreover have "dom (index_addr b) = dom (map_of (order_index b))"
    by (auto simp: index_addr_def)
  moreover have "card (dom (map_of (order_index b))) = length (order_index b)"
    using wf by (intro card_dom_map_of) (simp add: stl_wf_def locations_ok_def)
  ultimately show ?thesis by (simp add: stl_total_orders_def)
qed

lemma sum_remaining_correct:
  "set q \<subseteq> dom nodes \<Longrightarrow>
   sum_remaining tot q nodes
     = Some (tot + sum_list (map (\<lambda>a. remaining_quantity (the (nodes a))) q))"
  by (induction q arbitrary: tot) (auto simp: add.assoc)

lemma stl_volume_correct:
  assumes "stl_inv b"
  shows "stl_volume_at_price s p b = Some (lob_volume s p (stl_abs b))"
proof -
  have "lob_volume s p (stl_abs b)
      = sum_list (map (\<lambda>a. remaining_quantity (the (list_nodes b a))) (level_at p (levels_of b s)))"
    using level_at_flat [OF stl_levels_ok [OF assms, of s], of p]
    by (simp add: lob_volume_def stl_abs_side level_at_resolve comp_def)
  moreover have "live b s \<subseteq> dom (list_nodes b)"
    using assms by (cases s) (auto simp: stl_inv_def stl_wf_def)
  then have "set (level_at p (levels_of b s)) \<subseteq> dom (list_nodes b)"
    using level_at_subset [of p "levels_of b s"] by (auto simp: live_def)
  ultimately show ?thesis
    using sum_remaining_correct [of "level_at p (levels_of b s)" "list_nodes b" 0]
    by (cases s) (auto simp: stl_volume_at_price_def level_at_def split: option.split)
qed

lemma stl_empty_correct [simp]: "stl_inv stl_empty" "stl_abs stl_empty = lob_empty"
proof -
  show abs: "stl_abs stl_empty = lob_empty"
    by (rule lob_eqI [of _ Buy]) (simp_all add: stl_abs_side stl_empty_def)
  show "stl_inv stl_empty"
    unfolding stl_inv_def abs
    by (simp add: stl_wf_def all_side live_def)
      (simp add: stl_empty_def index_ok_def locations_ok_def index_addr_def)
qed

lemma stl_clear_correct: "stl_inv (stl_clear b)" "stl_abs (stl_clear b) = lob_empty"
proof -
  show abs: "stl_abs (stl_clear b) = lob_empty"
    by (rule lob_eqI [of _ Buy]) (simp_all add: stl_abs_side stl_clear_def)
  show "stl_inv (stl_clear b)"
    unfolding stl_inv_def abs
    by (simp add: stl_wf_def all_side live_def)
      (simp add: stl_clear_def index_ok_def locations_ok_def index_addr_def)
qed

section \<open>The engine contract\<close>

interpretation stl: matching_engine stl_submit_order stl_cancel_order stl_get_order stl_clear
  stl_total_orders stl_inv stl_abs "\<lambda>_ _. True"
proof
  show "lob_inv (stl_abs b)" if "stl_inv b" for b
    using that by (simp add: stl_inv_def)
  show "\<exists>b'. stl_submit_order ord ts b = Some (ok, ts @ ts1, b') \<and> stl_inv b' \<and> True \<and> stl_abs b' = bk'"
    if "stl_inv b" "lob_submit ord (stl_abs b) = (ok, ts1, bk')" for b ord ts ok ts1 bk'
    using stl_submit_refines [OF that] by simp
  show "\<exists>b'. stl_cancel_order i b = Some (ok, b') \<and> stl_inv b' \<and> True \<and> stl_abs b' = bk'"
    if "stl_inv b" "lob_cancel i (stl_abs b) = (ok, bk')" for b i ok bk'
    using stl_cancel_refines [OF that] by simp
qed (simp_all add: stl_get_order_correct stl_clear_correct stl_total_correct)

end
