(* ===== verification/Pool_Order_Book.thy ===== *)
theory Pool_Order_Book
  imports Order_Store "HOL-Library.Monad_Syntax"
begin

text \<open>
  The second engine, \<^verbatim>\<open>PoolOrderBook\<close>: all orders live in one vector of nodes, linked by
  32-bit indices. A price level holds the head and tail index of its doubly linked queue; free
  slots form a singly linked list through \<^verbatim>\<open>next_idx\<close>. Every access \<^verbatim>\<open>nodes_[i]\<close>
  is checked: an index outside the vector has no defined behaviour in C++ and is \<open>None\<close> here.
  The matching loops follow links, so nothing but the invariant makes them end; they are
  \<^theory_text>\<open>partial_function\<close>s, for which not returning is \<open>None\<close> as well.
\<close>

section \<open>State\<close>

type_synonym idx = u32

definition INVALID_IDX :: idx where
  "INVALID_IDX = 0xFFFFFFFF"

record order_node =
  node_order :: order
  prev_idx :: idx
  next_idx :: idx

record price_level =
  level_price :: price
  total_volume :: quantity
  order_count :: u32
  head_idx :: idx
  tail_idx :: idx

record pool_book =
  nodes :: "order_node list"
  free_head :: idx
  pool_index :: "(order_id \<times> idx) list"
  pool_bids :: "(price \<times> price_level) list"
  pool_asks :: "(price \<times> price_level) list"

definition default_node :: order_node where
  "default_node = \<lparr>node_order = default_order, prev_idx = INVALID_IDX, next_idx = INVALID_IDX\<rparr>"

definition default_level :: price_level where
  "default_level = \<lparr>level_price = 0, total_volume = 0, order_count = 0,
     head_idx = INVALID_IDX, tail_idx = INVALID_IDX\<rparr>"

definition level_empty :: "price_level \<Rightarrow> bool" where
  "level_empty level \<longleftrightarrow> head_idx level = INVALID_IDX"

text \<open>Checked vector access: \<^verbatim>\<open>nodes_[i]\<close> read and updated in place.\<close>

definition node_at :: "idx \<Rightarrow> pool_book \<Rightarrow> order_node option" where
  "node_at i b = (if unat i < length (nodes b) then Some (nodes b ! unat i) else None)"

definition set_node :: "idx \<Rightarrow> (order_node \<Rightarrow> order_node) \<Rightarrow> pool_book \<Rightarrow> pool_book option" where
  "set_node i f b =
     (if unat i < length (nodes b)
      then Some (b\<lparr>nodes := (nodes b)[unat i := f (nodes b ! unat i)]\<rparr>) else None)"

section \<open>Construction and slots\<close>

text \<open>
  The loop that threads slots \<open>from \<dots> n - 1\<close> into a free list: every slot points to the next
  one and the last one to nothing. \<open>word_of_nat\<close> is \<^verbatim>\<open>static_cast<uint32_t>\<close>.
\<close>

definition link_free :: "nat \<Rightarrow> order_node list \<Rightarrow> order_node list" where
  "link_free from ns =
     take from ns @
     map (\<lambda>i. (ns ! i)\<lparr>prev_idx := INVALID_IDX,
                       next_idx := (if i + 1 < length ns then word_of_nat (i + 1) else INVALID_IDX)\<rparr>)
       [from..<length ns]"

definition pool_new :: "nat \<Rightarrow> pool_book" where
  "pool_new initial_capacity =
     \<lparr>nodes = link_free 0 (replicate initial_capacity default_node),
      free_head = (if initial_capacity > 0 then 0 else INVALID_IDX),
      pool_index = [], pool_bids = [], pool_asks = []\<rparr>"

text \<open>Growing an exhausted pool: 1024 slots at first, then twice the size.\<close>

definition grow :: "pool_book \<Rightarrow> pool_book" where
  "grow b =
     (let old_size = length (nodes b);
          new_size = (if old_size = 0 then 1024 else old_size * 2)
      in b\<lparr>nodes := link_free old_size (nodes b @ replicate (new_size - old_size) default_node),
           free_head := word_of_nat old_size\<rparr>)"

definition allocate_node :: "order \<Rightarrow> pool_book \<Rightarrow> (idx \<times> pool_book) option" where
  "allocate_node ord b =
     (let b = (if free_head b = INVALID_IDX then grow b else b);
          idx = free_head b
      in do {
        n \<leftarrow> node_at idx b;
        let b = b\<lparr>free_head := next_idx n\<rparr>;
        b \<leftarrow> set_node idx (\<lambda>n. n\<lparr>node_order := ord, prev_idx := INVALID_IDX,
                                 next_idx := INVALID_IDX\<rparr>) b;
        Some (idx, b)
      })"

definition free_node :: "idx \<Rightarrow> pool_book \<Rightarrow> pool_book option" where
  "free_node idx b =
     do {
       b' \<leftarrow> set_node idx (\<lambda>n. n\<lparr>prev_idx := INVALID_IDX, next_idx := free_head b\<rparr>) b;
       Some (b'\<lparr>free_head := idx\<rparr>)
     }"

section \<open>Queues\<close>

definition append_to_level ::
    "price_level \<Rightarrow> idx \<Rightarrow> pool_book \<Rightarrow> (price_level \<times> pool_book) option" where
  "append_to_level level node_idx b =
     do {
       b \<leftarrow> set_node node_idx (\<lambda>n. n\<lparr>prev_idx := tail_idx level, next_idx := INVALID_IDX\<rparr>) b;
       (level, b) \<leftarrow>
         (if tail_idx level \<noteq> INVALID_IDX
          then do { b \<leftarrow> set_node (tail_idx level) (\<lambda>n. n\<lparr>next_idx := node_idx\<rparr>) b;
                    Some (level, b) }
          else Some (level\<lparr>head_idx := node_idx\<rparr>, b));
       n \<leftarrow> node_at node_idx b;
       Some (level\<lparr>tail_idx := node_idx,
                   total_volume := total_volume level + remaining_quantity (node_order n),
                   order_count := order_count level + 1\<rparr>, b)
     }"

definition remove_from_level ::
    "price_level \<Rightarrow> idx \<Rightarrow> pool_book \<Rightarrow> (price_level \<times> pool_book) option" where
  "remove_from_level level node_idx b =
     do {
       n0 \<leftarrow> node_at node_idx b;
       let p = prev_idx n0;
       let n = next_idx n0;
       (level, b) \<leftarrow>
         (if p \<noteq> INVALID_IDX
          then do { b \<leftarrow> set_node p (\<lambda>m. m\<lparr>next_idx := n\<rparr>) b; Some (level, b) }
          else Some (level\<lparr>head_idx := n\<rparr>, b));
       (level, b) \<leftarrow>
         (if n \<noteq> INVALID_IDX
          then do { b \<leftarrow> set_node n (\<lambda>m. m\<lparr>prev_idx := p\<rparr>) b; Some (level, b) }
          else Some (level\<lparr>tail_idx := p\<rparr>, b));
       m \<leftarrow> node_at node_idx b;
       Some (level\<lparr>total_volume := total_volume level - remaining_quantity (node_order m),
                   order_count := order_count level - 1\<rparr>, b)
     }"

section \<open>Matching\<close>

text \<open>The inner loop; the two copies in the source differ in the aggressor side only.\<close>

partial_function (option) pool_match_level ::
    "side \<Rightarrow> order \<Rightarrow> price_level \<Rightarrow> pool_book \<Rightarrow> trade list
      \<Rightarrow> (order \<times> price_level \<times> pool_book \<times> trade list) option" where
  "pool_match_level agg incoming level b out_trades =
     (if head_idx level \<noteq> INVALID_IDX \<and> remaining_quantity incoming > 0 then
        do {
          maker_node \<leftarrow> node_at (head_idx level) b;
          let maker_idx = head_idx level;
          let maker = node_order maker_node;
          let match_qty = min (remaining_quantity incoming) (remaining_quantity maker);
          let trade = \<lparr>maker_order_id = order_id maker, taker_order_id = order_id incoming,
            trade_price = price maker, trade_quantity = match_qty,
            trade_timestamp = timestamp incoming, aggressor_side = agg\<rparr>;
          let maker = maker\<lparr>remaining_quantity := remaining_quantity maker - match_qty\<rparr>;
          b \<leftarrow> set_node maker_idx (\<lambda>n. n\<lparr>node_order := maker\<rparr>) b;
          let incoming = incoming\<lparr>remaining_quantity := remaining_quantity incoming - match_qty\<rparr>;
          if is_filled maker then
            do {
              let b = b\<lparr>pool_index := AList.delete (order_id maker) (pool_index b)\<rparr>;
              (level, b) \<leftarrow> remove_from_level level maker_idx b;
              b \<leftarrow> free_node maker_idx b;
              pool_match_level agg incoming level b (out_trades @ [trade])
            }
          else pool_match_level agg incoming level b (out_trades @ [trade])
        }
      else Some (incoming, level, b, out_trades))"

partial_function (option) pool_match_buy ::
    "order \<Rightarrow> pool_book \<Rightarrow> trade list \<Rightarrow> (order \<times> pool_book \<times> trade list) option" where
  "pool_match_buy incoming_buy b out_trades =
     (case pool_asks b of
        [] \<Rightarrow> Some (incoming_buy, b, out_trades)
      | (key, level) # others \<Rightarrow>
          if remaining_quantity incoming_buy > 0 then
            if otype incoming_buy = Limit \<and> price incoming_buy < level_price level
            then Some (incoming_buy, b, out_trades)
            else do {
              (incoming_buy, level, b, out_trades) \<leftarrow>
                pool_match_level Buy incoming_buy level b out_trades;
              pool_match_buy incoming_buy
                (b\<lparr>pool_asks := if level_empty level then others else (key, level) # others\<rparr>)
                out_trades
            }
          else Some (incoming_buy, b, out_trades))"

partial_function (option) pool_match_sell ::
    "order \<Rightarrow> pool_book \<Rightarrow> trade list \<Rightarrow> (order \<times> pool_book \<times> trade list) option" where
  "pool_match_sell incoming_sell b out_trades =
     (case pool_bids b of
        [] \<Rightarrow> Some (incoming_sell, b, out_trades)
      | (key, level) # others \<Rightarrow>
          if remaining_quantity incoming_sell > 0 then
            if otype incoming_sell = Limit \<and> price incoming_sell > level_price level
            then Some (incoming_sell, b, out_trades)
            else do {
              (incoming_sell, level, b, out_trades) \<leftarrow>
                pool_match_level Sell incoming_sell level b out_trades;
              pool_match_sell incoming_sell
                (b\<lparr>pool_bids := if level_empty level then others else (key, level) # others\<rparr>)
                out_trades
            }
          else Some (incoming_sell, b, out_trades))"

declare pool_match_level.simps [code] pool_match_buy.simps [code] pool_match_sell.simps [code]

section \<open>Submitting and cancelling\<close>

definition pool_rest_bid :: "order \<Rightarrow> idx \<Rightarrow> pool_book \<Rightarrow> pool_book option" where
  "pool_rest_bid ord node_idx b =
     do {
       let level = (case map_of (pool_bids b) (price ord) of None \<Rightarrow> default_level | Some l \<Rightarrow> l);
       (level, b) \<leftarrow> append_to_level (level\<lparr>level_price := price ord\<rparr>) node_idx b;
       Some (b\<lparr>pool_bids := omap_put (price_before Buy) (price ord) level (pool_bids b)\<rparr>)
     }"

definition pool_rest_ask :: "order \<Rightarrow> idx \<Rightarrow> pool_book \<Rightarrow> pool_book option" where
  "pool_rest_ask ord node_idx b =
     do {
       let level = (case map_of (pool_asks b) (price ord) of None \<Rightarrow> default_level | Some l \<Rightarrow> l);
       (level, b) \<leftarrow> append_to_level (level\<lparr>level_price := price ord\<rparr>) node_idx b;
       Some (b\<lparr>pool_asks := omap_put (price_before Sell) (price ord) level (pool_asks b)\<rparr>)
     }"

definition pool_submit_order ::
    "order \<Rightarrow> trade list \<Rightarrow> pool_book \<Rightarrow> (bool \<times> trade list \<times> pool_book) option" where
  "pool_submit_order ord out_trades b =
     (if initial_quantity ord = 0 then Some (False, out_trades, b)
      else
        let ord = (if remaining_quantity ord = 0
                   then ord\<lparr>remaining_quantity := initial_quantity ord\<rparr> else ord)
        in if otype ord = Limit \<and> price ord = 0 then Some (False, out_trades, b)
           else if map_of (pool_index b) (order_id ord) \<noteq> None then Some (False, out_trades, b)
           else do {
             (ord, b, out_trades) \<leftarrow> (if side ord = Buy then pool_match_buy ord b out_trades
                                     else pool_match_sell ord b out_trades);
             if remaining_quantity ord > 0 \<and> otype ord = Limit then
               do {
                 (node_idx, b) \<leftarrow> allocate_node ord b;
                 let b = b\<lparr>pool_index := AList.update (order_id ord) node_idx (pool_index b)\<rparr>;
                 b \<leftarrow> (if side ord = Buy then pool_rest_bid ord node_idx b
                       else pool_rest_ask ord node_idx b);
                 Some (True, out_trades, b)
               }
             else Some (True, out_trades, b)
           })"

definition pool_cancel_order :: "order_id \<Rightarrow> pool_book \<Rightarrow> (bool \<times> pool_book) option" where
  "pool_cancel_order i b =
     (case map_of (pool_index b) i of
        None \<Rightarrow> Some (False, b)
      | Some node_idx \<Rightarrow>
          do {
            n \<leftarrow> node_at node_idx b;
            let ord = node_order n;
            b \<leftarrow> (if side ord = Buy then
                    case map_of (pool_bids b) (price ord) of
                      None \<Rightarrow> Some b
                    | Some level \<Rightarrow> do {
                        (level, b) \<leftarrow> remove_from_level level node_idx b;
                        Some (b\<lparr>pool_bids := if level_empty level
                                then AList.delete (price ord) (pool_bids b)
                                else omap_put (price_before Buy) (price ord) level (pool_bids b)\<rparr>)
                      }
                  else
                    case map_of (pool_asks b) (price ord) of
                      None \<Rightarrow> Some b
                    | Some level \<Rightarrow> do {
                        (level, b) \<leftarrow> remove_from_level level node_idx b;
                        Some (b\<lparr>pool_asks := if level_empty level
                                then AList.delete (price ord) (pool_asks b)
                                else omap_put (price_before Sell) (price ord) level (pool_asks b)\<rparr>)
                      });
            b \<leftarrow> free_node node_idx b;
            Some (True, b\<lparr>pool_index := AList.delete i (pool_index b)\<rparr>)
          })"

section \<open>Queries and clearing\<close>

definition pool_has_order :: "order_id \<Rightarrow> pool_book \<Rightarrow> bool" where
  "pool_has_order i b \<longleftrightarrow> map_of (pool_index b) i \<noteq> None"

definition pool_get_order :: "order_id \<Rightarrow> pool_book \<Rightarrow> order option option" where
  "pool_get_order i b =
     (case map_of (pool_index b) i of
        None \<Rightarrow> Some None
      | Some node_idx \<Rightarrow> do { n \<leftarrow> node_at node_idx b; Some (Some (node_order n)) })"

definition pool_best_bid :: "pool_book \<Rightarrow> price option" where
  "pool_best_bid b = (case pool_bids b of [] \<Rightarrow> None | (p, _) # _ \<Rightarrow> Some p)"

definition pool_best_ask :: "pool_book \<Rightarrow> price option" where
  "pool_best_ask b = (case pool_asks b of [] \<Rightarrow> None | (p, _) # _ \<Rightarrow> Some p)"

definition pool_total_orders :: "pool_book \<Rightarrow> nat" where
  "pool_total_orders b = length (pool_index b)"

definition pool_bid_levels :: "pool_book \<Rightarrow> nat" where
  "pool_bid_levels b = length (pool_bids b)"

definition pool_ask_levels :: "pool_book \<Rightarrow> nat" where
  "pool_ask_levels b = length (pool_asks b)"

definition pool_volume_at_price :: "side \<Rightarrow> price \<Rightarrow> pool_book \<Rightarrow> quantity" where
  "pool_volume_at_price s p b =
     (if s = Buy then
        case map_of (pool_bids b) p of Some level \<Rightarrow> total_volume level | None \<Rightarrow> 0
      else
        case map_of (pool_asks b) p of Some level \<Rightarrow> total_volume level | None \<Rightarrow> 0)"

definition pool_clear :: "pool_book \<Rightarrow> pool_book" where
  "pool_clear b = b\<lparr>pool_bids := [], pool_asks := [], pool_index := [],
     nodes := link_free 0 (nodes b), free_head := (if length (nodes b) > 0 then 0 else INVALID_IDX)\<rparr>"

definition pool_capacity :: "pool_book \<Rightarrow> nat" where
  "pool_capacity b = length (nodes b)"

end
