(* ===== verification/Pool_Links.thy ===== *)
theory Pool_Links
  imports Pool_Order_Book
begin

text \<open>
  The links of the node pool: doubly linked segments for the queues of the levels, the singly
  linked free list, and what the four primitive operations (allocate, free, append, remove) do
  to them. \<open>links_frame\<close> says which nodes an operation may relink.
\<close>

section \<open>Node access\<close>

definition heap :: "pool_book \<Rightarrow> idx \<Rightarrow> order option" where
  "heap b i = map_option node_order (node_at i b)"

definition slots :: "pool_book \<Rightarrow> idx set" where
  "slots b = {i. unat i < length (nodes b)}"

lemma node_at_defined: "i \<in> slots b \<longleftrightarrow> (\<exists>n. node_at i b = Some n)"
  by (simp add: slots_def node_at_def)

lemma node_at_cong [simp]:
  "node_at i (b\<lparr>free_head := f\<rparr>) = node_at i b"
  "node_at i (b\<lparr>pool_index := ix\<rparr>) = node_at i b"
  "node_at i (b\<lparr>pool_bids := lv\<rparr>) = node_at i b"
  "node_at i (b\<lparr>pool_asks := lv\<rparr>) = node_at i b"
  by (simp_all add: node_at_def)

lemma dom_heap: "dom (heap b) = slots b"
  by (auto simp: heap_def node_at_defined dom_def)

text \<open>One node rewritten, everything else as it was.\<close>

definition upd :: "idx \<Rightarrow> (order_node \<Rightarrow> order_node) \<Rightarrow> pool_book \<Rightarrow> pool_book" where
  "upd i f b = b\<lparr>nodes := (nodes b)[unat i := f (nodes b ! unat i)]\<rparr>"

lemma set_node_upd: "i \<in> slots b \<Longrightarrow> set_node i f b = Some (upd i f b)"
  by (simp add: set_node_def slots_def upd_def)

lemma upd_sel [simp]:
  "free_head (upd i f b) = free_head b" "pool_index (upd i f b) = pool_index b"
  "pool_bids (upd i f b) = pool_bids b" "pool_asks (upd i f b) = pool_asks b"
  "length (nodes (upd i f b)) = length (nodes b)" "slots (upd i f b) = slots b"
  by (simp_all add: upd_def slots_def)

lemma node_at_upd:
  "node_at j (upd i f b) = (if j = i then map_option f (node_at j b) else node_at j b)"
proof (cases "j = i")
  case False
  then have "unat j \<noteq> unat i" by (simp add: word_unat_eq_iff)
  with False show ?thesis by (simp add: node_at_def upd_def nth_list_update)
qed (simp add: node_at_def upd_def)

lemma node_at_upd_neq [simp]: "j \<noteq> i \<Longrightarrow> node_at j (upd i f b) = node_at j b"
  by (simp add: node_at_upd)

lemma node_at_upd_eq [simp]: "node_at i (upd i f b) = map_option f (node_at i b)"
  by (simp add: node_at_upd)

lemma heap_upd_links:
  "(\<And>n. node_order (f n) = node_order n) \<Longrightarrow> heap (upd i f b) = heap b"
  by (auto simp: heap_def node_at_upd fun_eq_iff option.map_comp comp_def)

section \<open>Doubly linked segments\<close>

text \<open>\<open>seg b p q e\<close>: the nodes \<open>q\<close> are linked in this order, after \<open>p\<close> and before \<open>e\<close>.\<close>

fun seg :: "pool_book \<Rightarrow> idx \<Rightarrow> idx list \<Rightarrow> idx \<Rightarrow> bool" where
  "seg b p [] e \<longleftrightarrow> True"
| "seg b p (i # q) e \<longleftrightarrow>
     (\<exists>n. node_at i b = Some n \<and> prev_idx n = p \<and> next_idx n = hd (q @ [e])) \<and> seg b i q e"

lemma seg_append:
  "seg b p (q1 @ q2) e \<longleftrightarrow> seg b p q1 (hd (q2 @ [e])) \<and> seg b (last (p # q1)) q2 e"
proof (induction q1 arbitrary: p)
  case Nil
  then show ?case by simp
next
  case (Cons i q1)
  have "hd ((q1 @ q2) @ [e]) = hd (q1 @ [hd (q2 @ [e])])"
    by (cases q1) simp_all
  with Cons show ?case by auto
qed

lemma seg_cong: "(\<And>i. i \<in> set q \<Longrightarrow> node_at i b' = node_at i b) \<Longrightarrow> seg b' p q e \<longleftrightarrow> seg b p q e"
  by (induction q arbitrary: p) auto

lemma seg_slots: "seg b p q e \<Longrightarrow> set q \<subseteq> slots b"
  by (induction q arbitrary: p) (auto simp: node_at_defined)

lemma seg_last_next:
  assumes "seg b p (q @ [i]) e" "i \<notin> set q"
  shows "seg (upd i (\<lambda>n. n\<lparr>next_idx := e'\<rparr>) b) p (q @ [i]) e'"
proof -
  have "seg (upd i (\<lambda>n. n\<lparr>next_idx := e'\<rparr>) b) p q i"
    using assms by (subst seg_cong [of q _ b]) (auto simp: seg_append node_at_upd)
  with assms show ?thesis by (auto simp: seg_append)
qed

lemma seg_first_prev:
  assumes "seg b p (i # q) e" "i \<notin> set q"
  shows "seg (upd i (\<lambda>n. n\<lparr>prev_idx := p'\<rparr>) b) p' (i # q) e"
proof -
  have "seg (upd i (\<lambda>n. n\<lparr>prev_idx := p'\<rparr>) b) i q e"
    using assms by (subst seg_cong [of q _ b]) (auto simp: node_at_upd)
  with assms show ?thesis by auto
qed

section \<open>Levels\<close>

definition level_rep :: "pool_book \<Rightarrow> price_level \<Rightarrow> price \<Rightarrow> idx list \<Rightarrow> bool" where
  "level_rep b level p q \<longleftrightarrow>
     level_price level = p \<and> head_idx level = hd (q @ [INVALID_IDX])
     \<and> tail_idx level = last (INVALID_IDX # q) \<and> seg b INVALID_IDX q INVALID_IDX
     \<and> INVALID_IDX \<notin> set q \<and> distinct q \<and> order_count level = word_of_nat (length q)"

lemma level_rep_cong:
  "(\<And>i. i \<in> set q \<Longrightarrow> node_at i b' = node_at i b) \<Longrightarrow> level_rep b' level p q \<longleftrightarrow> level_rep b level p q"
  by (simp add: level_rep_def cong: seg_cong)

lemma level_rep_empty: "level_rep b level p q \<Longrightarrow> level_empty level \<longleftrightarrow> q = []"
  by (cases q) (auto simp: level_rep_def level_empty_def)

lemma level_rep_head: "level_rep b level p q \<Longrightarrow> head_idx level = INVALID_IDX \<longleftrightarrow> q = []"
  using level_rep_empty by (simp add: level_empty_def)

lemma level_rep_slots: "level_rep b level p q \<Longrightarrow> set q \<subseteq> slots b"
  by (auto simp: level_rep_def dest: seg_slots)

text \<open>Only the links of the nodes in \<open>X\<close> may differ, nothing else.\<close>

definition links_frame :: "idx set \<Rightarrow> pool_book \<Rightarrow> pool_book \<Rightarrow> bool" where
  "links_frame X b b' \<longleftrightarrow>
     (\<forall>i. i \<notin> X \<longrightarrow> node_at i b' = node_at i b) \<and> heap b' = heap b
     \<and> length (nodes b') = length (nodes b) \<and> free_head b' = free_head b
     \<and> pool_index b' = pool_index b \<and> pool_bids b' = pool_bids b \<and> pool_asks b' = pool_asks b"

lemma links_frame_refl [simp]: "links_frame X b b"
  by (simp add: links_frame_def)

lemma links_frame_upd:
  "i \<in> X \<Longrightarrow> (\<And>n. node_order (f n) = node_order n) \<Longrightarrow> links_frame X b (upd i f b)"
  by (auto simp: links_frame_def heap_upd_links node_at_upd)

lemma links_frame_trans: "links_frame X b b' \<Longrightarrow> links_frame X b' b'' \<Longrightarrow> links_frame X b b''"
  by (simp add: links_frame_def)

lemma links_frame_slots: "links_frame X b b' \<Longrightarrow> slots b' = slots b"
  by (simp add: links_frame_def slots_def)

text \<open>The two halves of unlinking: the predecessor side and the successor side.\<close>

lemma unlink_prev:
  assumes q1: "seg b INVALID_IDX q1 i" and inv: "INVALID_IDX \<notin> set q1" and d: "distinct q1"
    and p: "p = last (INVALID_IDX # q1)"
  shows "\<exists>b'. (if p \<noteq> INVALID_IDX
      then do { b \<leftarrow> set_node p (\<lambda>m. m\<lparr>next_idx := n\<rparr>) b; Some (level, b) }
      else Some (level\<lparr>head_idx := n\<rparr>, b))
    = Some (level\<lparr>head_idx := if q1 = [] then n else head_idx level\<rparr>, b')
    \<and> links_frame (set q1) b b' \<and> seg b' INVALID_IDX q1 n"
proof (cases q1 rule: rev_cases)
  case Nil
  then show ?thesis using p by auto
next
  case (snoc q i')
  then have "p = i'" "i' \<noteq> INVALID_IDX" "i' \<notin> set q" using p inv d by auto
  moreover have "i' \<in> slots b" using seg_slots [OF q1] snoc by auto
  moreover have "seg (upd i' (\<lambda>m. m\<lparr>next_idx := n\<rparr>) b) INVALID_IDX q1 n"
    using seg_last_next [OF q1 [unfolded snoc] \<open>i' \<notin> set q\<close>] snoc by simp
  moreover have "links_frame (set q1) b (upd i' (\<lambda>m. m\<lparr>next_idx := n\<rparr>) b)"
    by (rule links_frame_upd) (simp_all add: snoc)
  ultimately show ?thesis using snoc by (simp add: set_node_upd)
qed

lemma unlink_next:
  assumes q2: "seg b i q2 INVALID_IDX" and inv: "INVALID_IDX \<notin> set q2" and d: "distinct q2"
    and n: "n = hd (q2 @ [INVALID_IDX])"
  shows "\<exists>b'. (if n \<noteq> INVALID_IDX
      then do { b \<leftarrow> set_node n (\<lambda>m. m\<lparr>prev_idx := p\<rparr>) b; Some (level, b) }
      else Some (level\<lparr>tail_idx := p\<rparr>, b))
    = Some (level\<lparr>tail_idx := if q2 = [] then p else tail_idx level\<rparr>, b')
    \<and> links_frame (set q2) b b' \<and> seg b' p q2 INVALID_IDX"
proof (cases q2)
  case Nil
  then show ?thesis using n by auto
next
  case (Cons j q)
  then have "n = j" "j \<noteq> INVALID_IDX" "j \<notin> set q" using n inv d by auto
  moreover have "j \<in> slots b" using seg_slots [OF q2] Cons by auto
  moreover have "seg (upd j (\<lambda>m. m\<lparr>prev_idx := p\<rparr>) b) p q2 INVALID_IDX"
    using seg_first_prev [OF q2 [unfolded Cons] \<open>j \<notin> set q\<close>] Cons by simp
  moreover have "links_frame (set q2) b (upd j (\<lambda>m. m\<lparr>prev_idx := p\<rparr>) b)"
    by (rule links_frame_upd) (simp_all add: Cons)
  ultimately show ?thesis using Cons by (simp add: set_node_upd)
qed

lemma remove_from_level_correct:
  assumes rep: "level_rep b level p (q1 @ i # q2)" and ord: "heap b i = Some ord"
  shows "\<exists>level' b'. remove_from_level level i b = Some (level', b')
    \<and> level_rep b' level' p (q1 @ q2) \<and> links_frame (set (q1 @ q2)) b b'
    \<and> total_volume level' = total_volume level - remaining_quantity ord"
proof -
  let ?p = "last (INVALID_IDX # q1)" and ?n = "hd (q2 @ [INVALID_IDX])"
  note r = rep [unfolded level_rep_def seg_append]
  obtain nd where nd: "node_at i b = Some nd" "prev_idx nd = ?p" "next_idx nd = ?n"
    using r by auto
  have nd_ord: "node_order nd = ord" using ord nd(1) by (simp add: heap_def)
  have q: "seg b INVALID_IDX q1 i" "seg b i q2 INVALID_IDX" "INVALID_IDX \<notin> set q1"
    "INVALID_IDX \<notin> set q2" "distinct q1" "distinct q2" "set q1 \<inter> set q2 = {}"
    "i \<notin> set q1" "i \<notin> set q2"
    using r by auto
  obtain b1 where b1: "(if ?p \<noteq> INVALID_IDX
      then do { b \<leftarrow> set_node ?p (\<lambda>m. m\<lparr>next_idx := ?n\<rparr>) b; Some (level, b) }
      else Some (level\<lparr>head_idx := ?n\<rparr>, b))
    = Some (level\<lparr>head_idx := if q1 = [] then ?n else head_idx level\<rparr>, b1)"
    "links_frame (set q1) b b1" "seg b1 INVALID_IDX q1 ?n"
    using unlink_prev [OF q(1,3,5) refl] by blast
  have "seg b1 i q2 INVALID_IDX"
    using b1(2) q(2,7) by (subst seg_cong [of q2 _ b]) (auto simp: links_frame_def)
  then obtain b2 where b2: "(if ?n \<noteq> INVALID_IDX
      then do { b \<leftarrow> set_node ?n (\<lambda>m. m\<lparr>prev_idx := ?p\<rparr>) b1;
                Some (level\<lparr>head_idx := if q1 = [] then ?n else head_idx level\<rparr>, b) }
      else Some (level\<lparr>head_idx := if q1 = [] then ?n else head_idx level, tail_idx := ?p\<rparr>, b1))
    = Some (level\<lparr>head_idx := if q1 = [] then ?n else head_idx level,
                  tail_idx := if q2 = [] then ?p else tail_idx level\<rparr>, b2)"
    "links_frame (set q2) b1 b2" "seg b2 ?p q2 INVALID_IDX"
    using unlink_next [of b1 i q2 ?n ?p "level\<lparr>head_idx := if q1 = [] then ?n else head_idx level\<rparr>"]
      q(4,6) by auto
  have frame: "links_frame (set (q1 @ q2)) b b2"
    using b1(2) b2(2) by (auto simp: links_frame_def)
  have "seg b2 INVALID_IDX q1 ?n"
    using b1(3) b2(2) q(7) by (subst seg_cong [of q1 _ b1]) (auto simp: links_frame_def)
  moreover have same: "node_at i b2 = Some nd"
    using frame nd(1) q(8,9) by (simp add: links_frame_def)
  ultimately have "level_rep b2 (level\<lparr>head_idx := if q1 = [] then ?n else head_idx level,
      tail_idx := if q2 = [] then ?p else tail_idx level,
      total_volume := total_volume level - remaining_quantity ord,
      order_count := order_count level - 1\<rparr>) p (q1 @ q2)"
    using r b2(3) q by (cases q1; cases q2) (auto simp: level_rep_def seg_append hd_append_Cons)
  moreover have "remove_from_level level i b =
    Some (level\<lparr>head_idx := if q1 = [] then ?n else head_idx level,
      tail_idx := if q2 = [] then ?p else tail_idx level,
      total_volume := total_volume level - remaining_quantity ord,
      order_count := order_count level - 1\<rparr>, b2)"
    by (simp only: remove_from_level_def nd Option.bind.simps Let_def b1(1) b2(1) prod.case same)
      (simp add: nd_ord)
  ultimately show ?thesis using frame by fastforce
qed

lemma append_to_level_correct:
  assumes rep: "level_rep b level p q" and i: "i \<notin> set q" "i \<noteq> INVALID_IDX"
    and ord: "heap b i = Some ord"
  shows "\<exists>level' b'. append_to_level level i b = Some (level', b')
    \<and> level_rep b' level' p (q @ [i]) \<and> links_frame (set (q @ [i])) b b'
    \<and> total_volume level' = total_volume level + remaining_quantity ord"
proof -
  note r = rep [unfolded level_rep_def]
  have slot: "i \<in> slots b" using ord by (metis dom_heap domI)
  define b1 where "b1 = upd i (\<lambda>n. n\<lparr>prev_idx := tail_idx level, next_idx := INVALID_IDX\<rparr>) b"
  have f1: "links_frame {i} b b1"
    unfolding b1_def by (rule links_frame_upd) simp_all
  obtain n where n: "node_at i b = Some n" "node_order n = ord"
    using ord by (auto simp: heap_def)
  define n1 where "n1 = n\<lparr>prev_idx := tail_idx level, next_idx := INVALID_IDX\<rparr>"
  have n1: "node_at i b1 = Some n1" "prev_idx n1 = last (INVALID_IDX # q)"
    "next_idx n1 = INVALID_IDX" "node_order n1 = ord"
    using n r by (simp_all add: b1_def n1_def)
  have seg1: "seg b1 INVALID_IDX q INVALID_IDX"
    using r f1 i(1) by (subst seg_cong [of q _ b]) (auto simp: links_frame_def)
  have tl: "tail_idx level = last (INVALID_IDX # q)" using r by (elim conjE)
  define level1 where "level1 = level\<lparr>head_idx := if q = [] then i else head_idx level\<rparr>"
  have "\<exists>b2. (if tail_idx level \<noteq> INVALID_IDX
      then do { b \<leftarrow> set_node (tail_idx level) (\<lambda>n. n\<lparr>next_idx := i\<rparr>) b1; Some (level, b) }
      else Some (level\<lparr>head_idx := i\<rparr>, b1)) = Some (level1, b2)
    \<and> links_frame (set q) b1 b2 \<and> seg b2 INVALID_IDX q i"
    unfolding level1_def tl by (rule unlink_prev [OF seg1]) (use r in simp_all)
  then obtain b2 where b2: "(if tail_idx level \<noteq> INVALID_IDX
      then do { b \<leftarrow> set_node (tail_idx level) (\<lambda>n. n\<lparr>next_idx := i\<rparr>) b1; Some (level, b) }
      else Some (level\<lparr>head_idx := i\<rparr>, b1)) = Some (level1, b2)"
    "links_frame (set q) b1 b2" "seg b2 INVALID_IDX q i"
    by blast
  have n2: "node_at i b2 = Some n1"
    using b2(2) n1(1) i(1) by (simp add: links_frame_def)
  have "links_frame (set (q @ [i])) b b2"
    using f1 b2(2) by (auto simp: links_frame_def)
  moreover have "append_to_level level i b = Some (level1\<lparr>tail_idx := i,
      total_volume := total_volume level1 + remaining_quantity ord,
      order_count := order_count level1 + 1\<rparr>, b2)"
    by (simp only: append_to_level_def set_node_upd [OF slot] b1_def [symmetric] b2(1) n2 n1(4)
        Option.bind.simps prod.case)
  moreover have "level_rep b2 (level1\<lparr>tail_idx := i,
      total_volume := total_volume level1 + remaining_quantity ord,
      order_count := order_count level1 + 1\<rparr>) p (q @ [i])"
    using r b2(3) n1 n2 i
    by (cases q) (auto simp: level_rep_def seg_append level1_def hd_append_Cons)
  ultimately show ?thesis by (auto simp: level1_def)
qed

section \<open>The free list\<close>

fun free_chain :: "pool_book \<Rightarrow> idx \<Rightarrow> idx list \<Rightarrow> bool" where
  "free_chain b i [] \<longleftrightarrow> i = INVALID_IDX"
| "free_chain b i (j # F) \<longleftrightarrow>
     i = j \<and> j \<noteq> INVALID_IDX \<and> (\<exists>n. node_at j b = Some n \<and> free_chain b (next_idx n) F)"

lemma free_chain_cong:
  "(\<And>i. i \<in> set F \<Longrightarrow> node_at i b' = node_at i b) \<Longrightarrow> free_chain b' j F \<longleftrightarrow> free_chain b j F"
  by (induction F arbitrary: j) auto

lemma free_chain_slots: "free_chain b j F \<Longrightarrow> set F \<subseteq> slots b"
  by (induction F arbitrary: j) (auto simp: node_at_defined)

lemma free_chain_INVALID [simp]: "free_chain b INVALID_IDX F \<longleftrightarrow> F = []"
  by (cases F) auto

lemma free_node_correct:
  assumes F: "free_chain b (free_head b) F" and i: "i \<in> slots b" "i \<notin> set F" "i \<noteq> INVALID_IDX"
  shows "\<exists>b'. free_node i b = Some b' \<and> free_head b' = i \<and> free_chain b' i (i # F)
    \<and> links_frame {i} b (b'\<lparr>free_head := free_head b\<rparr>)"
proof -
  define b' where "b' = upd i (\<lambda>n. n\<lparr>prev_idx := INVALID_IDX, next_idx := free_head b\<rparr>) b"
  have f: "links_frame {i} b b'"
    unfolding b'_def by (rule links_frame_upd) simp_all
  obtain n where "node_at i b' = Some n" "next_idx n = free_head b"
    using i(1) by (auto simp: b'_def node_at_defined)
  moreover have "free_chain b' (free_head b) F"
    using F f i(2) by (subst free_chain_cong [of F _ b]) (auto simp: links_frame_def)
  moreover have "free_chain (b'\<lparr>free_head := i\<rparr>) j F \<longleftrightarrow> free_chain b' j F" for j
    by (rule free_chain_cong) simp
  moreover have "b'\<lparr>free_head := i, free_head := free_head b\<rparr> = b'"
    by (simp add: b'_def)
  ultimately show ?thesis
    using i f by (intro exI [of _ "b'\<lparr>free_head := i\<rparr>"])
      (simp add: free_node_def set_node_upd b'_def [symmetric])
qed

section \<open>Allocation\<close>

lemma unat_idx: "k < 2 ^ 32 \<Longrightarrow> unat (word_of_nat k :: idx) = k"
  by (rule of_nat_inverse [OF refl]) simp

lemma idx_of_nat:
  "k < 2 ^ 32 - 1 \<Longrightarrow> unat (word_of_nat k :: idx) = k \<and> (word_of_nat k :: idx) \<noteq> INVALID_IDX"
proof
  assume k: "k < 2 ^ 32 - 1"
  then show u: "unat (word_of_nat k :: idx) = k" by (simp add: unat_idx)
  have "unat INVALID_IDX = 2 ^ 32 - 1" by (simp add: INVALID_IDX_def)
  with u k show "(word_of_nat k :: idx) \<noteq> INVALID_IDX" by auto
qed

lemma length_link_free [simp]: "length (link_free k ns) = length ns"
  by (cases "k \<le> length ns") (simp_all add: link_free_def)

lemma nth_link_free:
  "i < length ns \<Longrightarrow> link_free k ns ! i =
     (if i < k then ns ! i
      else (ns ! i)\<lparr>prev_idx := INVALID_IDX,
                   next_idx := (if i + 1 < length ns then word_of_nat (i + 1) else INVALID_IDX)\<rparr>)"
  by (cases "k \<le> length ns") (simp_all add: link_free_def nth_append)

lemma link_free_chain:
  assumes "nodes b = link_free k ns" "length ns < 2 ^ 32" "k \<le> j" "j \<le> length ns"
  shows "free_chain b (if j < length ns then word_of_nat j else INVALID_IDX)
    (map word_of_nat [j..<length ns])"
  using assms(3,4)
proof (induction "length ns - j" arbitrary: j)
  case 0
  then show ?case by simp
next
  case (Suc d)
  then have j: "j < length ns" by simp
  then have up: "[j..<length ns] = j # [Suc j..<length ns]" by (rule upt_conv_Cons)
  have i: "unat (word_of_nat j :: idx) = j" "(word_of_nat j :: idx) \<noteq> INVALID_IDX"
    using idx_of_nat [of j] j assms(2) by simp_all
  have "free_chain b (if Suc j < length ns then word_of_nat (Suc j) else INVALID_IDX)
      (map word_of_nat [Suc j..<length ns])"
    using Suc by (intro Suc.hyps(1)) simp_all
  then show ?case
    using i j Suc.prems assms(1)
    by (cases "Suc j < length ns") (simp_all add: up node_at_def nth_link_free)
qed

lemma distinct_idx_upt:
  "n < 2 ^ 32 \<Longrightarrow> distinct (map (word_of_nat :: nat \<Rightarrow> idx) [k..<n])"
  by (auto simp: distinct_map unat_idx intro!: inj_on_inverseI [where g = unat])

lemma set_idx_upt:
  assumes "n < 2 ^ 32"
  shows "set (map (word_of_nat :: nat \<Rightarrow> idx) [k..<n]) = {i. k \<le> unat i \<and> unat i < n}"
proof (intro subset_antisym subsetI)
  fix i assume "i \<in> set (map (word_of_nat :: nat \<Rightarrow> idx) [k..<n])"
  then show "i \<in> {i. k \<le> unat i \<and> unat i < n}"
    using assms by (auto simp: unat_idx)
next
  fix i :: idx assume "i \<in> {i. k \<le> unat i \<and> unat i < n}"
  then have "unat i \<in> set [k..<n]" "i = word_of_nat (unat i)" by simp_all
  then show "i \<in> set (map (word_of_nat :: nat \<Rightarrow> idx) [k..<n])"
    unfolding set_map by (metis imageI)
qed

lemma card_slots:
  assumes "length (nodes b) < 2 ^ 32"
  shows "card (slots b) = length (nodes b)"
proof -
  have "slots b = set (map (word_of_nat :: nat \<Rightarrow> idx) [0..<length (nodes b)])"
    using set_idx_upt [OF assms, of 0] by (simp add: slots_def)
  then show ?thesis
    using distinct_card [OF distinct_idx_upt [OF assms, of 0]] by simp
qed

lemma INVALID_not_slot: "length (nodes b) < 2 ^ 32 \<Longrightarrow> INVALID_IDX \<notin> slots b"
  by (simp add: slots_def INVALID_IDX_def)

definition grown :: "nat \<Rightarrow> nat" where
  "grown n = (if n = 0 then 1024 else n * 2)"

lemma grow_correct:
  assumes fits: "grown (length (nodes b)) < 2 ^ 32"
  defines "F \<equiv> map word_of_nat [length (nodes b)..<grown (length (nodes b))]"
  shows "free_chain (grow b) (free_head (grow b)) F" "distinct F" "F \<noteq> []"
    "set F = slots (grow b) - slots b" "slots b \<subseteq> slots (grow b)"
    "i \<in> slots b \<Longrightarrow> node_at i (grow b) = node_at i b"
    "length (nodes (grow b)) = grown (length (nodes b))"
    "pool_index (grow b) = pool_index b" "pool_bids (grow b) = pool_bids b"
    "pool_asks (grow b) = pool_asks b"
proof -
  let ?n = "length (nodes b)" and ?N = "grown (length (nodes b))"
  let ?ns = "nodes b @ replicate (?N - ?n) default_node"
  have n: "?n < ?N" by (simp add: grown_def)
  have ns: "nodes (grow b) = link_free ?n ?ns" "free_head (grow b) = word_of_nat ?n"
    by (simp_all add: grow_def grown_def Let_def)
  have len: "length ?ns = ?N" using n by simp
  show len': "length (nodes (grow b)) = ?N" using n by (simp add: ns)
  show "free_chain (grow b) (free_head (grow b)) F"
    using link_free_chain [OF ns(1), of ?n] fits n unfolding len by (simp add: F_def ns)
  show "distinct F" unfolding F_def by (rule distinct_idx_upt [OF fits])
  show "F \<noteq> []" using n by (simp add: F_def)
  show "set F = slots (grow b) - slots b"
    unfolding F_def set_idx_upt [OF fits] slots_def len' by auto
  show "slots b \<subseteq> slots (grow b)" using n by (auto simp: slots_def len')
  show "node_at i (grow b) = node_at i b" if "i \<in> slots b"
    using that n by (simp add: slots_def node_at_def ns nth_link_free nth_append)
qed (simp_all add: grow_def Let_def)

lemma allocate_node_correct:
  assumes F: "free_chain b (free_head b) F" "distinct F"
    and fits: "F = [] \<Longrightarrow> grown (length (nodes b)) < 2 ^ 32"
  shows "\<exists>i b' F'. allocate_node ord b = Some (i, b') \<and> free_chain b' (free_head b') F'
    \<and> distinct (i # F') \<and> i \<noteq> INVALID_IDX \<and> set (i # F') = set F \<union> (slots b' - slots b)
    \<and> slots b \<subseteq> slots b' \<and> heap b' i = Some ord
    \<and> (\<forall>j \<in> slots b. j \<noteq> i \<longrightarrow> node_at j b' = node_at j b) \<and> pool_index b' = pool_index b
    \<and> pool_bids b' = pool_bids b \<and> pool_asks b' = pool_asks b
    \<and> length (nodes b') = (if F = [] then grown (length (nodes b)) else length (nodes b))"
proof -
  define b1 where "b1 = (if F = [] then grow b else b)"
  have "\<exists>i F'. free_chain b1 (free_head b1) (i # F') \<and> distinct (i # F')
    \<and> set (i # F') = set F \<union> (slots b1 - slots b)"
  proof (cases F)
    case Nil
    define G where "G = map (word_of_nat :: nat \<Rightarrow> idx) [length (nodes b)..<grown (length (nodes b))]"
    note g = grow_correct(1-4) [OF fits [OF Nil], folded G_def]
    then obtain i F' where G: "G = i # F'" by (cases G) auto
    have b1: "b1 = grow b" by (simp add: b1_def Nil)
    show ?thesis
      using g(1,2,4) unfolding b1 G Nil by (intro exI [of _ i] exI [of _ F']) simp
  next
    case (Cons i F')
    with F show ?thesis unfolding b1_def by (intro exI [of _ i] exI [of _ F']) simp
  qed
  then obtain i F' where i: "free_chain b1 (free_head b1) (i # F')" "distinct (i # F')"
    "set (i # F') = set F \<union> (slots b1 - slots b)"
    by blast
  have same: "\<forall>j \<in> slots b. node_at j b1 = node_at j b" "slots b \<subseteq> slots b1"
    "pool_index b1 = pool_index b" "pool_bids b1 = pool_bids b" "pool_asks b1 = pool_asks b"
    "length (nodes b1) = (if F = [] then grown (length (nodes b)) else length (nodes b))"
    using grow_correct(5-10) [OF fits] unfolding b1_def by (cases "F = []"; simp)+
  obtain n where n: "node_at i b1 = Some n" "free_head b1 = i" "i \<noteq> INVALID_IDX"
    "free_chain b1 (next_idx n) F'"
    using i(1) by auto
  have head: "(if free_head b = INVALID_IDX then grow b else b) = b1"
    using F(1) by (cases F) (auto simp: b1_def)
  let ?f = "\<lambda>n. n\<lparr>node_order := ord, prev_idx := INVALID_IDX, next_idx := INVALID_IDX\<rparr>"
  define b' where "b' = (upd i ?f b1)\<lparr>free_head := next_idx n\<rparr>"
  have slot: "i \<in> slots b1" using n(1) by (auto simp: node_at_defined)
  have eq: "upd i ?f (b1\<lparr>free_head := next_idx n\<rparr>) = b'" by (simp add: b'_def upd_def)
  have slot': "i \<in> slots (b1\<lparr>free_head := next_idx n\<rparr>)" using slot by (simp add: slots_def)
  have "allocate_node ord b = Some (i, b')"
    unfolding allocate_node_def head Let_def n(2)
    by (simp only: n(1) Option.bind.simps set_node_upd [OF slot'] eq)
  moreover have "free_chain b' (free_head b') F'"
    using n(4) i(2) by (subst free_chain_cong [of F' _ b1]) (auto simp: b'_def node_at_upd)
  moreover have "slots b' = slots b1" by (simp add: b'_def slots_def upd_def)
  moreover have "heap b' i = Some ord" by (simp add: b'_def heap_def n(1))
  moreover have "\<forall>j \<in> slots b. j \<noteq> i \<longrightarrow> node_at j b' = node_at j b"
    using same(1) by (simp add: b'_def)
  moreover have "length (nodes b') = length (nodes b1)" by (simp add: b'_def)
  ultimately show ?thesis
    using i n(3) same by (intro exI [of _ i] exI [of _ b'] exI [of _ F']) (simp add: b'_def)
qed

end
