(* ===== verification/Pool_Refinement.thy ===== *)
theory Pool_Refinement
  imports Pool_Links Matching_Engine
begin

text \<open>
  The pool engine implements the price-time book. Its invariant partitions the slots of the
  node vector into the queues of the levels and the free list, so no slot is lost and none is
  used twice; \<open>pool_abs\<close> reads the book off by following the links.
\<close>

section \<open>Representation\<close>

fun pool_levels :: "pool_book \<Rightarrow> side \<Rightarrow> (price \<times> price_level) list" where
  "pool_levels b Buy = pool_bids b"
| "pool_levels b Sell = pool_asks b"

fun set_pool_levels :: "side \<Rightarrow> (price \<times> price_level) list \<Rightarrow> pool_book \<Rightarrow> pool_book" where
  "set_pool_levels Buy lv b = b\<lparr>pool_bids := lv\<rparr>"
| "set_pool_levels Sell lv b = b\<lparr>pool_asks := lv\<rparr>"

text \<open>A map from prices to level records, and the addresses its levels link.\<close>

definition side_rep :: "pool_book \<Rightarrow> (price \<times> price_level) list \<Rightarrow> idx alevels \<Rightarrow> bool" where
  "side_rep b = list_all2 (\<lambda>(p, level) (p', q). p' = p \<and> level_rep b level p q)"

text \<open>
  \<open>arena b A q F\<close>: the live slots are \<open>q\<close> and \<open>A\<close>, the index finds exactly their orders, and
  \<open>F\<close> is the free list, disjoint from both.
\<close>

definition arena :: "pool_book \<Rightarrow> idx set \<Rightarrow> idx list \<Rightarrow> idx list \<Rightarrow> bool" where
  "arena b A q F \<longleftrightarrow>
     index_ok (set q \<union> A) (heap b) (map_of (pool_index b)) \<and> free_chain b (free_head b) F
     \<and> distinct (q @ F) \<and> A \<inter> set (q @ F) = {} \<and> distinct (map fst (pool_index b))"

definition live_at :: "idx alevels \<Rightarrow> idx alevels \<Rightarrow> idx list" where
  "live_at lv lv' = addrs lv @ addrs lv'"

definition pool_rep :: "pool_book \<Rightarrow> (side \<Rightarrow> idx alevels) \<Rightarrow> idx list \<Rightarrow> bool" where
  "pool_rep b Q F \<longleftrightarrow>
     (\<forall>s. side_rep b (pool_levels b s) (Q s) \<and> levels_ok s (resolve (heap b) (Q s)))
     \<and> arena b {} (addrs (Q Buy) @ addrs (Q Sell)) F
     \<and> set (addrs (Q Buy) @ addrs (Q Sell) @ F) = slots b
     \<and> length (nodes b) < 2 ^ 32"

lemma pool_levels_set [simp]:
  "pool_levels (set_pool_levels s lv b) s = lv"
  "s' \<noteq> s \<Longrightarrow> pool_levels (set_pool_levels s lv b) s' = pool_levels b s'"
  "nodes (set_pool_levels s lv b) = nodes b" "free_head (set_pool_levels s lv b) = free_head b"
  "pool_index (set_pool_levels s lv b) = pool_index b" "slots (set_pool_levels s lv b) = slots b"
  "node_at i (set_pool_levels s lv b) = node_at i b" "heap (set_pool_levels s lv b) = heap b"
  by (cases s; cases s'; simp add: slots_def node_at_def heap_def fun_eq_iff)+

lemma pool_levels_update [simp]:
  "pool_levels (b\<lparr>pool_index := ix\<rparr>) s = pool_levels b s"
  "pool_levels (b\<lparr>free_head := i\<rparr>) s = pool_levels b s"
  "pool_levels (upd i f b) s = pool_levels b s"
  by (cases s; simp)+

lemma links_frame_levels: "links_frame X b b' \<Longrightarrow> pool_levels b' s = pool_levels b s"
  by (cases s) (simp_all add: links_frame_def)

lemma side_rep_simps [simp]:
  "side_rep b [] lv \<longleftrightarrow> lv = []" "side_rep b plv [] \<longleftrightarrow> plv = []"
  "side_rep b ((p, level) # plv) ((p', q) # lv) \<longleftrightarrow>
     p' = p \<and> level_rep b level p q \<and> side_rep b plv lv"
  by (auto simp: side_rep_def)

lemma side_rep_ConsE:
  assumes "side_rep b plv ((p, q) # lv)"
  obtains level others where "plv = (p, level) # others" "level_rep b level p q" "side_rep b others lv"
  using assms by (cases plv) auto

lemma side_rep_cong:
  "(\<And>i. i \<in> set (addrs lv) \<Longrightarrow> node_at i b' = node_at i b) \<Longrightarrow> side_rep b' plv lv \<longleftrightarrow> side_rep b plv lv"
proof (induction plv arbitrary: lv)
  case (Cons e plv)
  obtain p level where e: "e = (p, level)" by (cases e)
  show ?case
  proof (cases lv)
    case (Cons f lv')
    obtain p' q where f: "f = (p', q)" by (cases f)
    have "level_rep b' level p q \<longleftrightarrow> level_rep b level p q"
      by (rule level_rep_cong) (use Cons.prems Cons f in auto)
    moreover have "side_rep b' plv lv' \<longleftrightarrow> side_rep b plv lv'"
      by (rule Cons.IH) (use Cons.prems Cons f in auto)
    ultimately show ?thesis using e f Cons by simp
  qed simp
qed simp

lemma side_rep_keys: "side_rep b plv lv \<Longrightarrow> map fst plv = map fst lv"
proof (induction plv arbitrary: lv)
  case (Cons e plv)
  then show ?case by (cases lv; cases e; cases "hd lv") auto
qed simp

lemma rep_set_levels [simp]:
  "free_chain (set_pool_levels s lv b) i F \<longleftrightarrow> free_chain b i F"
  "arena (set_pool_levels s lv b) A q F \<longleftrightarrow> arena b A q F"
  "level_rep (set_pool_levels s lv b) level p q \<longleftrightarrow> level_rep b level p q"
  "side_rep (set_pool_levels s lv b) plv l \<longleftrightarrow> side_rep b plv l"
proof -
  show *: "free_chain (set_pool_levels s lv b) i F \<longleftrightarrow> free_chain b i F" for i
    by (rule free_chain_cong) simp
  show "arena (set_pool_levels s lv b) A q F \<longleftrightarrow> arena b A q F"
    by (simp add: arena_def *)
  show "level_rep (set_pool_levels s lv b) level p q \<longleftrightarrow> level_rep b level p q"
    by (rule level_rep_cong) simp
  show "side_rep (set_pool_levels s lv b) plv l \<longleftrightarrow> side_rep b plv l"
    by (rule side_rep_cong) simp
qed

section \<open>The inner loop\<close>

lemma pool_match_level_stop:
  "head_idx level = INVALID_IDX \<or> remaining_quantity inc = 0 \<Longrightarrow>
   pool_match_level agg inc level b ts = Some (inc, level, b, ts)"
  by (subst pool_match_level.simps) (auto simp: word_pos_iff)

text \<open>One round, by whether it fills the maker.\<close>

lemma pool_match_level_step:
  assumes head: "head_idx level = i" "i \<noteq> INVALID_IDX" and rem: "remaining_quantity inc \<noteq> 0"
    and maker: "heap b i = Some maker"
    and q: "q = min (remaining_quantity inc) (remaining_quantity maker)"
    and b1: "b1 = upd i (\<lambda>n. n\<lparr>node_order := reduce maker q\<rparr>) b"
  shows "pool_match_level (side inc) inc level b ts =
    (if is_filled (reduce maker q) then
       do {
         (level, b) \<leftarrow> remove_from_level level i
           (b1\<lparr>pool_index := AList.delete (order_id maker) (pool_index b1)\<rparr>);
         b \<leftarrow> free_node i b;
         pool_match_level (side inc) (reduce inc q) level b (ts @ [make_trade inc maker q])
       }
     else Some (reduce inc q, level, b1, ts @ [make_trade inc maker q]))"
proof -
  obtain n where n: "node_at i b = Some n" "node_order n = maker"
    using maker by (auto simp: heap_def)
  have slot: "i \<in> slots b" using n(1) by (auto simp: node_at_defined)
  have "remaining_quantity (reduce inc q) = 0" if "\<not> is_filled (reduce maker q)"
    using that by (auto simp: q is_filled_def min_def split: if_splits)
  then have part: "pool_match_level (side inc) (reduce inc q) level b1 ts' = Some (reduce inc q, level, b1, ts')"
    if "\<not> is_filled (reduce maker q)" for ts'
    using that by (intro pool_match_level_stop) simp
  show ?thesis
    by (subst pool_match_level.simps)
      (simp add: head rem word_pos_iff n set_node_upd [OF slot] Let_def q [symmetric] b1 [symmetric]
        make_trade_def [symmetric] part)
qed

lemma seg_upd_order:
  "(\<And>n. prev_idx (f n) = prev_idx n \<and> next_idx (f n) = next_idx n) \<Longrightarrow>
   seg (upd j f b) p q e \<longleftrightarrow> seg b p q e"
  by (induction q arbitrary: p) (auto simp: node_at_upd)

lemma level_rep_upd_order:
  "(\<And>n. prev_idx (f n) = prev_idx n \<and> next_idx (f n) = next_idx n) \<Longrightarrow>
   level_rep (upd j f b) level p q \<longleftrightarrow> level_rep b level p q"
  by (simp add: level_rep_def seg_upd_order)

lemma heap_upd_order:
  assumes "heap b i = Some x" "\<And>n. node_order (f n) = ord"
  shows "heap (upd i f b) = (heap b)(i \<mapsto> ord)"
  using assms by (auto simp: heap_def node_at_upd fun_eq_iff)

text \<open>What a matching loop leaves alone: everything at the addresses in \<open>A\<close>, and the maps.\<close>

definition untouched :: "idx set \<Rightarrow> pool_book \<Rightarrow> pool_book \<Rightarrow> bool" where
  "untouched A b b' \<longleftrightarrow>
     (\<forall>i \<in> A. node_at i b' = node_at i b) \<and> length (nodes b') = length (nodes b)"

lemma untouched_refl [simp]: "untouched A b b"
  by (simp add: untouched_def)

lemma untouched_trans: "untouched A b b' \<Longrightarrow> untouched A b' b'' \<Longrightarrow> untouched A b b''"
  by (simp add: untouched_def)

lemma untouched_heap: "untouched A b b' \<Longrightarrow> i \<in> A \<Longrightarrow> heap b' i = heap b i"
  by (simp add: untouched_def heap_def)

lemma untouched_mono: "untouched A b b' \<Longrightarrow> A' \<subseteq> A \<Longrightarrow> untouched A' b b'"
  by (auto simp: untouched_def)

text \<open>The head of a level is filled: its slot moves from the queue to the free list.\<close>

lemma unlink_filled:
  assumes rep: "level_rep b level p (i # q)" and ar: "arena b A (i # q) F"
    and maker: "heap b i = Some maker" and filled: "remaining_quantity ord = 0"
    and id: "order_id ord = order_id maker"
    and b1: "b1 = upd i (\<lambda>n. n\<lparr>node_order := ord\<rparr>) b"
  shows "\<exists>level' b2 b'. remove_from_level level i
      (b1\<lparr>pool_index := AList.delete (order_id maker) (pool_index b1)\<rparr>) = Some (level', b2)
    \<and> free_node i b2 = Some b' \<and> level_rep b' level' p q \<and> arena b' A q (i # F)
    \<and> (\<forall>j \<in> set q. heap b' j = heap b j) \<and> untouched A b b'
    \<and> (\<forall>s. pool_levels b' s = pool_levels b s) \<and> total_volume level' = total_volume level"
proof -
  let ?bd = "b1\<lparr>pool_index := AList.delete (order_id maker) (pool_index b1)\<rparr>"
  note a = ar [unfolded arena_def]
  have rep1: "level_rep ?bd level p ([] @ i # q)"
  proof -
    have "level_rep b1 level p (i # q)" unfolding b1 using rep by (subst level_rep_upd_order) simp_all
    then show ?thesis by (subst level_rep_cong [of _ _ b1]) simp_all
  qed
  have heap1: "heap ?bd = (heap b)(i \<mapsto> ord)"
    using heap_upd_order [OF maker, of "\<lambda>n. n\<lparr>node_order := ord\<rparr>" ord]
    by (simp add: b1 heap_def fun_eq_iff)
  obtain level' b2 where rm: "remove_from_level level i ?bd = Some (level', b2)"
    "level_rep b2 level' p q" "links_frame (set q) ?bd b2" "total_volume level' = total_volume level"
    using remove_from_level_correct [OF rep1, of ord] heap1 filled by auto
  note f2 = rm(3) [unfolded links_frame_def]
  have inv: "i \<noteq> INVALID_IDX" using rep by (auto simp: level_rep_def)
  have disj: "i \<notin> set q" "i \<notin> set F" "i \<notin> A" "set q \<inter> set F = {}" "A \<inter> set q = {}" "A \<inter> set F = {}"
    using a by auto
  have at: "node_at j b2 = node_at j b" if "j \<notin> set (i # q)" for j
    using f2 that by (simp add: b1)
  have "free_chain b2 (free_head b2) F"
  proof (subst free_chain_cong [of F b2 b])
    show "node_at j b2 = node_at j b" if "j \<in> set F" for j
      by (rule at) (use that disj(2,4) in auto)
    show "free_chain b (free_head b2) F" using a f2 by (simp add: b1)
  qed
  moreover have "i \<in> slots b2"
    using f2 heap1 dom_heap [of b2] by (metis domI fun_upd_same)
  ultimately obtain b' where fr: "free_node i b2 = Some b'" "free_head b' = i"
    "free_chain b' i (i # F)" "links_frame {i} b2 (b'\<lparr>free_head := free_head b2\<rparr>)"
    using free_node_correct [of b2 F i] disj(2) inv by blast
  note f3 = fr(4) [unfolded links_frame_def]
  have at': "node_at j b' = node_at j b2" if "j \<noteq> i" for j
    using f3 that by simp
  have heap': "heap b' = (heap b)(i \<mapsto> ord)"
  proof -
    have "heap b' = heap (b'\<lparr>free_head := free_head b2\<rparr>)" by (simp add: heap_def fun_eq_iff)
    then show ?thesis using f3 f2 heap1 by simp
  qed
  have ix: "pool_index b' = AList.delete (order_id maker) (pool_index b)"
    using f3 f2 by (simp add: b1)
  have len: "length (nodes b') = length (nodes b)" using f3 f2 by (simp add: b1)
  have lv: "pool_levels b' s = pool_levels b s" for s
    using f3 f2 by (cases s) (simp_all add: b1)
  have "index_ok (set (i # q) \<union> A - {i}) (heap b') ((map_of (pool_index b))(order_id maker := None))"
    by (rule index_ok_remove [of _ "heap b"]) (use a maker heap' in auto)
  moreover have "set (i # q) \<union> A - {i} = set q \<union> A" using disj by auto
  ultimately have "index_ok (set q \<union> A) (heap b') (map_of (pool_index b'))"
    by (simp add: ix)
  moreover have "distinct (q @ i # F)" "A \<inter> set (q @ i # F) = {}" "distinct (map fst (pool_index b'))"
    using a disj by (auto simp: ix distinct_delete)
  ultimately have "arena b' A q (i # F)"
    using fr(2,3) unfolding arena_def by blast
  moreover have "level_rep b' level' p q"
    using rm(2) disj(1) by (subst level_rep_cong [of _ _ b2]) (auto intro: at')
  moreover have "untouched A b b'"
    unfolding untouched_def
  proof (intro conjI ballI)
    fix j assume "j \<in> A"
    then have "j \<noteq> i" "j \<notin> set (i # q)" using disj(3,5) by auto
    then show "node_at j b' = node_at j b" using at at' by simp
  qed (rule len)
  moreover have "\<forall>j \<in> set q. heap b' j = heap b j" using heap' disj(1) by auto
  ultimately show ?thesis using rm(1,4) fr(1) lv by blast
qed

lemma pool_fill_sim:
  assumes "level_rep b level p q" "arena b A q F"
    and "lv_fill inc (map (\<lambda>i. the (heap b i)) q) = (ts1, inc', os')"
  shows "\<exists>level' b' q' F'. pool_match_level (side inc) inc level b ts = Some (inc', level', b', ts @ ts1)
    \<and> level_rep b' level' p q' \<and> suffix q' q \<and> os' = map (\<lambda>i. the (heap b' i)) q'
    \<and> arena b' A q' F' \<and> set q' \<union> set F' = set q \<union> set F \<and> untouched A b b'
    \<and> (\<forall>s. pool_levels b' s = pool_levels b s) \<and> total_volume level' = total_volume level
    \<and> (q' = [] \<or> remaining_quantity inc' = 0)"
  using assms
proof (induction q arbitrary: inc level b F ts ts1)
  case Nil
  then have "head_idx level = INVALID_IDX" by (simp add: level_rep_def)
  with Nil show ?case
    by (intro exI [of _ level] exI [of _ b] exI [of _ "[]"] exI [of _ F])
      (simp add: pool_match_level_stop)
next
  case (Cons i q)
  show ?case
  proof (cases "remaining_quantity inc = 0")
    case True
    with Cons.prems show ?thesis
      by (intro exI [of _ level] exI [of _ b] exI [of _ "i # q"] exI [of _ F])
        (simp add: pool_match_level_stop)
  next
    case False
    have head: "head_idx level = i" "i \<noteq> INVALID_IDX"
      using Cons.prems(1) by (auto simp: level_rep_def)
    obtain maker where maker: "heap b i = Some maker"
      using Cons.prems(2) by (auto simp: arena_def elim!: index_okD [of _ _ _ i])
    define m where "m = min (remaining_quantity inc) (remaining_quantity maker)"
    define b1 where "b1 = upd i (\<lambda>n. n\<lparr>node_order := reduce maker m\<rparr>) b"
    note step = pool_match_level_step [OF head False maker m_def b1_def, of ts]
    note a = Cons.prems(2) [unfolded arena_def]
    show ?thesis
    proof (cases "is_filled (reduce maker m)")
      case filled: True
      obtain ts2 where ts1: "ts1 = make_trade inc maker m # ts2"
        and fill: "lv_fill (reduce inc m) (map (\<lambda>i. the (heap b i)) q) = (ts2, inc', os')"
        using Cons.prems(3) False filled maker by (auto simp: m_def Let_def split: prod.splits)
      obtain level2 b2 b3 where rm: "remove_from_level level i
          (b1\<lparr>pool_index := AList.delete (order_id maker) (pool_index b1)\<rparr>) = Some (level2, b2)"
        "free_node i b2 = Some b3" "level_rep b3 level2 p q" "arena b3 A q (i # F)"
        "\<forall>j \<in> set q. heap b3 j = heap b j" "untouched A b b3"
        "\<forall>s. pool_levels b3 s = pool_levels b s" "total_volume level2 = total_volume level"
        using unlink_filled [OF Cons.prems(1,2) maker, of "reduce maker m" b1] filled
        by (auto simp: is_filled_def b1_def)
      have same: "map (\<lambda>i. the (heap b3 i)) q = map (\<lambda>i. the (heap b i)) q"
        using rm(5) by simp
      obtain level' b' q' F' where r:
        "pool_match_level (side inc) (reduce inc m) level2 b3 (ts @ [make_trade inc maker m])
          = Some (inc', level', b', ts @ ts1)"
        "level_rep b' level' p q'" "suffix q' q" "os' = map (\<lambda>i. the (heap b' i)) q'"
        "arena b' A q' F'" "set q' \<union> set F' = set q \<union> set (i # F)" "untouched A b3 b'"
        "\<forall>s. pool_levels b' s = pool_levels b3 s" "total_volume level' = total_volume level2"
        "q' = [] \<or> remaining_quantity inc' = 0"
        using Cons.IH [OF rm(3,4), of "reduce inc m" ts2 "ts @ [make_trade inc maker m]"] fill
        unfolding same ts1 by auto
      have "pool_match_level (side inc) inc level b ts = Some (inc', level', b', ts @ ts1)"
        using r(1) by (simp only: step filled if_True rm(1,2) Option.bind.simps prod.case)
      moreover have "untouched A b b'" using untouched_trans [OF rm(6) r(7)] .
      moreover have "set q' \<union> set F' = set (i # q) \<union> set F" using r(6) by auto
      ultimately show ?thesis
        using r rm(7,8) by (intro exI [of _ level'] exI [of _ b'] exI [of _ q'] exI [of _ F'])
          (simp add: suffix_ConsI)
    next
      case part: False
      have r: "ts1 = [make_trade inc maker m]" "inc' = reduce inc m"
        "os' = reduce maker m # map (\<lambda>i. the (heap b i)) q"
        using Cons.prems(3) False part maker by (auto simp: m_def Let_def)
      have heap1: "heap b1 = (heap b)(i \<mapsto> reduce maker m)"
        using heap_upd_order [OF maker] by (simp add: b1_def)
      have zero: "remaining_quantity inc' = 0"
        using part r(2) by (auto simp: m_def is_filled_def min_def split: if_splits)
      have "index_ok (set (i # q) \<union> A) (heap b1) (map_of (pool_index b1))"
        using a maker heap1 by (auto simp: b1_def intro!: index_ok_update [of _ "heap b"])
      moreover have "free_chain b1 (free_head b1) F"
        using a by (subst free_chain_cong [of F _ b]) (auto simp: b1_def node_at_upd)
      ultimately have "arena b1 A (i # q) F"
        using a unfolding arena_def by (simp add: b1_def)
      moreover have "level_rep b1 level p (i # q)"
        unfolding b1_def using Cons.prems(1) by (subst level_rep_upd_order) simp_all
      moreover have "untouched A b b1"
        using a by (auto simp: untouched_def b1_def node_at_upd)
      moreover have "os' = map (\<lambda>i. the (heap b1 i)) (i # q)"
        using r(3) heap1 a by auto
      ultimately show ?thesis
        using step part r(1,2) zero
        by (intro exI [of _ level] exI [of _ b1] exI [of _ "i # q"] exI [of _ F]) (simp add: b1_def)
    qed
  qed
qed

section \<open>The representation seen from one side\<close>

definition rep_abs :: "pool_book \<Rightarrow> (side \<Rightarrow> idx alevels) \<Rightarrow> lob" where
  "rep_abs b Q = (\<lambda>s. flat (resolve (heap b) (Q s)))"

lemma pool_rep_side:
  "pool_rep b Q F \<longleftrightarrow>
     side_rep b (pool_levels b s) (Q s) \<and> levels_ok s (resolve (heap b) (Q s))
     \<and> side_rep b (pool_levels b (opposite s)) (Q (opposite s))
     \<and> levels_ok (opposite s) (resolve (heap b) (Q (opposite s)))
     \<and> arena b (set (addrs (Q (opposite s)))) (addrs (Q s)) F \<and> distinct (addrs (Q (opposite s)))
     \<and> set (addrs (Q s)) \<union> set (addrs (Q (opposite s))) \<union> set F = slots b
     \<and> length (nodes b) < 2 ^ 32"
  unfolding pool_rep_def all_side arena_def by (cases s) (auto simp: Un_ac)

lemma set_cong_untouched:
  "untouched A b b' \<Longrightarrow> set (addrs lv) \<subseteq> A \<Longrightarrow> resolve (heap b') lv = resolve (heap b) lv"
  by (rule resolve_cong) (auto dest: untouched_heap)

lemma side_rep_untouched:
  "untouched A b b' \<Longrightarrow> set (addrs lv) \<subseteq> A \<Longrightarrow> side_rep b' plv lv \<longleftrightarrow> side_rep b plv lv"
  by (rule side_rep_cong) (auto simp: untouched_def)

lemma untouched_slots: "untouched A b b' \<Longrightarrow> slots b' = slots b"
  by (simp add: untouched_def slots_def)

section \<open>The outer loop\<close>

locale pool_loop =
  fixes loop :: "order \<Rightarrow> pool_book \<Rightarrow> trade list \<Rightarrow> (order \<times> pool_book \<times> trade list) option"
    and s :: side
  assumes loop_eq: "side inc = opposite s \<Longrightarrow> loop inc b ts =
    (case pool_levels b s of
       [] \<Rightarrow> Some (inc, b, ts)
     | (p, level) # others \<Rightarrow>
         if remaining_quantity inc = 0 \<or> \<not> crosses inc (level_price level) then Some (inc, b, ts)
         else do {
           (inc, level, b, ts) \<leftarrow> pool_match_level (side inc) inc level b ts;
           loop inc (set_pool_levels s (if level_empty level then others else (p, level) # others) b) ts
         })"
begin

lemma loop_stop:
  assumes "side inc = opposite s" "remaining_quantity inc = 0 \<or> pool_levels b s = []
    \<or> \<not> crosses inc (level_price (snd (hd (pool_levels b s))))"
  shows "loop inc b ts = Some (inc, b, ts)"
  using assms by (subst loop_eq) (auto split: list.split)

lemma loop_sim:
  assumes "side_rep b (pool_levels b s) lv" "side inc = opposite s"
    and "levels_ok s (resolve (heap b) lv)" "arena b A (addrs lv) F"
    and "lv_match inc (resolve (heap b) lv) = (ts1, inc', lvs')"
  shows "\<exists>b' lv' F'. loop inc b ts = Some (inc', b', ts @ ts1)
    \<and> side_rep b' (pool_levels b' s) lv' \<and> resolve (heap b') lv' = lvs'
    \<and> pool_levels b' (opposite s) = pool_levels b (opposite s)
    \<and> arena b' A (addrs lv') F' \<and> set (addrs lv') \<union> set F' = set (addrs lv) \<union> set F
    \<and> untouched A b b'"
  using assms
proof (induction lv arbitrary: inc b F ts ts1)
  case Nil
  then show ?case
    by (intro exI [of _ b] exI [of _ "[]"] exI [of _ F]) (auto simp: loop_stop)
next
  case (Cons l lv)
  obtain p q where l: "l = (p, q)" by (cases l)
  obtain level others where lvls: "pool_levels b s = (p, level) # others"
    and rep: "level_rep b level p q" "side_rep b others lv"
    using Cons.prems(1) [unfolded l] by (rule side_rep_ConsE)
  have lp: "level_price level = p" using rep(1) by (simp add: level_rep_def)
  show ?case
  proof (cases "remaining_quantity inc = 0 \<or> \<not> crosses inc p")
    case True
    then have "loop inc b ts = Some (inc, b, ts)"
      using lvls lp Cons.prems(2) by (intro loop_stop) auto
    with True Cons.prems l show ?thesis
      by (intro exI [of _ b] exI [of _ "l # lv"] exI [of _ F]) auto
  next
    case False
    let ?B = "set (addrs lv) \<union> A"
    obtain ts2 inc1 os1 where fill: "lv_fill inc (map (\<lambda>i. the (heap b i)) q) = (ts2, inc1, os1)"
      by (cases "lv_fill inc (map (\<lambda>i. the (heap b i)) q)")
    have price: "\<forall>ord \<in> set (map (\<lambda>i. the (heap b i)) q). price ord = p"
      using Cons.prems(3) l by auto
    have side1: "side inc1 = opposite s"
      using lv_fill_levels(4) [OF fill price] False Cons.prems(2) by simp
    have ar: "arena b ?B q F"
      using Cons.prems(4) l by (auto simp: arena_def Un_assoc)
    obtain level1 b1 q' F1 where
      run: "pool_match_level (side inc) inc level b ts = Some (inc1, level1, b1, ts @ ts2)"
      and q': "level_rep b1 level1 p q'" "suffix q' q" "os1 = map (\<lambda>i. the (heap b1 i)) q'"
      and b1: "arena b1 ?B q' F1" "set q' \<union> set F1 = set q \<union> set F" "untouched ?B b b1"
        "\<forall>s. pool_levels b1 s = pool_levels b s" "q' = [] \<or> remaining_quantity inc1 = 0"
      using pool_fill_sim [OF rep(1) ar fill, of ts] by blast
    have rest: "resolve (heap b1) lv = resolve (heap b) lv"
      by (rule resolve_cong) (use untouched_heap [OF b1(3)] in auto)
    have rep1: "side_rep b1 others lv"
      using rep(2) b1(3) by (subst side_rep_cong [of lv b1 b]) (auto simp: untouched_def)
    define b2 where "b2 = set_pool_levels s (if q' = [] then others else (p, level1) # others) b1"
    have b2: "node_at i b2 = node_at i b1" "heap b2 = heap b1" "arena b2 X Y Z = arena b1 X Y Z"
      "side_rep b2 plv l = side_rep b1 plv l" "level_rep b2 level1 p q' = level_rep b1 level1 p q'"
      "untouched A b b2" for i X Y Z plv l
      using b1(3) by (simp_all add: b2_def untouched_def)
    have "loop inc b ts = loop inc1 b2 (ts @ ts2)"
      using False lvls lp run Cons.prems(2) level_rep_empty [OF q'(1)]
      by (subst loop_eq) (auto simp: b2_def)
    note run2 = this
    have opp: "pool_levels b2 (opposite s) = pool_levels b (opposite s)"
      using b1(4) by (simp add: b2_def)
    show ?thesis
    proof (cases "os1 = []")
      case True
      then have "q' = []" using q'(3) by simp
      obtain ts3 where m: "lv_match inc1 (resolve (heap b) lv) = (ts3, inc', lvs')"
        and ts1: "ts1 = ts2 @ ts3"
        using Cons.prems(5) l False fill True by (auto split: prod.splits)
      have "\<exists>b' lv' F'. loop inc1 b2 (ts @ ts2) = Some (inc', b', (ts @ ts2) @ ts3)
        \<and> side_rep b' (pool_levels b' s) lv' \<and> resolve (heap b') lv' = lvs'
        \<and> pool_levels b' (opposite s) = pool_levels b2 (opposite s)
        \<and> arena b' A (addrs lv') F' \<and> set (addrs lv') \<union> set F' = set (addrs lv) \<union> set F1
        \<and> untouched A b2 b'"
      proof (rule Cons.IH)
        show "side_rep b2 (pool_levels b2 s) lv"
          using rep1 \<open>q' = []\<close> unfolding b2 by (simp add: b2_def)
        show "levels_ok s (resolve (heap b2) lv)" using Cons.prems(3) l rest by (simp add: b2)
        show "arena b2 A (addrs lv) F1"
          unfolding b2 using b1(1) Cons.prems(4) l \<open>q' = []\<close> by (auto simp: arena_def)
        show "lv_match inc1 (resolve (heap b2) lv) = (ts3, inc', lvs')" using m rest by (simp add: b2)
      qed (rule side1)
      moreover have "set (addrs lv) \<union> set F1 = set (addrs (l # lv)) \<union> set F"
        using b1(2) \<open>q' = []\<close> l by auto
      ultimately show ?thesis
        using run2 ts1 opp untouched_trans [OF b2(6)] by (metis append_assoc)
    next
      case part: False
      then have "q' \<noteq> []" using q'(3) by simp
      then have zero: "remaining_quantity inc1 = 0" using b1(5) by simp
      have res: "ts1 = ts2" "inc' = inc1" "lvs' = (p, os1) # resolve (heap b) lv"
        using Cons.prems(5) l False fill part by (auto split: prod.splits)
      have "loop inc1 b2 (ts @ ts2) = Some (inc1, b2, ts @ ts2)"
        by (rule loop_stop) (use side1 zero in auto)
      moreover have "side_rep b2 (pool_levels b2 s) ((p, q') # lv)"
        using rep1 q'(1) \<open>q' \<noteq> []\<close> by (simp add: b2) (simp add: b2_def)
      moreover have "distinct (addrs lv)" "set (addrs lv) \<inter> A = {}"
        using Cons.prems(4) l by (auto simp: arena_def)
      then have "arena b2 A (addrs ((p, q') # lv)) F1"
        unfolding b2 using b1(1) by (auto simp: arena_def Un_assoc)
      moreover have "set (addrs ((p, q') # lv)) \<union> set F1 = set (addrs (l # lv)) \<union> set F"
        using b1(2) l by auto
      moreover have "resolve (heap b2) ((p, q') # lv) = lvs'"
        using res q'(3) rest by (simp add: b2)
      ultimately show ?thesis
        using run2 res opp b2(6)
        by (intro exI [of _ b2] exI [of _ "(p, q') # lv"] exI [of _ F1]) simp
    qed
  qed
qed

lemma loop_rep:
  assumes rep: "pool_rep b Q F" and side: "side inc = opposite s"
    and m: "lob_match inc (rep_abs b Q s) = (ts1, inc', rest)"
  shows "\<exists>b' Q' F'. loop inc b ts = Some (inc', b', ts @ ts1) \<and> pool_rep b' Q' F'
    \<and> rep_abs b' Q' = (rep_abs b Q)(s := rest) \<and> length (nodes b') = length (nodes b)"
proof -
  let ?opp = "opposite s" and ?lv = "Q s"
  note r = rep [unfolded pool_rep_side [of b Q F s]]
  obtain ts2 inc2 lvs2 where lm: "lv_match inc (resolve (heap b) ?lv) = (ts2, inc2, lvs2)"
    by (cases "lv_match inc (resolve (heap b) ?lv)")
  have ok: "levels_ok s (resolve (heap b) ?lv)" and srep: "side_rep b (pool_levels b s) ?lv"
    and ar: "arena b (set (addrs (Q ?opp))) (addrs ?lv) F" using r by simp_all
  note fl = lv_match_flat [OF ok lm]
  have eqs: "ts2 = ts1" "inc2 = inc'" "flat lvs2 = rest"
    using fl(1) m by (simp_all add: rep_abs_def)
  obtain b' lv' F' where run: "loop inc b ts = Some (inc2, b', ts @ ts2)"
    and b': "side_rep b' (pool_levels b' s) lv'" "resolve (heap b') lv' = lvs2"
      "pool_levels b' ?opp = pool_levels b ?opp" "arena b' (set (addrs (Q ?opp))) (addrs lv') F'"
      "set (addrs lv') \<union> set F' = set (addrs ?lv) \<union> set F" "untouched (set (addrs (Q ?opp))) b b'"
    using loop_sim [OF srep side ok ar lm, of ts] by blast
  have opp: "resolve (heap b') (Q ?opp) = resolve (heap b) (Q ?opp)"
    "side_rep b' (pool_levels b' ?opp) (Q ?opp)"
    using r b'(3) set_cong_untouched [OF b'(6)] side_rep_untouched [OF b'(6)] by simp_all
  have "set (addrs lv') \<union> set (addrs (Q ?opp)) \<union> set F' = slots b'"
    using r b'(5) untouched_slots [OF b'(6)] by auto
  then have "pool_rep b' (Q(s := lv')) F'"
    using r b' opp fl(2) unfolding pool_rep_side [of _ _ _ s] by (auto simp: untouched_def)
  moreover have "rep_abs b' (Q(s := lv')) = (rep_abs b Q)(s := rest)"
    by (rule lob_eqI [of _ s]) (simp_all add: rep_abs_def b'(2) eqs opp(1))
  ultimately show ?thesis
    using run eqs b'(6) unfolding untouched_def by blast
qed

end

interpretation pool_buying: pool_loop pool_match_buy Sell
proof
  fix inc :: order and b ts
  assume "side inc = opposite Sell"
  then show "pool_match_buy inc b ts =
    (case pool_levels b Sell of
       [] \<Rightarrow> Some (inc, b, ts)
     | (p, level) # others \<Rightarrow>
         if remaining_quantity inc = 0 \<or> \<not> crosses inc (level_price level) then Some (inc, b, ts)
         else do {
           (inc, level, b, ts) \<leftarrow> pool_match_level (side inc) inc level b ts;
           pool_match_buy inc (set_pool_levels Sell (if level_empty level then others else (p, level) # others) b) ts
         })"
    by (subst pool_match_buy.simps)
      (auto simp: crosses_def word_pos_iff split: list.split intro!: Option.bind_cong)
qed

interpretation pool_selling: pool_loop pool_match_sell Buy
proof
  fix inc :: order and b ts
  assume "side inc = opposite Buy"
  then show "pool_match_sell inc b ts =
    (case pool_levels b Buy of
       [] \<Rightarrow> Some (inc, b, ts)
     | (p, level) # others \<Rightarrow>
         if remaining_quantity inc = 0 \<or> \<not> crosses inc (level_price level) then Some (inc, b, ts)
         else do {
           (inc, level, b, ts) \<leftarrow> pool_match_level (side inc) inc level b ts;
           pool_match_sell inc (set_pool_levels Buy (if level_empty level then others else (p, level) # others) b) ts
         })"
    by (subst pool_match_sell.simps)
      (auto simp: crosses_def word_pos_iff split: list.split intro!: Option.bind_cong)
qed

lemma pool_match_rep:
  assumes "pool_rep b Q F" "lob_match inc (rep_abs b Q (opposite (side inc))) = (ts1, inc', rest)"
  shows "\<exists>b' Q' F'. (if side inc = Buy then pool_match_buy inc b ts else pool_match_sell inc b ts)
      = Some (inc', b', ts @ ts1)
    \<and> pool_rep b' Q' F' \<and> rep_abs b' Q' = (rep_abs b Q)(opposite (side inc) := rest)
    \<and> length (nodes b') = length (nodes b)"
proof (cases "side inc")
  case Buy
  with assms pool_buying.loop_rep [of b Q F inc ts1 inc' rest ts] show ?thesis by simp
next
  case Sell
  with assms pool_selling.loop_rep [of b Q F inc ts1 inc' rest ts] show ?thesis by simp
qed

section \<open>Writing a level back\<close>

lemma side_rep_lookup:
  assumes "side_rep b plv lv"
  shows "map_of plv p = None \<longleftrightarrow> map_of lv p = None"
    "map_of plv p = Some level \<Longrightarrow> level_rep b level p (level_at p lv)"
proof -
  have "(map_of plv p = None \<longleftrightarrow> map_of lv p = None)
    \<and> (\<forall>level. map_of plv p = Some level \<longrightarrow> level_rep b level p (level_at p lv))"
    using assms
  proof (induction plv arbitrary: lv)
    case (Cons e plv)
    then show ?case by (cases lv; cases e; cases "hd lv") (auto simp: level_at_def)
  qed simp
  then show "map_of plv p = None \<longleftrightarrow> map_of lv p = None"
    "map_of plv p = Some level \<Longrightarrow> level_rep b level p (level_at p lv)"
    by auto
qed

lemma side_rep_put:
  assumes "side_rep b plv lv" "omap_sorted (price_before s) lv" "level_rep b' level p q"
    and "\<And>k r i. (k, r) \<in> set lv \<Longrightarrow> k \<noteq> p \<Longrightarrow> i \<in> set r \<Longrightarrow> node_at i b' = node_at i b"
  shows "side_rep b' (omap_put (price_before s) p level plv) (omap_put (price_before s) p q lv)"
  using assms
proof (induction plv arbitrary: lv)
  case (Cons e plv)
  obtain k l where e: "e = (k, l)" by (cases e)
  obtain r lv' where lv: "lv = (k, r) # lv'" and rep: "level_rep b l k r" "side_rep b plv lv'"
    using Cons.prems(1) e by (cases lv) auto
  have sorted: "omap_sorted (price_before s) lv'" "\<forall>k' \<in> fst ` set lv'. price_before s k k'"
    using Cons.prems(2) lv by auto
  have tail: "side_rep b' plv lv'" if "\<forall>k' \<in> fst ` set lv'. k' \<noteq> p"
  proof -
    have "node_at i b' = node_at i b" if i: "i \<in> set (addrs lv')" for i
    proof -
      obtain k' r' where kr: "(k', r') \<in> set lv'" "i \<in> set r'" using i by (auto simp: addrs_def)
      then have "k' \<noteq> p" using \<open>\<forall>k' \<in> fst ` set lv'. k' \<noteq> p\<close> by force
      with kr Cons.prems(4) [of k' r' i] lv show ?thesis by simp
    qed
    with rep(2) side_rep_cong show ?thesis by blast
  qed
  have head: "level_rep b' l k r" if "k \<noteq> p"
    using rep(1) Cons.prems(4) [of k r] that lv by (subst level_rep_cong [of r b' b]) auto
  have IH: "side_rep b' (omap_put (price_before s) p level plv) (omap_put (price_before s) p q lv')"
    using Cons.IH [OF rep(2) sorted(1) Cons.prems(3)] Cons.prems(4) lv by auto
  consider "k = p" | "k \<noteq> p" "price_before s p k" | "k \<noteq> p" "\<not> price_before s p k" by blast
  then show ?case
  proof cases
    case 1
    then have "\<forall>k' \<in> fst ` set lv'. k' \<noteq> p" using sorted(2) by auto
    with 1 tail Cons.prems(3) show ?thesis by (simp add: e lv)
  next
    case 2
    then have "\<forall>k' \<in> fst ` set lv'. k' \<noteq> p"
      using sorted(2) lv.asym [of s p k] by auto
    with 2 tail head Cons.prems(3) show ?thesis by (simp add: e lv)
  next
    case 3
    with head IH show ?thesis by (simp add: e lv)
  qed
qed simp

lemma side_rep_delete:
  assumes "side_rep b plv lv"
    and "\<And>k r i. (k, r) \<in> set lv \<Longrightarrow> k \<noteq> p \<Longrightarrow> i \<in> set r \<Longrightarrow> node_at i b' = node_at i b"
  shows "side_rep b' (AList.delete p plv) (AList.delete p lv)"
  using assms
proof (induction plv arbitrary: lv)
  case (Cons e plv)
  obtain k l where e: "e = (k, l)" by (cases e)
  obtain r lv' where lv: "lv = (k, r) # lv'" and rep: "level_rep b l k r" "side_rep b plv lv'"
    using Cons.prems(1) e by (cases lv) auto
  have "side_rep b' (AList.delete p plv) (AList.delete p lv')"
    using Cons.IH [OF rep(2)] Cons.prems(2) lv by auto
  moreover have "level_rep b' l k r" if "k \<noteq> p"
    using rep(1) Cons.prems(2) [of k r] that lv by (subst level_rep_cong [of r b' b]) auto
  ultimately show ?case by (simp add: e lv)
qed simp

section \<open>Resting an order\<close>

definition pool_rest_on :: "side \<Rightarrow> order \<Rightarrow> idx \<Rightarrow> pool_book \<Rightarrow> pool_book option" where
  "pool_rest_on s ord i b =
     do {
       let level = (case map_of (pool_levels b s) (price ord) of None \<Rightarrow> default_level | Some l \<Rightarrow> l);
       (level, b) \<leftarrow> append_to_level (level\<lparr>level_price := price ord\<rparr>) i b;
       Some (set_pool_levels s (omap_put (price_before s) (price ord) level (pool_levels b s)) b)
     }"

lemma pool_rest_bid_on: "pool_rest_bid ord i b = pool_rest_on Buy ord i b"
  by (simp add: pool_rest_bid_def pool_rest_on_def)

lemma pool_rest_ask_on: "pool_rest_ask ord i b = pool_rest_on Sell ord i b"
  by (simp add: pool_rest_ask_def pool_rest_on_def)

text \<open>The level an order goes to, as \<^verbatim>\<open>operator[]\<close> finds or creates it.\<close>

lemma target_level:
  assumes "side_rep b plv lv"
  shows "level_rep b ((case map_of plv p of None \<Rightarrow> default_level | Some l \<Rightarrow> l)\<lparr>level_price := p\<rparr>)
    p (level_at p lv)"
proof (cases "map_of plv p")
  case None
  then have "level_at p lv = []"
    using side_rep_lookup(1) [OF assms] by (simp add: level_at_def)
  with None show ?thesis by (simp add: level_rep_def default_level_def)
next
  case (Some l)
  with side_rep_lookup(2) [OF assms Some] show ?thesis by (simp add: level_rep_def)
qed

lemma pool_rest_on_rep:
  assumes srep: "side_rep b (pool_levels b s) lv" and sorted: "omap_sorted (price_before s) lv"
    and dist: "distinct (addrs lv)" and i: "i \<notin> set (addrs lv)" "i \<noteq> INVALID_IDX"
    and ord: "heap b i = Some ord"
  shows "\<exists>b'. pool_rest_on s ord i b = Some b'
    \<and> side_rep b' (pool_levels b' s)
        (omap_put (price_before s) (price ord) (level_at (price ord) lv @ [i]) lv)
    \<and> pool_levels b' (opposite s) = pool_levels b (opposite s) \<and> heap b' = heap b
    \<and> (\<forall>j. j \<notin> set (addrs lv) \<longrightarrow> j \<noteq> i \<longrightarrow> node_at j b' = node_at j b)
    \<and> length (nodes b') = length (nodes b) \<and> free_head b' = free_head b
    \<and> pool_index b' = pool_index b"
proof -
  let ?p = "price ord" and ?plv = "pool_levels b s"
  let ?q = "level_at ?p lv"
  let ?l0 = "(case map_of ?plv ?p of None \<Rightarrow> default_level | Some l \<Rightarrow> l)\<lparr>level_price := ?p\<rparr>"
  have "i \<notin> set ?q" using i level_at_subset [of ?p lv] by blast
  then obtain level' b3 where ap: "append_to_level ?l0 i b = Some (level', b3)"
    "level_rep b3 level' ?p (?q @ [i])" "links_frame (set (?q @ [i])) b b3"
    using append_to_level_correct [OF target_level [OF srep] _ i(2) ord] by blast
  note f = ap(3) [unfolded links_frame_def]
  have lv3: "pool_levels b3 s' = pool_levels b s'" for s'
    by (rule links_frame_levels [OF ap(3)])
  have at: "node_at j b3 = node_at j b" if "j \<notin> set (?q @ [i])" for j
    using f that by blast
  let ?b' = "set_pool_levels s (omap_put (price_before s) ?p level' ?plv) b3"
  have "pool_rest_on s ord i b = Some ?b'"
    by (simp add: pool_rest_on_def ap(1) lv3 Let_def)
  moreover have "side_rep b3 (omap_put (price_before s) ?p level' ?plv)
      (omap_put (price_before s) ?p (?q @ [i]) lv)"
  proof (rule side_rep_put [OF srep sorted ap(2)])
    fix k r j assume kr: "(k, r) \<in> set lv" "k \<noteq> ?p" "j \<in> set r"
    then have "j \<notin> set ?q" by (rule other_levels [OF dist])
    moreover have "j \<noteq> i" using kr i(1) level_in_addrs [of k r lv] by blast
    ultimately show "node_at j b3 = node_at j b" by (intro at) simp
  qed
  moreover have "\<forall>j. j \<notin> set (addrs lv) \<longrightarrow> j \<noteq> i \<longrightarrow> node_at j b3 = node_at j b"
    using at level_at_subset [of ?p lv] by auto
  ultimately show ?thesis using f lv3 by simp
qed

lemma pool_insert_rep:
  assumes rep: "pool_rep b Q F" and fits: "F = [] \<Longrightarrow> grown (length (nodes b)) < 2 ^ 32"
    and side: "side ord = s" and new: "map_of (pool_index b) (order_id ord) = None"
  shows "\<exists>i b1 b' Q' F'. allocate_node ord b = Some (i, b1)
    \<and> pool_rest_on s ord i (b1\<lparr>pool_index := AList.update (order_id ord) i (pool_index b1)\<rparr>) = Some b'
    \<and> pool_rep b' Q' F' \<and> rep_abs b' Q' = (rep_abs b Q)(s := lob_insert ord (rep_abs b Q s))"
proof -
  let ?lv = "Q s" and ?opp = "opposite s"
  let ?live = "set (addrs ?lv) \<union> set (addrs (Q ?opp))"
  note r = rep [unfolded pool_rep_side [of b Q F s]]
  have ar: "arena b (set (addrs (Q ?opp))) (addrs ?lv) F" using r by (elim conjE)
  note a = ar [unfolded arena_def]
  obtain i b1 F' where al: "allocate_node ord b = Some (i, b1)" "free_chain b1 (free_head b1) F'"
    "distinct (i # F')" "i \<noteq> INVALID_IDX" "set (i # F') = set F \<union> (slots b1 - slots b)"
    "slots b \<subseteq> slots b1" "heap b1 i = Some ord"
    "\<forall>j \<in> slots b. j \<noteq> i \<longrightarrow> node_at j b1 = node_at j b" "pool_index b1 = pool_index b"
    "pool_bids b1 = pool_bids b" "pool_asks b1 = pool_asks b"
    "length (nodes b1) = (if F = [] then grown (length (nodes b)) else length (nodes b))"
    using allocate_node_correct [of b F ord] a fits by auto
  have slots: "?live \<subseteq> slots b" "?live \<inter> set F = {}" "?live \<union> set F = slots b" using r a by auto
  have i: "i \<notin> ?live" "?live \<inter> set F' = {}"
    using slots(1,2) al(5) by auto
  define b2 where "b2 = b1\<lparr>pool_index := AList.update (order_id ord) i (pool_index b1)\<rparr>"
  have at2: "node_at j b2 = node_at j b" if "j \<in> ?live" for j
  proof -
    have "j \<in> slots b" "j \<noteq> i" using that slots(1) i(1) by auto
    with al(8) show ?thesis by (simp add: b2_def)
  qed
  have lv2: "pool_levels b2 s' = pool_levels b s'" for s' using al(10,11) by (cases s') (simp_all add: b2_def)
  have srep: "side_rep b2 (pool_levels b2 s) ?lv" "side_rep b2 (pool_levels b2 ?opp) (Q ?opp)"
  proof -
    have "side_rep b2 (pool_levels b2 s') (Q s') \<longleftrightarrow> side_rep b (pool_levels b s') (Q s')"
      if "set (addrs (Q s')) \<subseteq> ?live" for s'
      unfolding lv2 by (rule side_rep_cong) (use at2 that in blast)
    then show "side_rep b2 (pool_levels b2 s) ?lv" "side_rep b2 (pool_levels b2 ?opp) (Q ?opp)"
      using r by simp_all
  qed
  have heap2: "heap b2 i = Some ord" using al(7) by (simp add: b2_def heap_def)
  have dist: "distinct (addrs ?lv)" and lok: "levels_ok s (resolve (heap b) ?lv)" using r a by simp_all
  note sorted = levels_ok_omap_sorted [OF lok]
  let ?lv' = "omap_put (price_before s) (price ord) (level_at (price ord) ?lv @ [i]) ?lv"
  obtain b' where b': "pool_rest_on s ord i b2 = Some b'" "side_rep b' (pool_levels b' s) ?lv'"
    "pool_levels b' ?opp = pool_levels b2 ?opp" "heap b' = heap b2"
    "\<forall>j. j \<notin> set (addrs ?lv) \<longrightarrow> j \<noteq> i \<longrightarrow> node_at j b' = node_at j b2"
    "length (nodes b') = length (nodes b2)" "free_head b' = free_head b2"
    "pool_index b' = pool_index b2"
    using pool_rest_on_rep [OF srep(1) sorted dist _ al(4) heap2] i(1) by auto
  have heap': "heap b' i = Some ord" "\<And>j. j \<in> ?live \<Longrightarrow> heap b' j = heap b j"
    using b'(4) heap2 at2 by (simp_all add: heap_def)
  obtain l1 l2 where l: "addrs ?lv = l1 @ l2" "addrs ?lv' = l1 @ i # l2"
    by (rule append_level [OF sorted])
  have res: "resolve (heap b') ?lv' = lv_rest s ord (resolve (heap b) ?lv)"
    by (rule resolve_append) (use heap' in auto)
  have opp: "resolve (heap b') (Q ?opp) = resolve (heap b) (Q ?opp)"
    by (rule resolve_cong) (use heap' in auto)
  have opp_disj: "set (addrs ?lv) \<inter> set (addrs (Q ?opp)) = {}" using a by auto
  have srep_opp: "side_rep b' (pool_levels b' ?opp) (Q ?opp)"
  proof -
    have "side_rep b' (pool_levels b' ?opp) (Q ?opp) \<longleftrightarrow> side_rep b2 (pool_levels b' ?opp) (Q ?opp)"
    proof (rule side_rep_cong)
      fix j assume "j \<in> set (addrs (Q ?opp))"
      then have "j \<notin> set (addrs ?lv)" "j \<noteq> i" using opp_disj i(1) by blast+
      then show "node_at j b' = node_at j b2" using b'(5) by blast
    qed
    then show ?thesis using srep(2) b'(3) by simp
  qed
  have "free_chain b' (free_head b') F'"
  proof (subst free_chain_cong [of F' b' b1])
    show "node_at j b' = node_at j b1" if "j \<in> set F'" for j
      using that b'(5) i(2) al(3) by (auto simp: b2_def)
    show "free_chain b1 (free_head b') F'" using al(2) b'(7) by (simp add: b2_def)
  qed
  moreover have "index_ok (insert i ?live) (heap b') ((map_of (pool_index b))(order_id ord \<mapsto> i))"
    by (rule index_ok_insert [where h = "heap b"]) (use a heap' i(1) new in auto)
  then have "index_ok (set (addrs ?lv') \<union> set (addrs (Q ?opp))) (heap b') (map_of (pool_index b'))"
    unfolding b'(8) using l al(9) by (simp add: b2_def)
  moreover have "distinct (map fst (pool_index b'))"
    using a al(9) unfolding b'(8) by (simp add: b2_def distinct_update)
  moreover have "distinct (addrs ?lv' @ F')"
    using dist l i al(3) by auto
  moreover have "set (addrs (Q ?opp)) \<inter> set (addrs ?lv' @ F') = {}"
    using l i opp_disj by auto
  ultimately have "arena b' (set (addrs (Q ?opp))) (addrs ?lv') F'"
    unfolding arena_def by blast
  moreover have "set (addrs ?lv') \<union> set (addrs (Q ?opp)) \<union> set F' = slots b'"
  proof -
    have "set (addrs ?lv') \<union> set (addrs (Q ?opp)) \<union> set F' = ?live \<union> set (i # F')"
      using l by auto
    also have "\<dots> = slots b1" using slots(3) al(5,6) by auto
    also have "\<dots> = slots b'" using b'(6) by (simp add: slots_def b2_def)
    finally show ?thesis .
  qed
  moreover have "length (nodes b') < 2 ^ 32"
    using b'(6) al(12) fits r by (simp add: b2_def split: if_splits)
  ultimately have "pool_rep b' (Q(s := ?lv')) F'"
    using r b'(2) srep_opp lv_rest_correct(2) [OF lok side]
    unfolding pool_rep_side [of _ _ _ s] by (simp add: res opp)
  moreover have "rep_abs b' (Q(s := ?lv')) = (rep_abs b Q)(s := lob_insert ord (rep_abs b Q s))"
    using lv_rest_correct(1) [OF lok side]
    by (intro lob_eqI [of _ s]) (simp_all add: rep_abs_def res opp)
  ultimately show ?thesis using al(1) b'(1) unfolding b2_def by blast
qed

section \<open>Abstraction and invariant\<close>

text \<open>Following \<^verbatim>\<open>next_idx\<close>; the number of slots bounds every queue, so it is fuel enough.\<close>

fun walk :: "nat \<Rightarrow> pool_book \<Rightarrow> idx \<Rightarrow> idx list" where
  "walk 0 b i = []"
| "walk (Suc k) b i =
     (if i = INVALID_IDX then []
      else case node_at i b of None \<Rightarrow> [] | Some n \<Rightarrow> i # walk k b (next_idx n))"

definition pool_queues :: "pool_book \<Rightarrow> side \<Rightarrow> idx alevels" where
  "pool_queues b s = map (\<lambda>(p, level). (p, walk (length (nodes b)) b (head_idx level))) (pool_levels b s)"

definition pool_free :: "pool_book \<Rightarrow> idx list" where
  "pool_free b = walk (length (nodes b)) b (free_head b)"

definition pool_abs :: "pool_book \<Rightarrow> lob" where
  "pool_abs b = rep_abs b (pool_queues b)"

definition pool_inv :: "pool_book \<Rightarrow> bool" where
  "pool_inv b \<longleftrightarrow> pool_rep b (pool_queues b) (pool_free b) \<and> lob_inv (pool_abs b)"

lemma walk_INVALID [simp]: "walk k b INVALID_IDX = []"
  by (cases k) simp_all

lemma walk_seg:
  "seg b p q INVALID_IDX \<Longrightarrow> INVALID_IDX \<notin> set q \<Longrightarrow> length q \<le> k \<Longrightarrow>
   walk k b (hd (q @ [INVALID_IDX])) = q"
proof (induction q arbitrary: p k)
  case (Cons i q)
  then show ?case by (cases k) auto
qed simp

lemma walk_free_chain: "free_chain b i F \<Longrightarrow> length F \<le> k \<Longrightarrow> walk k b i = F"
proof (induction F arbitrary: i k)
  case (Cons j F)
  then show ?case by (cases k) auto
qed simp

lemma length_slots:
  assumes "distinct q" "set q \<subseteq> slots b" "length (nodes b) < 2 ^ 32"
  shows "length q \<le> length (nodes b)"
  using card_mono [OF _ assms(2)] distinct_card [OF assms(1)] card_slots [OF assms(3)] by simp

lemma walk_levels:
  assumes "side_rep b plv lv" "length (nodes b) < 2 ^ 32"
  shows "map (\<lambda>(p, level). (p, walk (length (nodes b)) b (head_idx level))) plv = lv"
  using assms(1)
proof (induction plv arbitrary: lv)
  case (Cons e plv)
  obtain p level where e: "e = (p, level)" by (cases e)
  obtain q lv' where lv: "lv = (p, q) # lv'" "level_rep b level p q" "side_rep b plv lv'"
    using Cons.prems e by (cases lv) auto
  have "length q \<le> length (nodes b)"
    using lv(2) level_rep_slots [OF lv(2)] by (intro length_slots assms(2)) (simp_all add: level_rep_def)
  then have "walk (length (nodes b)) b (head_idx level) = q"
    using lv(2) walk_seg [of b INVALID_IDX q] by (simp add: level_rep_def)
  with Cons.IH [OF lv(3)] show ?case by (simp add: e lv(1))
qed simp

text \<open>The links determine the queues and the free list.\<close>

lemma pool_rep_unique:
  assumes "pool_rep b Q F"
  shows "pool_queues b = Q" "pool_free b = F"
proof -
  have len: "length (nodes b) < 2 ^ 32" using assms by (simp add: pool_rep_def)
  show "pool_queues b = Q"
    using assms walk_levels [OF _ len] by (intro ext) (simp add: pool_rep_def pool_queues_def)
  have "free_chain b (free_head b) F" "distinct F" "set F \<subseteq> slots b"
    using assms by (auto simp: pool_rep_def arena_def)
  then show "pool_free b = F"
    unfolding pool_free_def by (intro walk_free_chain length_slots len)
qed

lemma pool_rep_abs: "pool_rep b Q F \<Longrightarrow> pool_abs b = rep_abs b Q"
  by (simp add: pool_abs_def pool_rep_unique)

lemma pool_invI: "pool_rep b Q F \<Longrightarrow> lob_inv (rep_abs b Q) \<Longrightarrow> pool_inv b"
  by (simp add: pool_inv_def pool_rep_abs pool_rep_unique)

lemma pool_rep_orders:
  "lob_orders (rep_abs b Q) = map (\<lambda>i. the (heap b i)) (addrs (Q Buy) @ addrs (Q Sell))"
  by (simp add: lob_orders_def rep_abs_def flat_resolve)

lemma pool_rep_index:
  assumes "pool_rep b Q F"
  shows "index_ok (set (addrs (Q Buy) @ addrs (Q Sell))) (heap b) (map_of (pool_index b))"
    "distinct (addrs (Q Buy) @ addrs (Q Sell))" "distinct (map fst (pool_index b))"
  using assms by (auto simp: pool_rep_def arena_def)

lemma pool_rep_ids:
  assumes "pool_rep b Q F"
  shows "i \<in> lob_ids (rep_abs b Q) \<longleftrightarrow> map_of (pool_index b) i \<noteq> None"
proof -
  have "lob_ids (rep_abs b Q) = dom (map_of (pool_index b))"
    using index_ok_ids [OF pool_rep_index(1) [OF assms]] by (simp add: lob_ids_def pool_rep_orders)
  then show ?thesis by auto
qed

lemma index_ok_length:
  assumes "index_ok (set as) h (map_of ix)" "distinct as" "distinct (map fst ix)"
  shows "length ix = length as"
proof -
  have "dom (map_of ix) = set (map order_id (map (\<lambda>a. the (h a)) as))"
    using index_ok_ids [OF assms(1)] by (simp only: set_map)
  moreover have "card (set (map order_id (map (\<lambda>a. the (h a)) as))) = length as"
    using distinct_card [OF index_ok_distinct_ids [OF assms(1,2)]] by simp
  ultimately show ?thesis
    using card_dom_map_of [OF assms(3)] by simp
qed

lemma pool_rep_total:
  assumes "pool_rep b Q F"
  shows "length (pool_index b) = length (lob_orders (rep_abs b Q))"
  using index_ok_length [OF pool_rep_index [OF assms]] by (simp add: pool_rep_orders)

text \<open>Every slot is in a queue or free, so an exhausted pool holds one live order per slot.\<close>

lemma pool_rep_slots:
  assumes "pool_rep b Q F"
  shows "length (nodes b) = length (pool_index b) + length F"
proof -
  have "distinct ((addrs (Q Buy) @ addrs (Q Sell)) @ F)"
    "set ((addrs (Q Buy) @ addrs (Q Sell)) @ F) = slots b" "length (nodes b) < 2 ^ 32"
    using assms by (auto simp: pool_rep_def arena_def)
  then have "length ((addrs (Q Buy) @ addrs (Q Sell)) @ F) = length (nodes b)"
    by (metis card_slots distinct_card)
  then show ?thesis
    using index_ok_length [OF pool_rep_index [OF assms]] by simp
qed

definition pool_room :: "nat \<Rightarrow> pool_book \<Rightarrow> bool" where
  "pool_room n b \<longleftrightarrow> pool_total_orders b + n \<le> 2 ^ 31"

section \<open>Submitting\<close>

lemma lob_submit_size:
  assumes "lob_submit ord bk = (ok, ts, bk')"
  shows "length (lob_orders bk') \<le> Suc (length (lob_orders bk))"
proof (cases "acceptable ord \<and> order_id ord \<notin> lob_ids bk")
  case False
  with assms show ?thesis by (auto simp: lob_submit_def)
next
  case True
  let ?opp = "opposite (side ord)"
  obtain ord' rest where m: "lob_match (normalise ord) (bk ?opp) = (ts, ord', rest)"
    and bk': "bk' = lob_settle ord' (bk(?opp := rest))"
    using assms True by (auto simp: lob_submit_def Let_def split: prod.splits)
  have "length rest \<le> length (bk ?opp)"
    by (rule lob_match_rest [OF m]) (metis length_map suffix_length_le)
  moreover have "length (lob_insert x xs) = Suc (length xs)" for x xs
    by (metis mset_lob_insert size_add_mset size_mset)
  ultimately show ?thesis
    using lob_match_frame_sel(3) [OF m]
    by (cases "side ord") (auto simp: bk' lob_settle_def lob_orders_def)
qed

lemma pool_settle_rep:
  assumes rep: "pool_rep b Q F" and new: "order_id ord \<notin> lob_ids (rep_abs b Q)"
    and room: "length (pool_index b) < 2 ^ 31"
    and rest: "remaining_quantity ord \<noteq> 0" "otype ord = Limit"
  shows "\<exists>i b1 b' Q' F'. allocate_node ord b = Some (i, b1)
    \<and> (if side ord = Buy
       then pool_rest_bid ord i (b1\<lparr>pool_index := AList.update (order_id ord) i (pool_index b1)\<rparr>)
       else pool_rest_ask ord i (b1\<lparr>pool_index := AList.update (order_id ord) i (pool_index b1)\<rparr>)) = Some b'
    \<and> pool_rep b' Q' F' \<and> rep_abs b' Q' = lob_settle ord (rep_abs b Q)"
proof -
  have fits: "grown (length (nodes b)) < 2 ^ 32" if "F = []"
    using pool_rep_slots [OF rep] room that by (simp add: grown_def)
  have "map_of (pool_index b) (order_id ord) = None"
    using new pool_rep_ids [OF rep] by simp
  from pool_insert_rep [OF rep fits refl this]
  obtain i b1 b' Q' F' where r: "allocate_node ord b = Some (i, b1)"
    "pool_rest_on (side ord) ord i (b1\<lparr>pool_index := AList.update (order_id ord) i (pool_index b1)\<rparr>) = Some b'"
    "pool_rep b' Q' F'"
    "rep_abs b' Q' = (rep_abs b Q)(side ord := lob_insert ord (rep_abs b Q (side ord)))"
    by blast
  have "(if side ord = Buy then pool_rest_bid ord i x else pool_rest_ask ord i x)
      = pool_rest_on (side ord) ord i x" for x
    by (cases "side ord") (simp_all add: pool_rest_bid_on pool_rest_ask_on)
  with r rest show ?thesis by (simp add: lob_settle_def) blast
qed

lemma pool_submit_unfold:
  assumes "pool_rep b Q F"
  shows "pool_submit_order ord ts b =
    (if \<not> acceptable ord \<or> order_id ord \<in> lob_ids (rep_abs b Q) then Some (False, ts, b)
     else do {
       (ord, b, ts) \<leftarrow> (if side (normalise ord) = Buy then pool_match_buy (normalise ord) b ts
                       else pool_match_sell (normalise ord) b ts);
       if remaining_quantity ord > 0 \<and> otype ord = Limit then
         do {
           (i, b) \<leftarrow> allocate_node ord b;
           b \<leftarrow> (if side ord = Buy
             then pool_rest_bid ord i (b\<lparr>pool_index := AList.update (order_id ord) i (pool_index b)\<rparr>)
             else pool_rest_ask ord i (b\<lparr>pool_index := AList.update (order_id ord) i (pool_index b)\<rparr>));
           Some (True, ts, b)
         }
       else Some (True, ts, b)
     })"
  unfolding pool_submit_order_def pool_rep_ids [OF assms] acceptable_def Let_def
    normalise_def [symmetric] by (simp add: normalise_sel)

lemma pool_submit_rep:
  assumes rep: "pool_rep b Q F" and room: "length (pool_index b) < 2 ^ 31"
    and lob: "lob_submit ord (rep_abs b Q) = (ok, ts1, bk')"
  shows "\<exists>b' Q' F'. pool_submit_order ord ts b = Some (ok, ts @ ts1, b') \<and> pool_rep b' Q' F'
    \<and> rep_abs b' Q' = bk'"
proof (cases "acceptable ord \<and> order_id ord \<notin> lob_ids (rep_abs b Q)")
  case False
  with lob rep show ?thesis
    by (auto simp: pool_submit_unfold [OF rep] lob_submit_def)
next
  case True
  let ?opp = "opposite (side ord)" and ?bk = "rep_abs b Q"
  obtain ord' rest where m: "lob_match (normalise ord) (?bk ?opp) = (ts1, ord', rest)"
    and res: "ok" "bk' = lob_settle ord' (?bk(?opp := rest))"
    using lob True by (auto simp: lob_submit_def Let_def split: prod.splits)
  have "lob_match (normalise ord) (?bk (opposite (side (normalise ord)))) = (ts1, ord', rest)"
    using m by simp
  then obtain b1 Q1 F1 where run: "(if side (normalise ord) = Buy then pool_match_buy (normalise ord) b ts
      else pool_match_sell (normalise ord) b ts) = Some (ord', b1, ts @ ts1)"
    and b1: "pool_rep b1 Q1 F1" "rep_abs b1 Q1 = ?bk(?opp := rest)"
    using pool_match_rep [OF rep, of "normalise ord" ts1 ord' rest ts] by auto
  have "order_id ` set rest \<subseteq> order_id ` set (?bk ?opp)"
    by (rule lob_match_rest [OF m]) (metis list.set_map set_mono_suffix)
  then have new: "order_id ord' \<notin> lob_ids (rep_abs b1 Q1)"
    using True lob_match_frame_sel(1) [OF m] b1(2)
    by (auto simp: lob_ids_side [of _ "side ord"])
  have "length rest \<le> length (?bk ?opp)"
    by (rule lob_match_rest [OF m]) (metis length_map suffix_length_le)
  then have "length (lob_orders (?bk(?opp := rest))) \<le> length (lob_orders ?bk)"
    by (cases "side ord") (simp_all add: lob_orders_def)
  then have room1: "length (pool_index b1) < 2 ^ 31"
    using room pool_rep_total [OF rep] pool_rep_total [OF b1(1)] b1(2) by simp
  show ?thesis
  proof (cases "remaining_quantity ord' \<noteq> 0 \<and> otype ord' = Limit")
    case False
    then have "bk' = rep_abs b1 Q1" unfolding res(2) lob_settle_def b1(2) by (simp only: if_False)
    with False True b1(1) res(1) show ?thesis
      unfolding pool_submit_unfold [OF rep] run by (auto simp: word_pos_iff)
  next
    case rests: True
    from pool_settle_rep [OF b1(1) new room1] rests
    obtain i b2 b' Q' F' where "allocate_node ord' b1 = Some (i, b2)"
      "(if side ord' = Buy
        then pool_rest_bid ord' i (b2\<lparr>pool_index := AList.update (order_id ord') i (pool_index b2)\<rparr>)
        else pool_rest_ask ord' i (b2\<lparr>pool_index := AList.update (order_id ord') i (pool_index b2)\<rparr>)) = Some b'"
      "pool_rep b' Q' F'" "rep_abs b' Q' = lob_settle ord' (rep_abs b1 Q1)"
      by blast
    with rests True res b1(2) show ?thesis
      unfolding pool_submit_unfold [OF rep] run
      by (intro exI [of _ b'] exI [of _ Q'] exI [of _ F']) (simp add: word_pos_iff)
  qed
qed

section \<open>Cancelling\<close>

lemma pool_cancel_on:
  assumes "map_of (pool_index b) i = Some idx" "heap b idx = Some ord" "side ord = s"
    "map_of (pool_levels b s) (price ord) = Some level"
    "remove_from_level level idx b = Some (level', b1)"
    "free_node idx (set_pool_levels s
        (if level_empty level' then AList.delete (price ord) (pool_levels b1 s)
         else omap_put (price_before s) (price ord) level' (pool_levels b1 s)) b1) = Some b2"
  shows "pool_cancel_order i b = Some (True, b2\<lparr>pool_index := AList.delete i (pool_index b2)\<rparr>)"
proof -
  obtain n where "node_at idx b = Some n" "node_order n = ord"
    using assms(2) by (auto simp: heap_def)
  with assms(1,3-6) show ?thesis
    by (cases s; cases "level_empty level'") (simp_all add: pool_cancel_order_def Let_def)
qed

text \<open>An indexed order stands in the level its price and side name.\<close>

lemma pool_locate:
  assumes rep: "pool_rep b Q F" and inv: "lob_inv (rep_abs b Q)"
    and ix: "map_of (pool_index b) i = Some idx"
  obtains ord q level where "heap b idx = Some ord" "order_id ord = i"
    "map_of (Q (side ord)) (price ord) = Some q" "idx \<in> set q"
    "map_of (pool_levels b (side ord)) (price ord) = Some level" "level_rep b level (price ord) q"
proof -
  obtain ord where ord: "idx \<in> set (addrs (Q Buy) @ addrs (Q Sell))" "heap b idx = Some ord"
    "order_id ord = i"
    by (rule index_ok_lookup [OF pool_rep_index(1) [OF rep] ix])
  obtain s where s: "idx \<in> set (addrs (Q s))" using ord(1) by auto
  then have "ord \<in> set (rep_abs b Q s)"
    using ord(2) by (force simp: rep_abs_def flat_resolve)
  then have side: "side ord = s"
    using inv unfolding lob_inv_def resting_ok_def by blast
  obtain p q where pq: "(p, q) \<in> set (Q s)" "idx \<in> set q" using s by (auto simp: addrs_def)
  have ok: "levels_ok s (resolve (heap b) (Q s))" and srep: "side_rep b (pool_levels b s) (Q s)"
    using rep by (simp_all add: pool_rep_def)
  have "(p, map (\<lambda>a. the (heap b a)) q) \<in> set (resolve (heap b) (Q s))"
    using pq(1) by (force simp: resolve_def)
  then have price: "price ord = p" using ok pq(2) ord(2) by (fastforce simp: levels_ok_def)
  have q: "map_of (Q s) p = Some q"
    using lv.sorted_map_of [OF levels_ok_omap_sorted [OF ok] pq(1)] .
  then obtain level where "map_of (pool_levels b s) p = Some level"
    using side_rep_lookup(1) [OF srep, of p] by auto
  with side_rep_lookup(2) [OF srep this] q ord(2,3) pq(2) side price that
  show ?thesis by (simp add: level_at_def)
qed

text \<open>The level without the node, put back or dropped.\<close>

lemma pool_drop_rep:
  assumes srep: "side_rep b (pool_levels b s) lv" and sorted: "omap_sorted (price_before s) lv"
    and dist: "distinct (addrs lv)" and q: "map_of lv p = Some q" "idx \<in> set q"
    and level: "level_rep b level p q" and ord: "heap b idx = Some ord"
  shows "\<exists>level' b1. remove_from_level level idx b = Some (level', b1)
    \<and> side_rep b1 (if level_empty level' then AList.delete p (pool_levels b1 s)
        else omap_put (price_before s) p level' (pool_levels b1 s)) (drop_addr s p idx q lv)
    \<and> links_frame (set (addrs lv) - {idx}) b b1"
proof -
  obtain q1 q2 where qq: "q = q1 @ idx # q2" using q(2) by (auto simp: in_set_conv_decomp)
  have dq: "distinct q" using level by (simp add: level_rep_def)
  then have rm: "remove1 idx q = q1 @ q2" by (simp add: qq remove1_middle)
  obtain level' b1 where r: "remove_from_level level idx b = Some (level', b1)"
    "level_rep b1 level' p (remove1 idx q)" "links_frame (set (remove1 idx q)) b b1"
    using remove_from_level_correct [OF level [unfolded qq] ord] rm by auto
  have sub: "set (remove1 idx q) \<subseteq> set (addrs lv) - {idx}"
    using set_addrs_map_of [OF q(1)] dq by auto
  have frame: "links_frame (set (addrs lv) - {idx}) b b1"
    using r(3) sub by (auto simp: links_frame_def)
  have other: "node_at i b1 = node_at i b" if "(k, r) \<in> set lv" "k \<noteq> p" "i \<in> set r" for k r i
  proof -
    have "i \<notin> set q" using other_levels [OF dist that] q(1) by (simp add: level_at_def)
    then have "i \<notin> set (remove1 idx q)" using notin_set_remove1 by metis
    with r(3) show ?thesis by (simp add: links_frame_def)
  qed
  have lv1: "pool_levels b1 s = pool_levels b s" by (rule links_frame_levels [OF frame])
  have "side_rep b1 (if level_empty level' then AList.delete p (pool_levels b1 s)
        else omap_put (price_before s) p level' (pool_levels b1 s)) (drop_addr s p idx q lv)"
    using side_rep_delete [OF srep, of p b1] side_rep_put [OF srep sorted r(2)] other
    unfolding lv1 level_rep_empty [OF r(2)] drop_addr_def by auto
  with r(1) frame show ?thesis by blast
qed

lemma pool_remove_rep:
  assumes rep: "pool_rep b Q F" and i: "map_of (pool_index b) i = Some idx"
    and ord: "heap b idx = Some ord" "order_id ord = i" "side ord = s"
    and q: "map_of (Q s) (price ord) = Some q" "idx \<in> set q"
    and level: "map_of (pool_levels b s) (price ord) = Some level" "level_rep b level (price ord) q"
  shows "\<exists>b' Q'. pool_cancel_order i b = Some (True, b') \<and> pool_rep b' Q' (idx # F)
    \<and> rep_abs b' Q' = (\<lambda>s. filter (\<lambda>ord. order_id ord \<noteq> i) (rep_abs b Q s))
    \<and> length (nodes b') = length (nodes b)"
proof -
  let ?lv = "Q s" and ?opp = "opposite s" and ?p = "price ord"
  note r = rep [unfolded pool_rep_side [of b Q F s]]
  have ar: "arena b (set (addrs (Q ?opp))) (addrs ?lv) F" using r by (elim conjE)
  note a = ar [unfolded arena_def]
  have srep: "side_rep b (pool_levels b s) ?lv" and lok: "levels_ok s (resolve (heap b) ?lv)"
    and dist: "distinct (addrs ?lv)" using r a by simp_all
  have live: "idx \<in> set (addrs ?lv)" using set_addrs_map_of [OF q(1)] q(2) by blast
  have idx: "idx \<notin> set (addrs (Q ?opp))" "idx \<notin> set F" "idx \<noteq> INVALID_IDX"
    using a live q(2) level(2) by (auto simp: level_rep_def)
  obtain level' b1 where rm: "remove_from_level level idx b = Some (level', b1)"
    "side_rep b1 (if level_empty level' then AList.delete ?p (pool_levels b1 s)
        else omap_put (price_before s) ?p level' (pool_levels b1 s)) (drop_addr s ?p idx q ?lv)"
    "links_frame (set (addrs ?lv) - {idx}) b b1"
    using pool_drop_rep [OF srep levels_ok_omap_sorted [OF lok] dist q level(2) ord(1)] by blast
  note f1 = rm(3) [unfolded links_frame_def]
  let ?plv = "if level_empty level' then AList.delete ?p (pool_levels b1 s)
        else omap_put (price_before s) ?p level' (pool_levels b1 s)"
  define b2 where "b2 = set_pool_levels s ?plv b1"
  have b2: "node_at j b2 = node_at j b1" "free_chain b2 j X \<longleftrightarrow> free_chain b1 j X"
    "free_head b2 = free_head b" "pool_index b2 = pool_index b" "heap b2 = heap b"
    "length (nodes b2) = length (nodes b)" "slots b2 = slots b" for j X
    using f1 links_frame_slots [OF rm(3)] by (simp_all add: b2_def)
  have "free_chain b2 (free_head b2) F"
    unfolding b2(2,3) using a f1 by (subst free_chain_cong [of F b1 b]) auto
  moreover have "idx \<in> slots b2" using live r b2(7) by auto
  ultimately obtain b3 where fr: "free_node idx b2 = Some b3" "free_head b3 = idx"
    "free_chain b3 idx (idx # F)" "links_frame {idx} b2 (b3\<lparr>free_head := free_head b2\<rparr>)"
    using free_node_correct [of b2 F idx] idx(2,3) by blast
  note f3 = fr(4) [unfolded links_frame_def]
  define b' where "b' = b3\<lparr>pool_index := AList.delete i (pool_index b3)\<rparr>"
  have run: "pool_cancel_order i b = Some (True, b')"
    unfolding b'_def using pool_cancel_on [OF i ord(1,3) level(1) rm(1)] fr(1) unfolding b2_def by blast
  have at3: "node_at j b' = node_at j b1" if "j \<noteq> idx" for j
    using f3 that by (simp add: b'_def b2)
  have heap': "heap b' = heap b"
  proof -
    have "heap b' = heap (b3\<lparr>free_head := free_head b2\<rparr>)" by (simp add: b'_def heap_def fun_eq_iff)
    then show ?thesis using f3 b2(5) by simp
  qed
  have lv': "pool_levels b' s' = pool_levels b2 s'" for s'
    using f3 by (cases s') (simp_all add: b'_def)
  have len: "length (nodes b') = length (nodes b)" using f3 b2(6) by (simp add: b'_def)
  let ?lv' = "drop_addr s ?p idx q ?lv"
  have addrs': "addrs ?lv' = remove1 idx (addrs ?lv)"
    using addrs_drop [OF levels_ok_omap_sorted [OF lok] q dist] .
  have set': "set (addrs ?lv') = set (addrs ?lv) - {idx}" using dist by (simp add: addrs')
  have ixok: "index_ok (set (addrs ?lv) \<union> set (addrs (Q ?opp))) (heap b) (map_of (pool_index b))"
    using a by (elim conjE)
  note drop = drop_correct [OF ixok lok dist q ord(1,2)]
  have "side_rep b' (pool_levels b' s) ?lv'"
  proof -
    have "side_rep b' ?plv ?lv' \<longleftrightarrow> side_rep b1 ?plv ?lv'"
      by (rule side_rep_cong) (use at3 set' in auto)
    then show ?thesis using rm(2) by (simp add: lv' b2_def)
  qed
  moreover have "side_rep b' (pool_levels b' ?opp) (Q ?opp)"
  proof -
    have "side_rep b' (pool_levels b ?opp) (Q ?opp) \<longleftrightarrow> side_rep b (pool_levels b ?opp) (Q ?opp)"
    proof (rule side_rep_cong)
      fix j assume j: "j \<in> set (addrs (Q ?opp))"
      then have "j \<noteq> idx" "j \<notin> set (addrs ?lv)" using idx(1) a by auto
      then show "node_at j b' = node_at j b" using at3 f1 by simp
    qed
    then show ?thesis using r links_frame_levels [OF rm(3)] by (simp add: lv' b2_def)
  qed
  moreover have "arena b' (set (addrs (Q ?opp))) (addrs ?lv') (idx # F)"
    unfolding arena_def
  proof (intro conjI)
    have "index_ok (set (addrs ?lv) \<union> set (addrs (Q ?opp)) - {idx}) (heap b')
        ((map_of (pool_index b))(order_id ord := None))"
      by (rule index_ok_remove [OF ixok _ ord(1)]) (use live heap' in auto)
    moreover have "set (addrs ?lv) \<union> set (addrs (Q ?opp)) - {idx} = set (addrs ?lv') \<union> set (addrs (Q ?opp))"
      using set' idx(1) by auto
    ultimately show "index_ok (set (addrs ?lv') \<union> set (addrs (Q ?opp))) (heap b') (map_of (pool_index b'))"
      using f3 b2(4) ord(2) by (simp add: b'_def)
    have "free_chain b' idx (idx # F) \<longleftrightarrow> free_chain b3 idx (idx # F)"
      by (rule free_chain_cong) (simp add: b'_def)
    then show "free_chain b' (free_head b') (idx # F)" using fr(2,3) by (simp add: b'_def)
    show "distinct (addrs ?lv' @ idx # F)" using a idx(2) dist set' addrs' by auto
    show "set (addrs (Q ?opp)) \<inter> set (addrs ?lv' @ idx # F) = {}" using a idx(1) set' by auto
    show "distinct (map fst (pool_index b'))" using a f3 b2(4) by (simp add: b'_def distinct_delete)
  qed
  moreover have "set (addrs ?lv') \<union> set (addrs (Q ?opp)) \<union> set (idx # F) = slots b'"
    using r set' live len by (auto simp: slots_def)
  ultimately have "pool_rep b' (Q(s := ?lv')) (idx # F)"
    using r drop(2) len unfolding pool_rep_side [of _ _ _ s] by (simp add: heap')
  moreover have "rep_abs b' (Q(s := ?lv')) = (\<lambda>s. filter (\<lambda>ord. order_id ord \<noteq> i) (rep_abs b Q s))"
    using drop(1) drop(3) [OF _ idx(1)]
    by (intro lob_eqI [of _ s]) (simp_all add: rep_abs_def heap')
  ultimately show ?thesis using run len by blast
qed

lemma pool_cancel_rep:
  assumes rep: "pool_rep b Q F" and inv: "lob_inv (rep_abs b Q)"
    and lob: "lob_cancel i (rep_abs b Q) = (ok, bk')"
  shows "\<exists>b' Q' F'. pool_cancel_order i b = Some (ok, b') \<and> pool_rep b' Q' F' \<and> rep_abs b' Q' = bk'
    \<and> length (nodes b') = length (nodes b)"
proof (cases "map_of (pool_index b) i")
  case None
  then have "i \<notin> lob_ids (rep_abs b Q)" using pool_rep_ids [OF rep] by simp
  then have "ok = False" "bk' = rep_abs b Q"
    using lob lob_cancel_absent by auto
  with None rep show ?thesis by (auto simp: pool_cancel_order_def)
next
  case (Some idx)
  then have res: "ok = True" "bk' = (\<lambda>s. filter (\<lambda>ord. order_id ord \<noteq> i) (rep_abs b Q s))"
    using lob pool_rep_ids [OF rep] by (auto simp: lob_cancel_def)
  obtain ord q level where "heap b idx = Some ord" "order_id ord = i"
    "map_of (Q (side ord)) (price ord) = Some q" "idx \<in> set q"
    "map_of (pool_levels b (side ord)) (price ord) = Some level" "level_rep b level (price ord) q"
    by (rule pool_locate [OF rep inv Some])
  from pool_remove_rep [OF rep Some this(1,2) refl this(3-6)] show ?thesis
    unfolding res by blast
qed

section \<open>Queries\<close>

lemma pool_invE:
  assumes "pool_inv b"
  obtains Q F where "pool_rep b Q F" "pool_abs b = rep_abs b Q" "lob_inv (rep_abs b Q)"
  using assms pool_rep_abs by (auto simp: pool_inv_def)

lemma pool_has_order_correct: "pool_inv b \<Longrightarrow> pool_has_order i b \<longleftrightarrow> i \<in> lob_ids (pool_abs b)"
  by (auto simp: pool_has_order_def pool_rep_ids elim: pool_invE)

lemma pool_get_order_correct:
  assumes "pool_inv b"
  shows "pool_get_order i b = Some (lob_get i (pool_abs b))"
proof -
  obtain Q F where rep: "pool_rep b Q F" "pool_abs b = rep_abs b Q" "lob_inv (rep_abs b Q)"
    using assms by (rule pool_invE)
  note find = index_ok_find [OF pool_rep_index(1) [OF rep(1)], of i]
  show ?thesis
  proof (cases "map_of (pool_index b) i")
    case None
    with find show ?thesis by (simp add: pool_get_order_def lob_get_def rep(2) pool_rep_orders)
  next
    case (Some idx)
    obtain ord where "heap b idx = Some ord" by (rule pool_locate [OF rep(1,3) Some])
    then obtain n where "node_at idx b = Some n" "heap b idx = Some (node_order n)"
      by (auto simp: heap_def)
    with Some find show ?thesis
      by (simp add: pool_get_order_def lob_get_def rep(2) pool_rep_orders)
  qed
qed

lemma pool_rep_keys:
  assumes "pool_rep b Q F"
  shows "map fst (pool_levels b s) = map fst (Q s)" "levels_ok s (resolve (heap b) (Q s))"
  using assms side_rep_keys by (auto simp: pool_rep_def)

lemma pool_best_correct:
  assumes "pool_inv b"
  shows "pool_best_bid b = lob_best Buy (pool_abs b)" "pool_best_ask b = lob_best Sell (pool_abs b)"
proof -
  obtain Q F where rep: "pool_rep b Q F" "pool_abs b = rep_abs b Q"
    using assms by (rule pool_invE)
  have "lob_best s (pool_abs b) = (case pool_levels b s of [] \<Rightarrow> None | (p, _) # _ \<Rightarrow> Some p)" for s
  proof -
    have "lob_best s (pool_abs b) = (case Q s of [] \<Rightarrow> None | (p, _) # _ \<Rightarrow> Some p)"
      using best_flat [OF pool_rep_keys(2) [OF rep(1), of s]]
      by (auto simp: lob_best_def rep(2) rep_abs_def resolve_def split: list.split)
    then show ?thesis
      using pool_rep_keys(1) [OF rep(1), of s] by (cases "Q s"; cases "pool_levels b s") auto
  qed
  from this [of Buy] this [of Sell]
  show "pool_best_bid b = lob_best Buy (pool_abs b)" "pool_best_ask b = lob_best Sell (pool_abs b)"
    by (simp_all add: pool_best_bid_def pool_best_ask_def)
qed

lemma pool_level_counts:
  assumes "pool_inv b"
  shows "pool_bid_levels b = card (price ` set (pool_abs b Buy))"
    "pool_ask_levels b = card (price ` set (pool_abs b Sell))"
proof -
  obtain Q F where rep: "pool_rep b Q F" "pool_abs b = rep_abs b Q"
    using assms by (rule pool_invE)
  have "card (price ` set (pool_abs b s)) = length (pool_levels b s)" for s
    using level_count_flat [OF pool_rep_keys(2) [OF rep(1), of s]]
      arg_cong [OF pool_rep_keys(1) [OF rep(1), of s], of length]
    by (simp add: rep(2) rep_abs_def)
  from this [of Buy] this [of Sell]
  show "pool_bid_levels b = card (price ` set (pool_abs b Buy))"
    "pool_ask_levels b = card (price ` set (pool_abs b Sell))"
    by (simp_all add: pool_bid_levels_def pool_ask_levels_def)
qed

lemma pool_total_correct: "pool_inv b \<Longrightarrow> pool_total_orders b = length (lob_orders (pool_abs b))"
  by (auto simp: pool_total_orders_def pool_rep_total elim: pool_invE)

section \<open>Empty pools\<close>

lemma fresh_pool_rep:
  assumes "nodes b = link_free 0 ns" "length ns < 2 ^ 32"
    and "free_head b = (if length ns > 0 then 0 else INVALID_IDX)"
    and "pool_index b = []" "pool_bids b = []" "pool_asks b = []"
  shows "pool_rep b (\<lambda>_. []) (map word_of_nat [0..<length ns])" "rep_abs b (\<lambda>_. []) = lob_empty"
proof -
  have lv: "pool_levels b s = []" for s using assms by (cases s) simp_all
  have "free_chain b (free_head b) (map word_of_nat [0..<length ns])"
    using link_free_chain [OF assms(1,2), of 0] assms(3) by (cases "length ns > 0") simp_all
  moreover have "slots b = set (map (word_of_nat :: nat \<Rightarrow> idx) [0..<length ns])"
    unfolding set_idx_upt [OF assms(2)] slots_def using assms(1) by simp
  moreover have "index_ok {} (heap b) (map_of (pool_index b))"
    by (simp add: index_ok_def assms(4))
  ultimately show "pool_rep b (\<lambda>_. []) (map word_of_nat [0..<length ns])"
    using distinct_idx_upt [OF assms(2), of 0] assms(1,2,4)
    by (simp add: pool_rep_def lv arena_def del: set_map)
  show "rep_abs b (\<lambda>_. []) = lob_empty"
    by (simp add: rep_abs_def lob_empty_def)
qed

lemma pool_new_correct:
  assumes "capacity < 2 ^ 32"
  shows "pool_inv (pool_new capacity)" "pool_abs (pool_new capacity) = lob_empty"
proof -
  have r: "pool_rep (pool_new capacity) (\<lambda>_. []) (map word_of_nat [0..<length (replicate capacity default_node)])"
    "rep_abs (pool_new capacity) (\<lambda>_. []) = lob_empty"
    using assms by (intro fresh_pool_rep [where ns = "replicate capacity default_node"];
        simp add: pool_new_def)+
  then show "pool_inv (pool_new capacity)" "pool_abs (pool_new capacity) = lob_empty"
    by (auto intro: pool_invI simp: pool_rep_abs)
qed

lemma pool_clear_correct:
  assumes "pool_inv b"
  shows "pool_inv (pool_clear b)" "pool_abs (pool_clear b) = lob_empty"
proof -
  have len: "length (nodes b) < 2 ^ 32" using assms by (simp add: pool_inv_def pool_rep_def)
  have r: "pool_rep (pool_clear b) (\<lambda>_. []) (map word_of_nat [0..<length (nodes b)])"
    "rep_abs (pool_clear b) (\<lambda>_. []) = lob_empty"
    using len by (intro fresh_pool_rep [where ns = "nodes b"]; simp add: pool_clear_def)+
  then show "pool_inv (pool_clear b)" "pool_abs (pool_clear b) = lob_empty"
    by (auto intro: pool_invI simp: pool_rep_abs)
qed

section \<open>The engine contract\<close>

lemma pool_submit_refines:
  assumes inv: "pool_inv b" and room: "pool_room (Suc n) b"
    and lob: "lob_submit ord (pool_abs b) = (ok, ts1, bk')"
  shows "\<exists>b'. pool_submit_order ord ts b = Some (ok, ts @ ts1, b') \<and> pool_inv b' \<and> pool_room n b'
    \<and> pool_abs b' = bk'"
proof -
  obtain Q F where rep: "pool_rep b Q F" "pool_abs b = rep_abs b Q" "lob_inv (rep_abs b Q)"
    using inv by (rule pool_invE)
  have small: "length (pool_index b) < 2 ^ 31"
    using room by (simp add: pool_room_def pool_total_orders_def)
  obtain b' Q' F' where b': "pool_submit_order ord ts b = Some (ok, ts @ ts1, b')" "pool_rep b' Q' F'"
    "rep_abs b' Q' = bk'"
    using pool_submit_rep [OF rep(1) small lob [unfolded rep(2)]] by blast
  have inv': "pool_inv b'" "pool_abs b' = bk'"
    using b' lob_submit_inv [OF rep(3) lob [unfolded rep(2)]] by (auto intro: pool_invI simp: pool_rep_abs)
  have "pool_total_orders b' \<le> Suc (pool_total_orders b)"
    using lob_submit_size [OF lob] pool_total_correct [OF inv] pool_total_correct [OF inv'(1)] inv'(2)
    by simp
  then have "pool_room n b'" using room by (simp add: pool_room_def)
  with b'(1) inv' show ?thesis by blast
qed

lemma pool_cancel_refines:
  assumes inv: "pool_inv b" and room: "pool_room n b"
    and lob: "lob_cancel i (pool_abs b) = (ok, bk')"
  shows "\<exists>b'. pool_cancel_order i b = Some (ok, b') \<and> pool_inv b' \<and> pool_room n b' \<and> pool_abs b' = bk'
    \<and> pool_capacity b' = pool_capacity b"
proof -
  obtain Q F where rep: "pool_rep b Q F" "pool_abs b = rep_abs b Q" "lob_inv (rep_abs b Q)"
    using inv by (rule pool_invE)
  obtain b' Q' F' where b': "pool_cancel_order i b = Some (ok, b')" "pool_rep b' Q' F'"
    "rep_abs b' Q' = bk'" "length (nodes b') = length (nodes b)"
    using pool_cancel_rep [OF rep(1,3) lob [unfolded rep(2)]] by blast
  have inv': "pool_inv b'" "pool_abs b' = bk'"
    using b' lob_cancel_inv [OF rep(3) lob [unfolded rep(2)]] by (auto intro: pool_invI simp: pool_rep_abs)
  have "length (lob_orders bk') \<le> length (lob_orders (pool_abs b))"
    using lob by (auto simp: lob_cancel_def lob_orders_def add_mono)
  then have "pool_room n b'"
    using room pool_total_correct [OF inv] pool_total_correct [OF inv'(1)] inv'(2)
    by (simp add: pool_room_def)
  with b' inv' show ?thesis by (auto simp: pool_capacity_def)
qed

lemma pool_clear_room: "pool_room n b \<Longrightarrow> pool_room n (pool_clear b)"
  by (simp add: pool_room_def pool_total_orders_def pool_clear_def)

interpretation pool: matching_engine pool_submit_order pool_cancel_order pool_get_order pool_clear
  pool_total_orders pool_inv pool_abs pool_room
proof
  show "lob_inv (pool_abs b)" if "pool_inv b" for b
    using that by (simp add: pool_inv_def)
  show "\<exists>b'. pool_submit_order ord ts b = Some (ok, ts @ ts1, b') \<and> pool_inv b' \<and> pool_room n b' \<and> pool_abs b' = bk'"
    if "pool_inv b" "pool_room (Suc n) b" "lob_submit ord (pool_abs b) = (ok, ts1, bk')"
    for b n ord ts ok ts1 bk'
    using pool_submit_refines [OF that] .
  show "\<exists>b'. pool_cancel_order i b = Some (ok, b') \<and> pool_inv b' \<and> pool_room n b' \<and> pool_abs b' = bk'"
    if "pool_inv b" "pool_room n b" "lob_cancel i (pool_abs b) = (ok, bk')" for b n i ok bk'
    using pool_cancel_refines [OF that] by blast
qed (simp_all add: pool_get_order_correct pool_clear_correct pool_total_correct pool_clear_room,
  simp add: pool_room_def)

text \<open>Action sequences from a new pool.\<close>

lemma pool_new_room: "n \<le> 2 ^ 31 \<Longrightarrow> pool_room n (pool_new capacity)"
  by (simp add: pool_room_def pool_total_orders_def pool_new_def)

lemma pool_run_new:
  assumes "capacity < 2 ^ 32" "length actions \<le> 2 ^ 31"
    and "lob_run actions lob_empty = (rs, ts, bk)"
  shows "\<exists>b. run_actions pool_submit_order pool_cancel_order actions [] (pool_new capacity) = Some (rs, ts, b)
    \<and> pool_inv b \<and> pool_abs b = bk"
proof -
  have "\<exists>b'. run_actions pool_submit_order pool_cancel_order actions [] (pool_new capacity)
      = Some (rs, [] @ ts, b') \<and> pool_inv b' \<and> pool_room 0 b' \<and> pool_abs b' = bk"
    by (rule pool.run_refines) (use assms in \<open>simp_all add: pool_new_correct pool_new_room\<close>)
  then show ?thesis by auto
qed

text \<open>One operation of a client that keeps count of its orders.\<close>

lemma pool_submit_step:
  assumes inv: "pool_inv b" and room: "pool_total_orders b < 2 ^ 31"
    and lob: "lob_submit ord (pool_abs b) = (ok, ts1, bk')"
  shows "\<exists>b'. pool_submit_order ord ts b = Some (ok, ts @ ts1, b') \<and> pool_inv b' \<and> pool_abs b' = bk'
    \<and> pool_total_orders b' \<le> Suc (pool_total_orders b)"
proof -
  have "pool_room (Suc 0) b" using room by (simp add: pool_room_def)
  from pool_submit_refines [OF inv this lob, of ts]
  obtain b' where b': "pool_submit_order ord ts b = Some (ok, ts @ ts1, b')" "pool_inv b'" "pool_abs b' = bk'"
    by blast
  moreover have "pool_total_orders b' \<le> Suc (pool_total_orders b)"
    using lob_submit_size [OF lob] pool_total_correct [OF inv] pool_total_correct [OF b'(2)] b'(3) by simp
  ultimately show ?thesis by blast
qed

lemma pool_cancel_step:
  assumes inv: "pool_inv b" and room: "pool_total_orders b < 2 ^ 31"
    and lob: "lob_cancel i (pool_abs b) = (ok, bk')"
  shows "\<exists>b'. pool_cancel_order i b = Some (ok, b') \<and> pool_inv b' \<and> pool_abs b' = bk'
    \<and> pool_total_orders b' \<le> Suc (pool_total_orders b)"
proof -
  have "pool_room 0 b" using room by (simp add: pool_room_def)
  from pool_cancel_refines [OF inv this lob]
  obtain b' where b': "pool_cancel_order i b = Some (ok, b')" "pool_inv b'" "pool_abs b' = bk'"
    by blast
  have "length (lob_orders bk') \<le> length (lob_orders (pool_abs b))"
    using lob by (auto simp: lob_cancel_def lob_orders_def add_mono)
  then have "pool_total_orders b' \<le> Suc (pool_total_orders b)"
    using pool_total_correct [OF inv] pool_total_correct [OF b'(2)] b'(3) by simp
  with b' show ?thesis by blast
qed

end
