(* ===== verification/Engine_Properties.thy ===== *)
theory Engine_Properties
  imports Stl_Refinement Pool_Refinement
begin

text \<open>
  The properties of the two matching engines: each implements the price-time book, so they
  agree with each other on every sequence of actions, and what the book guarantees (priority,
  conservation, no crossed prices, unique ids) holds of what the engines do.
\<close>

section \<open>Sample orders\<close>

text \<open>Concrete orders and actions for the witnesses.\<close>

definition limit_order :: "order_id \<Rightarrow> side \<Rightarrow> price \<Rightarrow> quantity \<Rightarrow> order" where
  "limit_order i s p q = \<lparr>order_id = i, price = p, initial_quantity = q, remaining_quantity = q,
     timestamp = 0, side = s, otype = Limit\<rparr>"

definition submit_action :: "order \<Rightarrow> order_action" where
  "submit_action ord = \<lparr>action_type = NewOrder, act_order = ord, act_cancel_id = 0\<rparr>"

definition cancel_action :: "order_id \<Rightarrow> order_action" where
  "cancel_action i = \<lparr>action_type = CancelOrder, act_order = default_order, act_cancel_id = i\<rparr>"

definition sample_actions :: "order_action list" where
  "sample_actions = [submit_action (limit_order 1 Sell 100 5), submit_action (limit_order 2 Sell 100 7),
     submit_action (limit_order 3 Buy 101 8), cancel_action 2]"

definition quoted_actions :: "order_action list" where
  "quoted_actions = [submit_action (limit_order 1 Sell 100 5), submit_action (limit_order 2 Buy 99 5)]"

definition partial_fill_actions :: "order_action list" where
  "partial_fill_actions = [submit_action (limit_order 1 Sell 100 10), submit_action (limit_order 2 Buy 100 4)]"

lemma quoted_run:
  "case run_actions pool_submit_order pool_cancel_order quoted_actions [] (pool_new 2) of
     None \<Rightarrow> False
   | Some (_, _, b) \<Rightarrow> pool_best_bid b = Some 99 \<and> pool_best_ask b = Some 100"
  by code_simp

section \<open>Consequences of the refinements\<close>

lemma stl_submit_cases:
  assumes inv: "stl_inv b" and run: "stl_submit_order ord ts b = Some (ok, ts', b')"
  obtains ts1 where "lob_submit ord (stl_abs b) = (ok, ts1, stl_abs b')" "ts' = ts @ ts1" "stl_inv b'"
proof -
  obtain ok1 ts1 bk1 where lob: "lob_submit ord (stl_abs b) = (ok1, ts1, bk1)"
    by (cases "lob_submit ord (stl_abs b)")
  with stl_submit_refines [OF inv lob, of ts] run that show ?thesis by auto
qed

lemma pool_submit_cases:
  assumes inv: "pool_inv b" and room: "pool_total_orders b < 2 ^ 31"
    and run: "pool_submit_order ord ts b = Some (ok, ts', b')"
  obtains ts1 where "lob_submit ord (pool_abs b) = (ok, ts1, pool_abs b')" "ts' = ts @ ts1" "pool_inv b'"
proof -
  obtain ok1 ts1 bk1 where lob: "lob_submit ord (pool_abs b) = (ok1, ts1, bk1)"
    by (cases "lob_submit ord (pool_abs b)")
  have "pool_room (Suc 0) b" using room by (simp add: pool_room_def)
  from pool_submit_refines [OF inv this lob, of ts] lob run that show ?thesis by auto
qed

lemma lob_submit_accepted:
  assumes "lob_submit ord bk = (True, ts, bk')"
  obtains ord' rest where "acceptable ord" "order_id ord \<notin> lob_ids bk"
    "lob_match (normalise ord) (bk (opposite (side ord))) = (ts, ord', rest)"
    "bk' = lob_settle ord' (bk(opposite (side ord) := rest))"
  using assms by (auto simp: lob_submit_def Let_def split: if_splits prod.splits)

text \<open>Quantities on a side after an accepted order settled.\<close>

lemma settle_side:
  assumes "lob_match inc (bk (opposite (side inc))) = (ts, inc', rest)"
  shows "lob_settle inc' (bk(opposite (side inc) := rest)) (opposite (side inc)) = rest"
  using lob_match_frame_sel(3) [OF assms] by (simp add: lob_settle_def)

lemma stl_run_empty:
  assumes "run_actions stl_submit_order stl_cancel_order actions [] stl_empty = Some (rs, ts, b)"
  shows "stl_inv b" "lob_run actions lob_empty = (rs, ts, stl_abs b)"
proof -
  obtain rs1 ts1 bk1 where r: "lob_run actions lob_empty = (rs1, ts1, bk1)"
    by (cases "lob_run actions lob_empty")
  have "\<exists>b'. run_actions stl_submit_order stl_cancel_order actions [] stl_empty = Some (rs1, [] @ ts1, b')
    \<and> stl_inv b' \<and> True \<and> stl_abs b' = bk1"
    by (rule stl.run_refines) (simp_all add: r)
  with assms r show "stl_inv b" "lob_run actions lob_empty = (rs, ts, stl_abs b)" by auto
qed

text \<open>A pool with two resting asks, and a buy that fills the first and part of the second.\<close>

definition sample_buy :: order where
  "sample_buy = limit_order 3 Buy 101 8"

definition sample_trades :: "trade list" where
  "sample_trades = [\<lparr>maker_order_id = 1, taker_order_id = 3, trade_price = 100, trade_quantity = 5,
      trade_timestamp = 0, aggressor_side = Buy\<rparr>,
    \<lparr>maker_order_id = 2, taker_order_id = 3, trade_price = 100, trade_quantity = 3,
      trade_timestamp = 0, aggressor_side = Buy\<rparr>]"

lemma sample_run:
  "map_option (\<lambda>(_, _, b). (pool_total_orders b, map_option (\<lambda>(ok, ts, _). (ok, ts)) (pool_submit_order sample_buy [] b)))
     (run_actions pool_submit_order pool_cancel_order (take 2 sample_actions) [] (pool_new 1))
   = Some (2, Some (True, sample_trades))"
  by code_simp

lemma sample_pool_state:
  "\<exists>b b'. pool_inv b \<and> pool_total_orders b < 2 ^ 31
    \<and> pool_submit_order sample_buy [] b = Some (True, sample_trades, b')"
proof -
  obtain rs ts bk where "lob_run (take 2 sample_actions) lob_empty = (rs, ts, bk)"
    by (cases "lob_run (take 2 sample_actions) lob_empty")
  then obtain b where "run_actions pool_submit_order pool_cancel_order (take 2 sample_actions) [] (pool_new 1)
      = Some (rs, ts, b)" "pool_inv b"
    using pool_run_new [of 1 "take 2 sample_actions" rs ts bk] by (auto simp: sample_actions_def)
  with sample_run show ?thesis by auto
qed

lemma pool_conservation:
  assumes "pool_inv b" "pool_total_orders b < 2 ^ 31"
    and "pool_submit_order ord ts b = Some (True, ts @ ts1, b')"
  shows "sum_list (map (unat \<circ> remaining_quantity) (pool_abs b (opposite (side ord))))
      = sum_list (map (unat \<circ> remaining_quantity) (pool_abs b' (opposite (side ord))))
        + sum_list (map (unat \<circ> trade_quantity) ts1)"
    "unat (remaining_quantity (normalise ord)) = sum_list (map (unat \<circ> trade_quantity) ts1)
      + (case pool_get_order (order_id ord) b' of
           Some (Some r) \<Rightarrow> unat (remaining_quantity r)
         | _ \<Rightarrow> if otype ord = Limit then 0
              else unat (remaining_quantity (normalise ord)) - sum_list (map (unat \<circ> trade_quantity) ts1))"
proof -
  obtain ts2 where s: "lob_submit ord (pool_abs b) = (True, ts2, pool_abs b')" "ts @ ts1 = ts @ ts2"
    and inv': "pool_inv b'"
    by (rule pool_submit_cases [OF assms])
  obtain ord' rest where acc: "acceptable ord" "order_id ord \<notin> lob_ids (pool_abs b)"
    and m: "lob_match (normalise ord) (pool_abs b (opposite (side ord))) = (ts1, ord', rest)"
    and bk': "pool_abs b' = lob_settle ord' ((pool_abs b)(opposite (side ord) := rest))"
    by (rule lob_submit_accepted [OF s(1)]) (use s(2) in auto)
  have rest: "pool_abs b' (opposite (side ord)) = rest"
    using settle_side [of "normalise ord" "pool_abs b" ts1 ord' rest] m bk' by simp
  show "sum_list (map (unat \<circ> remaining_quantity) (pool_abs b (opposite (side ord))))
      = sum_list (map (unat \<circ> remaining_quantity) (pool_abs b' (opposite (side ord))))
        + sum_list (map (unat \<circ> trade_quantity) ts1)"
    using lob_match_side_conserves [OF m] by (simp add: rest)
  have "order_id ` set rest \<subseteq> order_id ` set (pool_abs b (opposite (side ord)))"
    by (rule lob_match_rest [OF m]) (metis list.set_map set_mono_suffix)
  then have new: "order_id ord' \<notin> lob_ids ((pool_abs b)(opposite (side ord) := rest))"
    using acc(2) lob_match_frame_sel(1) [OF m] by (auto simp: lob_ids_side [of _ "side ord"])
  have "pool_get_order (order_id ord) b'
      = Some (if remaining_quantity ord' \<noteq> 0 \<and> otype ord' = Limit then Some ord' else None)"
    using pool_get_order_correct [OF inv', of "order_id ord"] lob_get_settle [OF new]
      lob_match_frame_sel(1) [OF m] by (simp add: bk')
  then show "unat (remaining_quantity (normalise ord)) = sum_list (map (unat \<circ> trade_quantity) ts1)
      + (case pool_get_order (order_id ord) b' of
           Some (Some r) \<Rightarrow> unat (remaining_quantity r)
         | _ \<Rightarrow> if otype ord = Limit then 0
              else unat (remaining_quantity (normalise ord)) - sum_list (map (unat \<circ> trade_quantity) ts1))"
    using lob_match_conserves [OF m] lob_match_frame_sel(4) [OF m] by auto
qed

section \<open>Properties\<close>



text \<open>C5. Submitting to the baseline engine always returns (no iterator dangles, no loop runs
  for ever), keeps its invariant and does to the book exactly what the price-time
  specification says: same verdict, same trades appended, same resting orders.\<close>

theorem stl_submit_correct:
  assumes "stl_inv b"
  shows "\<exists>b'. stl_submit_order ord ts b
      = (case lob_submit ord (stl_abs b) of (ok, ts1, bk') \<Rightarrow> Some (ok, ts @ ts1, b'))
    \<and> stl_inv b' \<and> stl_abs b' = snd (snd (lob_submit ord (stl_abs b)))"
proof -
  obtain ok ts1 bk' where lob: "lob_submit ord (stl_abs b) = (ok, ts1, bk')"
    by (cases "lob_submit ord (stl_abs b)")
  show ?thesis using stl_submit_refines [OF assms lob, of ts] by (auto simp: lob)
qed

theorem stl_submit_correct_witness:
  "\<exists>b'. stl_submit_order (limit_order 1 Buy 100 5) [] stl_empty
      = (case lob_submit (limit_order 1 Buy 100 5) (stl_abs stl_empty) of (ok, ts1, bk') \<Rightarrow> Some (ok, [] @ ts1, b'))
    \<and> stl_inv b'"
  using stl_submit_correct [of stl_empty "limit_order 1 Buy 100 5" "[]"] stl_empty_correct(1) by blast

text \<open>C2. Submitting to the pool engine always returns while fewer than \<open>2 ^ 31\<close> orders rest
  (no index leaves the vector, no link is followed for ever), keeps the partition of the slots
  and does to the book exactly what the price-time specification says.\<close>

theorem pool_submit_correct:
  assumes "pool_inv b" "pool_total_orders b < 2 ^ 31"
  shows "\<exists>b'. pool_submit_order ord ts b
      = (case lob_submit ord (pool_abs b) of (ok, ts1, bk') \<Rightarrow> Some (ok, ts @ ts1, b'))
    \<and> pool_inv b' \<and> pool_abs b' = snd (snd (lob_submit ord (pool_abs b)))"
proof -
  obtain ok ts1 bk' where lob: "lob_submit ord (pool_abs b) = (ok, ts1, bk')"
    by (cases "lob_submit ord (pool_abs b)")
  have "pool_room (Suc 0) b" using assms(2) by (simp add: pool_room_def)
  from pool_submit_refines [OF assms(1) this lob, of ts] show ?thesis by (auto simp: lob)
qed

theorem pool_submit_correct_witness:
  "\<exists>b'. pool_submit_order (limit_order 1 Buy 100 5) [] (pool_new 0)
      = (case lob_submit (limit_order 1 Buy 100 5) (pool_abs (pool_new 0)) of (ok, ts1, bk') \<Rightarrow> Some (ok, [] @ ts1, b'))
    \<and> pool_inv b'"
  using pool_submit_correct [of "pool_new 0" "limit_order 1 Buy 100 5" "[]"] pool_new_correct(1) [of 0]
  by (auto simp: pool_total_orders_def pool_new_def)

text \<open>C11. Cancelling on the baseline engine: it returns, reports whether the order rested,
  removes exactly that order and keeps every other order in its place.\<close>

theorem stl_cancel_correct:
  assumes "stl_inv b"
  shows "\<exists>b'. stl_cancel_order i b = Some (stl_has_order i b, b') \<and> stl_inv b'
    \<and> (\<forall>s. stl_abs b' s = filter (\<lambda>ord. order_id ord \<noteq> i) (stl_abs b s)) \<and> \<not> stl_has_order i b'"
proof -
  obtain b' where b': "stl_cancel_order i b = Some (i \<in> lob_ids (stl_abs b), b')" "stl_inv b'"
    "stl_abs b' = (\<lambda>s. filter (\<lambda>ord. order_id ord \<noteq> i) (stl_abs b s))"
    using stl_cancel_refines [OF assms, of i] by (auto simp: lob_cancel_def)
  with stl_has_order_correct [OF assms] stl_has_order_correct [OF b'(2)] show ?thesis
    by (auto simp: lob_ids_side [of _ Buy])
qed

theorem stl_cancel_correct_witness:
  "\<exists>b'. stl_cancel_order 7 stl_empty = Some (stl_has_order 7 stl_empty, b') \<and> stl_inv b'"
  using stl_cancel_correct [of stl_empty 7] stl_empty_correct(1) by blast

text \<open>C10. Cancelling on the pool engine: it returns, reports whether the order rested, removes
  exactly that order, gives its slot back to the free list and never changes the capacity.\<close>

theorem pool_cancel_correct:
  assumes "pool_inv b"
  shows "\<exists>b'. pool_cancel_order i b = Some (pool_has_order i b, b') \<and> pool_inv b'
    \<and> (\<forall>s. pool_abs b' s = filter (\<lambda>ord. order_id ord \<noteq> i) (pool_abs b s)) \<and> \<not> pool_has_order i b'
    \<and> pool_capacity b' = pool_capacity b
    \<and> length (pool_free b') = length (pool_free b) + (if pool_has_order i b then 1 else 0)"
proof -
  obtain Q F where rep: "pool_rep b Q F" "pool_abs b = rep_abs b Q" "lob_inv (rep_abs b Q)"
    using assms by (rule pool_invE)
  let ?bk = "\<lambda>s. filter (\<lambda>ord. order_id ord \<noteq> i) (rep_abs b Q s)"
  have lob: "lob_cancel i (rep_abs b Q) = (i \<in> lob_ids (rep_abs b Q), ?bk)"
    by (simp add: lob_cancel_def)
  obtain b' Q' F' where b': "pool_cancel_order i b = Some (i \<in> lob_ids (rep_abs b Q), b')"
    "pool_rep b' Q' F'" "rep_abs b' Q' = ?bk" "length (nodes b') = length (nodes b)"
    using pool_cancel_rep [OF rep(1,3) lob] by blast
  have inv': "pool_inv b'" "pool_abs b' = ?bk"
    using b' lob_cancel_inv [OF rep(3) lob] by (auto intro: pool_invI simp: pool_rep_abs)
  have has: "pool_has_order i b \<longleftrightarrow> i \<in> lob_ids (rep_abs b Q)" "\<not> pool_has_order i b'"
    using pool_has_order_correct [OF assms] pool_has_order_correct [OF inv'(1)] rep(2) inv'(2)
    by (auto simp: lob_ids_side [of _ Buy])
  have "length (nodes b) = length (lob_orders (rep_abs b Q)) + length F"
    "length (nodes b') = length (lob_orders ?bk) + length F'"
    using pool_rep_slots [OF rep(1)] pool_rep_slots [OF b'(2)] pool_rep_total [OF rep(1)]
      pool_rep_total [OF b'(2)] b'(3) by simp_all
  moreover have "length (lob_orders (rep_abs b Q))
      = length (lob_orders ?bk) + (if i \<in> lob_ids (rep_abs b Q) then 1 else 0)"
    by (rule lob_cancel_count [OF rep(3)])
  ultimately have "length F' = length F + (if i \<in> lob_ids (rep_abs b Q) then 1 else 0)"
    using b'(4) by simp
  then show ?thesis
    using b' inv' has rep(1,2) by (auto simp: pool_capacity_def pool_rep_unique)
qed

theorem pool_cancel_correct_witness:
  "\<exists>b'. pool_cancel_order 7 (pool_new 4) = Some (pool_has_order 7 (pool_new 4), b') \<and> pool_inv b'"
  using pool_cancel_correct [of "pool_new 4" 7] pool_new_correct(1) [of 4] by auto



text \<open>C21. No quantity appears or disappears in the pool engine: what an accepted order traded
  left the opposite side, and together with what still rests of it it is the whole order
  (a limit order with nothing resting was filled completely).\<close>

theorem pool_quantity_conserved:
  assumes "pool_inv b" "pool_total_orders b < 2 ^ 31"
    and "pool_submit_order ord ts b = Some (True, ts @ ts1, b')"
  shows "sum_list (map (unat \<circ> remaining_quantity) (pool_abs b (opposite (side ord))))
      = sum_list (map (unat \<circ> remaining_quantity) (pool_abs b' (opposite (side ord))))
        + sum_list (map (unat \<circ> trade_quantity) ts1)
    \<and> unat (remaining_quantity (normalise ord)) = sum_list (map (unat \<circ> trade_quantity) ts1)
      + (case pool_get_order (order_id ord) b' of
           Some (Some r) \<Rightarrow> unat (remaining_quantity r)
         | _ \<Rightarrow> if otype ord = Limit then 0
              else unat (remaining_quantity (normalise ord)) - sum_list (map (unat \<circ> trade_quantity) ts1))"
  using pool_conservation [OF assms] by blast

theorem pool_quantity_conserved_witness:
  "\<exists>b b'. pool_submit_order sample_buy [] b = Some (True, [] @ sample_trades, b')
    \<and> sum_list (map (unat \<circ> remaining_quantity) (pool_abs b (opposite (side sample_buy))))
      = sum_list (map (unat \<circ> remaining_quantity) (pool_abs b' (opposite (side sample_buy))))
        + sum_list (map (unat \<circ> trade_quantity) sample_trades)"
proof -
  obtain b b' where b: "pool_inv b" "pool_total_orders b < 2 ^ 31"
    "pool_submit_order sample_buy [] b = Some (True, [] @ sample_trades, b')"
    using sample_pool_state by auto
  from pool_quantity_conserved [OF b] b(3) show ?thesis by blast
qed

text \<open>C22. The book of the pool engine is never crossed: after any sequence of actions the best
  bid is below the best ask.\<close>

theorem pool_never_crossed:
  assumes "capacity < 2 ^ 32" "length actions \<le> 2 ^ 31"
    and "run_actions pool_submit_order pool_cancel_order actions [] (pool_new capacity) = Some (rs, ts, b)"
    and "pool_best_bid b = Some p" "pool_best_ask b = Some q"
  shows "p < q"
proof -
  obtain rs1 ts1 bk where "lob_run actions lob_empty = (rs1, ts1, bk)"
    by (cases "lob_run actions lob_empty")
  then have inv: "pool_inv b" using pool_run_new [OF assms(1,2)] assms(3) by auto
  then have "uncrossed (pool_abs b)" by (simp add: pool_inv_def lob_inv_def)
  then show ?thesis
    using assms(4,5) unfolding pool_best_correct [OF inv] lob_best_def uncrossed_def
    by (auto split: list.splits)
qed

theorem pool_never_crossed_witness:
  "\<exists>rs ts b. run_actions pool_submit_order pool_cancel_order quoted_actions [] (pool_new 2) = Some (rs, ts, b)
    \<and> pool_best_bid b = Some 99 \<and> pool_best_ask b = Some 100 \<and> (99 :: price) < 100"
proof -
  obtain rs ts b where b: "run_actions pool_submit_order pool_cancel_order quoted_actions [] (pool_new 2)
      = Some (rs, ts, b)" "pool_best_bid b = Some 99" "pool_best_ask b = Some 100"
    using quoted_run by (auto split: option.splits)
  with pool_never_crossed [of 2 quoted_actions rs ts b] show ?thesis
    by (auto simp: quoted_actions_def)
qed

text \<open>C23. Every trade the pool engine reports is for a positive quantity, names the submitted
  order as taker and an order resting on the opposite side as maker, is at the maker's price
  and is never worse than the taker's limit.\<close>

theorem pool_trades_within_limits:
  assumes "pool_inv b" "pool_total_orders b < 2 ^ 31"
    and "pool_submit_order ord ts b = Some (True, ts @ ts1, b')" "t \<in> set ts1"
  shows "trade_quantity t \<noteq> 0 \<and> taker_order_id t = order_id ord \<and> aggressor_side t = side ord
    \<and> (\<exists>m \<in> set (pool_abs b (opposite (side ord))). maker_order_id t = order_id m
        \<and> trade_price t = price m \<and> trade_quantity t \<le> remaining_quantity m)
    \<and> (otype ord = Limit \<longrightarrow>
        (if side ord = Buy then trade_price t \<le> price ord else price ord \<le> trade_price t))"
proof -
  obtain ts2 where s: "lob_submit ord (pool_abs b) = (True, ts2, pool_abs b')" "ts @ ts1 = ts @ ts2"
    by (rule pool_submit_cases [OF assms(1-3)])
  obtain ord' rest where m: "lob_match (normalise ord) (pool_abs b (opposite (side ord))) = (ts1, ord', rest)"
    by (rule lob_submit_accepted [OF s(1)]) (use s(2) in auto)
  have "\<forall>m \<in> set (pool_abs b (opposite (side ord))). remaining_quantity m \<noteq> 0"
    using assms(1) by (auto simp: pool_inv_def lob_inv_def resting_ok_def)
  with lob_match_trades [OF m assms(4)] show ?thesis
    by (cases "side ord") (auto simp: crosses_def)
qed

theorem pool_trades_within_limits_witness:
  "\<exists>b b'. pool_submit_order sample_buy [] b = Some (True, [] @ sample_trades, b')
    \<and> trade_quantity (hd sample_trades) \<noteq> 0
    \<and> (\<exists>m \<in> set (pool_abs b (opposite (side sample_buy))). maker_order_id (hd sample_trades) = order_id m)"
proof -
  obtain b b' where b: "pool_inv b" "pool_total_orders b < 2 ^ 31"
    "pool_submit_order sample_buy [] b = Some (True, [] @ sample_trades, b')"
    using sample_pool_state by auto
  have "hd sample_trades \<in> set sample_trades" by (simp add: sample_trades_def)
  from pool_trades_within_limits [OF b this] b(3) show ?thesis by blast
qed

text \<open>C24. The pool engine rejects exactly the orders with quantity zero, limit orders at price
  zero and ids that already rest; a rejected submission changes nothing and reports no trade.\<close>

theorem pool_rejects:
  assumes "pool_inv b" "pool_total_orders b < 2 ^ 31"
  shows "(\<exists>ts' b'. pool_submit_order ord ts b = Some (False, ts', b')) =
      (initial_quantity ord = 0 \<or> otype ord = Limit \<and> price ord = 0 \<or> pool_has_order (order_id ord) b)
    \<and> (\<forall>ts' b'. pool_submit_order ord ts b = Some (False, ts', b') \<longrightarrow> ts' = ts \<and> b' = b)"
proof -
  obtain Q F where rep: "pool_rep b Q F" "pool_abs b = rep_abs b Q"
    using assms(1) by (rule pool_invE)
  obtain ok ts1 bk' where lob: "lob_submit ord (pool_abs b) = (ok, ts1, bk')"
    by (cases "lob_submit ord (pool_abs b)")
  have "pool_room (Suc 0) b" using assms(2) by (simp add: pool_room_def)
  from pool_submit_refines [OF assms(1) this lob, of ts]
  obtain b1 where run: "pool_submit_order ord ts b = Some (ok, ts @ ts1, b1)" by blast
  have ok: "ok \<longleftrightarrow> acceptable ord \<and> order_id ord \<notin> lob_ids (pool_abs b)"
    using lob by (auto simp: lob_submit_def Let_def split: if_splits prod.splits)
  have "ts' = ts \<and> b' = b" if "pool_submit_order ord ts b = Some (False, ts', b')" for ts' b'
    using that run ok unfolding pool_submit_unfold [OF rep(1)] rep(2) by (auto split: if_splits)
  moreover have "(\<exists>ts' b'. pool_submit_order ord ts b = Some (False, ts', b')) \<longleftrightarrow> \<not> ok"
    using run by auto
  ultimately show ?thesis
    using ok pool_has_order_correct [OF assms(1)]
    by (cases "otype ord") (auto simp: acceptable_def)
qed

theorem pool_rejects_witness:
  "(\<exists>ts' b'. pool_submit_order (limit_order 1 Buy 0 5) [] (pool_new 1) = Some (False, ts', b'))"
  using pool_rejects [of "pool_new 1" "limit_order 1 Buy 0 5" "[]"] pool_new_correct(1) [of 1]
  by (simp add: limit_order_def pool_total_orders_def pool_new_def)

text \<open>\<^verbatim>\<open>volume_at_price\<close> of the baseline engine is the sum of the remaining
  quantities resting at that price, modulo \<open>2 ^ 32\<close> as the 32-bit accumulator gives it.\<close>

theorem stl_volume_is_sum:
  assumes "stl_inv b"
  shows "\<exists>v. stl_volume_at_price s p b = Some v
    \<and> unat v = sum_list (map (unat \<circ> remaining_quantity) (filter (\<lambda>ord. price ord = p) (stl_abs b s))) mod 2 ^ 32"
  using stl_volume_correct [OF assms, of s p]
  by (simp add: lob_volume_def unat_sum_list comp_def)

theorem stl_volume_is_sum_witness:
  "\<exists>v. stl_volume_at_price Buy 5 stl_empty = Some v
    \<and> unat v = sum_list (map (unat \<circ> remaining_quantity) (filter (\<lambda>ord. price ord = 5) (stl_abs stl_empty Buy))) mod 2 ^ 32"
  using stl_volume_is_sum [OF stl_empty_correct(1)] by blast

text \<open>The pool engine's \<^verbatim>\<open>volume_at_price\<close> does not follow the trades: a partial
  fill of the only resting order leaves the reported volume at the full quantity, where the
  baseline engine reports what is left (an engine deviation; the two engines otherwise agree).\<close>

theorem pool_volume_stale:
  "map_option (\<lambda>(_, _, b). pool_volume_at_price Sell 100 b)
      (run_actions pool_submit_order pool_cancel_order partial_fill_actions [] (pool_new 4)) = Some 10
   \<and> Option.bind (run_actions stl_submit_order stl_cancel_order partial_fill_actions [] stl_empty)
      (\<lambda>(_, _, b). stl_volume_at_price Sell 100 b) = Some 6"
  by (intro conjI) code_simp+



text \<open>The benchmark harness measures the same work on both engines: whatever the warm-up,
  the trade count and the final book size are equal, because \<^verbatim>\<open>clear\<close> really empties
  the engine, free list included.\<close>

theorem benchmarks_agree:
  assumes "capacity < 2 ^ 32" "2 * length actions \<le> 2 ^ 31"
  shows "\<exists>n m. run_benchmark stl_submit_order stl_cancel_order stl_clear stl_total_orders actions warmup stl_empty
      = Some (n, m)
    \<and> run_benchmark pool_submit_order pool_cancel_order pool_clear pool_total_orders actions warmup (pool_new capacity)
      = Some (n, m)"
proof -
  obtain rs ts bk where r: "lob_run actions lob_empty = (rs, ts, bk)"
    by (cases "lob_run actions lob_empty")
  have "run_benchmark stl_submit_order stl_cancel_order stl_clear stl_total_orders actions warmup stl_empty
      = Some (length ts, length (lob_orders bk))"
    by (rule stl.benchmark_refines [OF _ _ r]) simp_all
  moreover have "run_benchmark pool_submit_order pool_cancel_order pool_clear pool_total_orders actions warmup
      (pool_new capacity) = Some (length ts, length (lob_orders bk))"
    by (rule pool.benchmark_refines [OF _ _ r])
      (use assms in \<open>simp_all add: pool_new_correct pool_new_room\<close>)
  ultimately show ?thesis by blast
qed

theorem benchmarks_agree_witness:
  "\<exists>n m. run_benchmark pool_submit_order pool_cancel_order pool_clear pool_total_orders sample_actions 2 (pool_new 1)
      = Some (n, m)"
  using benchmarks_agree [of 1 sample_actions 2] by (auto simp: sample_actions_def)

end
