(* ===== verification/Spsc_Queue.thy ===== *)
theory Spsc_Queue
  imports Titan_Prelude "HOL-Library.Monad_Syntax"
begin

text \<open>
  The bounded ring buffer of \<^verbatim>\<open>include/spsc_queue.hpp\<close>, called by one thread at a
  time: head and tail are 64-bit counters that only grow and wrap around, a position in the
  buffer is a counter masked to the capacity, and the fill level is the wrapped difference
  of the counters. The locale \<open>bounded_fifo\<close> is what its clients rely on. Reading an element
  with \<^verbatim>\<open>std::move\<close> leaves an unspecified value in the slot; the slot keeps its value
  here, and no operation reads it again before a push overwrites it.
\<close>

unbundle bit_operations_syntax

section \<open>Rounding the capacity\<close>

partial_function (option) round_up_loop :: "u64 \<Rightarrow> u64 \<Rightarrow> u64 option" where
  "round_up_loop val pow =
     (if pow < val then round_up_loop val (push_bit 1 pow) else Some pow)"

definition round_up_power_of_two :: "u64 \<Rightarrow> u64 option" where
  "round_up_power_of_two val = round_up_loop val 1"

declare round_up_loop.simps [code]

lemma push_bit_exp: "push_bit 1 (2 ^ k) = (2 ^ Suc k :: u64)"
  by (simp add: push_bit_eq_mult)

lemma unat_exp: "k < 64 \<Longrightarrow> unat (2 ^ k :: u64) = 2 ^ k"
  using power_strict_increasing [of k 64 "2 :: nat"] by (intro of_nat_inverse) simp_all

lemma round_up_loop_returns:
  assumes "k < 64" "unat val \<le> 2 ^ 63" "k = 0 \<or> 2 ^ (k - 1) < unat val"
  shows "\<exists>n < 64. round_up_loop val (2 ^ k) = Some (2 ^ n) \<and> unat val \<le> 2 ^ n
    \<and> (n = 0 \<or> 2 ^ (n - 1) < unat val)"
  using assms
proof (induction "63 - k" arbitrary: k)
  case 0
  then have k: "k = 63" by simp
  have "\<not> 2 ^ k < val"
    using 0 unat_exp [of k] by (simp add: k word_less_nat_alt)
  then have "round_up_loop val (2 ^ k) = Some (2 ^ k)"
    by (subst round_up_loop.simps) simp
  then show ?case
    using 0 k by (intro exI [of _ 63]) simp
next
  case (Suc d)
  show ?case
  proof (cases "2 ^ k < unat val")
    case True
    then have "2 ^ k < val" using unat_exp [OF Suc.prems(1)] by (simp add: word_less_nat_alt)
    then have "round_up_loop val (2 ^ k) = round_up_loop val (2 ^ Suc k)"
      by (subst round_up_loop.simps) (simp only: if_True push_bit_exp)
    moreover have "\<exists>n < 64. round_up_loop val (2 ^ Suc k) = Some (2 ^ n) \<and> unat val \<le> 2 ^ n
        \<and> (n = 0 \<or> 2 ^ (n - 1) < unat val)"
      using Suc.hyps(2) Suc.prems True by (intro Suc.hyps(1)) simp_all
    ultimately show ?thesis by simp
  next
    case False
    then have "\<not> 2 ^ k < val" using unat_exp [OF Suc.prems(1)] by (simp add: word_less_nat_alt)
    then have "round_up_loop val (2 ^ k) = Some (2 ^ k)"
      by (subst round_up_loop.simps) simp
    with False Suc.prems show ?thesis by auto
  qed
qed

lemma round_up_loop_values:
  assumes "round_up_loop val pow = Some r" "\<exists>k. pow = 2 ^ k"
  shows "\<not> r < val \<and> (\<exists>k. r = 2 ^ k)"
proof -
  have "(\<exists>k. pow = 2 ^ k) \<longrightarrow> \<not> r < val \<and> (\<exists>k. r = 2 ^ k)"
    using assms(1)
  proof (rule round_up_loop.raw_induct [rotated])
    fix loop :: "u64 \<Rightarrow> u64 \<Rightarrow> u64 option" and val pow r
    assume IH: "\<And>val pow r. loop val pow = Some r \<Longrightarrow> (\<exists>k. pow = 2 ^ k) \<longrightarrow> \<not> r < val \<and> (\<exists>k. r = 2 ^ k)"
      and ret: "(if pow < val then loop val (push_bit 1 pow) else Some pow) = Some r"
    show "(\<exists>k. pow = 2 ^ k) \<longrightarrow> \<not> r < val \<and> (\<exists>k. r = 2 ^ k)"
    proof
      assume "\<exists>k. pow = 2 ^ k"
      then have nxt: "\<exists>k. push_bit 1 pow = 2 ^ k" using push_bit_exp by blast
      show "\<not> r < val \<and> (\<exists>k. r = 2 ^ k)"
      proof (cases "pow < val")
        case True
        with ret nxt show ?thesis by (intro IH [rule_format]) simp_all
      next
        case False
        with ret \<open>\<exists>k. pow = 2 ^ k\<close> show ?thesis by simp
      qed
    qed
  qed
  with assms(2) show ?thesis by simp
qed

text \<open>Above \<open>2 ^ 63\<close> no power of two is large enough and the shift runs into zero for ever.\<close>

lemma round_up_loop_diverges:
  assumes "2 ^ 63 < unat val"
  shows "round_up_loop val 1 = None"
proof (rule ccontr)
  assume "round_up_loop val 1 \<noteq> None"
  then obtain r where "round_up_loop val 1 = Some r" by auto
  moreover have "\<exists>k. (1 :: u64) = 2 ^ k" by (rule exI [of _ 0]) simp
  ultimately obtain k where k: "\<not> r < val" "r = 2 ^ k"
    using round_up_loop_values by blast
  have "unat r \<le> 2 ^ 63"
  proof (cases "k < 64")
    case True
    then have "unat r = 2 ^ k" by (simp add: k(2) unat_exp)
    also have "\<dots> \<le> 2 ^ 63" using True by (intro power_increasing) simp_all
    finally show ?thesis .
  next
    case False
    then have "r = 0" by (simp add: k(2) exp_eq_zero_iff)
    then show ?thesis by simp
  qed
  with assms k(1) show False by (simp add: word_less_nat_alt)
qed

section \<open>State and operations\<close>

record 'a spsc_queue =
  q_capacity :: u64
  q_mask :: u64
  q_buffer :: "'a list"
  q_head :: u64
  q_tail :: u64

text \<open>The buffer starts with \<^verbatim>\<open>capacity_\<close> default-constructed elements.\<close>

definition spsc_new :: "'a \<Rightarrow> u64 \<Rightarrow> 'a spsc_queue option" where
  "spsc_new dflt capacity =
     do {
       c \<leftarrow> round_up_power_of_two capacity;
       Some \<lparr>q_capacity = c, q_mask = c - 1, q_buffer = replicate (unat c) dflt, q_head = 0, q_tail = 0\<rparr>
     }"

definition push :: "'a \<Rightarrow> 'a spsc_queue \<Rightarrow> bool \<times> 'a spsc_queue" where
  "push item q =
     (let current_tail = q_tail q; current_head = q_head q in
      if current_tail - current_head \<ge> q_capacity q then (False, q)
      else (True, q\<lparr>q_buffer := (q_buffer q)[unat (current_tail AND q_mask q) := item],
                    q_tail := current_tail + 1\<rparr>))"

definition pop :: "'a spsc_queue \<Rightarrow> 'a option \<times> 'a spsc_queue" where
  "pop q =
     (let current_head = q_head q; current_tail = q_tail q in
      if current_head = current_tail then (None, q)
      else (Some (q_buffer q ! unat (current_head AND q_mask q)), q\<lparr>q_head := current_head + 1\<rparr>))"

text \<open>The elements appended to \<^verbatim>\<open>out_items\<close>; their number is the returned count.\<close>

definition pop_batch :: "u64 \<Rightarrow> 'a spsc_queue \<Rightarrow> 'a list \<times> 'a spsc_queue" where
  "pop_batch max_items q =
     (let current_head = q_head q; current_tail = q_tail q;
          available = current_tail - current_head
      in if available = 0 then ([], q)
         else let count = (if available < max_items then available else max_items)
           in (map (\<lambda>i. q_buffer q ! unat ((current_head + word_of_nat i) AND q_mask q)) [0..<unat count],
               q\<lparr>q_head := current_head + count\<rparr>))"

definition spsc_size :: "'a spsc_queue \<Rightarrow> u64" where
  "spsc_size q = (if q_tail q \<ge> q_head q then q_tail q - q_head q else 0)"

definition spsc_empty :: "'a spsc_queue \<Rightarrow> bool" where
  "spsc_empty q \<longleftrightarrow> q_head q = q_tail q"

definition spsc_capacity :: "'a spsc_queue \<Rightarrow> u64" where
  "spsc_capacity q = q_capacity q"

section \<open>The bounded queue it implements\<close>

definition slot :: "'a spsc_queue \<Rightarrow> u64 \<Rightarrow> nat" where
  "slot q counter = unat (counter AND q_mask q)"

definition fill :: "'a spsc_queue \<Rightarrow> nat" where
  "fill q = unat (q_tail q - q_head q)"

definition contents :: "'a spsc_queue \<Rightarrow> 'a list" where
  "contents q = map (\<lambda>i. q_buffer q ! slot q (q_head q + word_of_nat i)) [0..<fill q]"

definition spsc_inv :: "'a spsc_queue \<Rightarrow> bool" where
  "spsc_inv q \<longleftrightarrow>
     (\<exists>n < 64. q_capacity q = 2 ^ n) \<and> q_mask q = q_capacity q - 1
     \<and> length (q_buffer q) = unat (q_capacity q) \<and> q_tail q - q_head q \<le> q_capacity q"

lemma length_contents [simp]: "length (contents q) = fill q"
  by (simp add: contents_def)

lemma contents_empty_fill: "contents q = [] \<longleftrightarrow> fill q = 0"
  using length_contents [of q] by (metis length_0_conv)

lemma slot_mod:
  assumes "spsc_inv q"
  shows "slot q c = unat c mod unat (q_capacity q)"
proof -
  obtain n where n: "n < 64" "q_capacity q = 2 ^ n" "q_mask q = 2 ^ n - 1"
    using assms by (auto simp: spsc_inv_def)
  have "c AND q_mask q = take_bit n c"
    by (simp add: n(3) take_bit_eq_mask mask_eq_exp_minus_1)
  then show ?thesis
    unfolding slot_def n(2) unat_exp [OF n(1)] by (simp add: unsigned_take_bit_eq flip: take_bit_eq_mod)
qed

lemma capacity_dvd: "spsc_inv q \<Longrightarrow> unat (q_capacity q) dvd 2 ^ 64"
proof -
  assume "spsc_inv q"
  then obtain n where "n < 64" "unat (q_capacity q) = 2 ^ n"
    by (auto simp: spsc_inv_def unat_exp)
  then show ?thesis by (simp only: le_imp_power_dvd order.strict_implies_order)
qed

lemma slot_add:
  assumes "spsc_inv q"
  shows "slot q (c + word_of_nat k) = (unat c + k) mod unat (q_capacity q)"
proof -
  have "unat (c + word_of_nat k) = (unat c + k) mod 2 ^ 64"
    by (simp add: unat_word_ariths unat_of_nat mod_simps)
  then show ?thesis
    unfolding slot_mod [OF assms] by (simp only: mod_mod_cancel capacity_dvd [OF assms])
qed

lemma capacity_pos: "spsc_inv q \<Longrightarrow> 0 < unat (q_capacity q)"
  by (auto simp: spsc_inv_def unat_exp)

lemma slot_bound: "spsc_inv q \<Longrightarrow> slot q c < length (q_buffer q)"
  using capacity_pos [of q] by (simp add: slot_mod) (simp add: spsc_inv_def)

lemma fill_bound: "spsc_inv q \<Longrightarrow> fill q \<le> unat (q_capacity q)"
  by (auto simp: spsc_inv_def fill_def word_le_nat_alt)

text \<open>Two positions closer than the capacity never share a slot.\<close>

lemma slot_inj:
  assumes inv: "spsc_inv q" and "i < unat (q_capacity q)" "j < unat (q_capacity q)"
    and "slot q (c + word_of_nat i) = slot q (c + word_of_nat j)"
  shows "i = j"
  using assms(2-4) unfolding slot_add [OF inv] by (rule mod_window)

section \<open>The operations on the contents\<close>

lemma capacity_small: "spsc_inv q \<Longrightarrow> unat (q_capacity q) \<le> 2 ^ 63"
proof -
  assume "spsc_inv q"
  then obtain n where "n < 64" "unat (q_capacity q) = 2 ^ n"
    by (auto simp: spsc_inv_def unat_exp)
  moreover from this have "(2 :: nat) ^ n \<le> 2 ^ 63" by (intro power_increasing) simp_all
  ultimately show ?thesis by simp
qed

lemma fill_at: "q_head q + word_of_nat (fill q) = q_tail q"
  by (simp add: fill_def)

lemma full_iff: "q_tail q - q_head q \<ge> q_capacity q \<longleftrightarrow> fill q \<ge> unat (q_capacity q)"
  by (simp add: fill_def word_le_nat_alt)

lemma spsc_inv_move:
  assumes "spsc_inv q" "t - h \<le> q_capacity q" "length buf = length (q_buffer q)"
  shows "spsc_inv (q\<lparr>q_head := h, q_tail := t, q_buffer := buf\<rparr>)"
  using assms by (auto simp: spsc_inv_def)

lemma slot_sel [simp]:
  "slot (q\<lparr>q_head := h\<rparr>) c = slot q c" "slot (q\<lparr>q_tail := t\<rparr>) c = slot q c"
  "slot (q\<lparr>q_buffer := buf\<rparr>) c = slot q c"
  by (simp_all add: slot_def)

lemma push_full:
  "fill q \<ge> unat (q_capacity q) \<Longrightarrow> push x q = (False, q)"
  by (simp add: push_def Let_def full_iff)

lemma push_accepts:
  assumes inv: "spsc_inv q" and room: "fill q < unat (q_capacity q)"
  shows "\<exists>q'. push x q = (True, q') \<and> spsc_inv q' \<and> contents q' = contents q @ [x]
    \<and> q_capacity q' = q_capacity q"
proof -
  let ?s = "slot q (q_tail q)"
  define q' where "q' = q\<lparr>q_buffer := (q_buffer q)[?s := x], q_tail := q_tail q + 1\<rparr>"
  have run: "push x q = (True, q')"
    using room by (simp add: push_def Let_def full_iff q'_def slot_def)
  have tail: "q_tail q' - q_head q' = (q_tail q - q_head q) + word_of_nat 1"
    by (simp add: q'_def)
  have fill': "fill q' = Suc (fill q)"
    unfolding fill_def tail using room capacity_small [OF inv]
    by (subst unat_add_small) (simp_all add: fill_def)
  have "q_tail q' - q_head q' \<le> q_capacity q"
    using fill' room by (simp add: word_le_nat_alt fill_def)
  then have inv': "spsc_inv q'"
    using inv by (auto simp: spsc_inv_def q'_def)
  have old: "q_buffer q' ! slot q' (q_head q' + word_of_nat i) = q_buffer q ! slot q (q_head q + word_of_nat i)"
    if "i < fill q" for i
  proof -
    have "slot q (q_head q + word_of_nat i) \<noteq> slot q (q_head q + word_of_nat (fill q))"
      using slot_inj [OF inv, of i "fill q"] that room by auto
    then show ?thesis by (simp add: q'_def fill_at)
  qed
  have new: "q_buffer q' ! slot q' (q_head q' + word_of_nat (fill q)) = x"
    using slot_bound [OF inv, of "q_tail q"] by (simp add: q'_def fill_at)
  have "contents q' = contents q @ [x]"
    unfolding contents_def fill' using old new by simp
  with run inv' show ?thesis by (auto simp: q'_def)
qed

text \<open>Moving the head forward drops elements from the front.\<close>

lemma advance_head:
  assumes inv: "spsc_inv q" and k: "k \<le> fill q"
  defines "q' \<equiv> q\<lparr>q_head := q_head q + word_of_nat k\<rparr>"
  shows "contents q' = drop k (contents q)" "spsc_inv q'"
proof -
  have eq: "q_tail q' - q_head q' = (q_tail q - q_head q) - word_of_nat k"
    by (simp add: q'_def)
  have u: "unat (word_of_nat k :: u64) = k"
    using k fill_bound [OF inv] capacity_small [OF inv] by (intro of_nat_inverse) simp_all
  then have "word_of_nat k \<le> q_tail q - q_head q"
    using k by (simp add: word_le_nat_alt fill_def)
  from unat_sub [OF this] have fill': "fill q' = fill q - k"
    unfolding fill_def eq u .
  show "spsc_inv q'"
    using inv fill' fill_bound [OF inv] by (auto simp: spsc_inv_def q'_def fill_def word_le_nat_alt)
  have "map (\<lambda>i. q_buffer q ! slot q (q_head q + word_of_nat (k + i))) [0..<fill q - k]
      = map (\<lambda>i. q_buffer q ! slot q (q_head q + word_of_nat i)) [k..<fill q]"
    by (rule nth_equalityI) simp_all
  then show "contents q' = drop k (contents q)"
    unfolding contents_def fill' by (simp add: q'_def drop_map add.assoc)
qed

lemma pop_contents:
  assumes inv: "spsc_inv q"
  shows "contents q = [] \<Longrightarrow> pop q = (None, q)"
    "contents q = x # xs \<Longrightarrow> \<exists>q'. pop q = (Some x, q') \<and> spsc_inv q' \<and> contents q' = xs
      \<and> q_capacity q' = q_capacity q"
proof -
  have empty: "q_head q = q_tail q \<longleftrightarrow> fill q = 0"
    unfolding fill_def unat_eq_zero by auto
  show "pop q = (None, q)" if "contents q = []"
    using that empty length_contents [of q] by (simp add: pop_def Let_def del: length_contents)
  show "\<exists>q'. pop q = (Some x, q') \<and> spsc_inv q' \<and> contents q' = xs \<and> q_capacity q' = q_capacity q"
    if c: "contents q = x # xs"
  proof -
    have f: "1 \<le> fill q" using length_contents [of q] c by (simp del: length_contents)
    then have "contents q ! 0 = q_buffer q ! slot q (q_head q)"
      by (simp add: contents_def del: upt_rec)
    then have "pop q = (Some x, q\<lparr>q_head := q_head q + word_of_nat 1\<rparr>)"
      using f empty c by (simp add: pop_def slot_def Let_def)
    with advance_head [OF inv f] c show ?thesis by simp
  qed
qed

lemma pop_batch_contents:
  assumes inv: "spsc_inv q"
  shows "\<exists>q'. pop_batch m q = (take (unat m) (contents q), q') \<and> spsc_inv q'
    \<and> contents q' = drop (unat m) (contents q) \<and> q_capacity q' = q_capacity q"
proof -
  define avail where "avail = q_tail q - q_head q"
  define count where "count = (if avail < m then avail else m)"
  have cnt: "unat count = min (fill q) (unat m)"
    by (auto simp: count_def avail_def fill_def word_less_nat_alt min_def)
  show ?thesis
  proof (cases "avail = 0")
    case True
    then have "fill q = 0" by (simp add: fill_def avail_def)
    then have "contents q = []" by (metis length_0_conv length_contents)
    with True inv show ?thesis by (simp add: pop_batch_def avail_def)
  next
    case False
    have "take (unat m) (contents q)
        = map (\<lambda>i. q_buffer q ! slot q (q_head q + word_of_nat i)) [0..<unat count]"
      unfolding contents_def cnt by (simp add: take_map take_upt_min)
    then have "pop_batch m q = (take (unat m) (contents q), q\<lparr>q_head := q_head q + word_of_nat (unat count)\<rparr>)"
      using False unfolding pop_batch_def Let_def avail_def [symmetric] count_def [symmetric]
        slot_def by simp
    moreover have "drop (unat count) (contents q) = drop (unat m) (contents q)"
      by (simp add: cnt min_def)
    ultimately show ?thesis
      using advance_head [OF inv, of "unat count"] cnt by simp
  qed
qed

lemma spsc_empty_correct: "spsc_empty q \<longleftrightarrow> contents q = []"
proof -
  have "q_head q = q_tail q \<longleftrightarrow> fill q = 0"
    unfolding fill_def unat_eq_zero by auto
  then show ?thesis
    using length_contents [of q] by (auto simp: spsc_empty_def simp del: length_contents)
qed

text \<open>
  \<^verbatim>\<open>size()\<close> compares the raw counters, so it is the fill level only as long as the
  tail counter has not wrapped past the head.
\<close>

lemma spsc_size_correct:
  "unat (q_head q) + fill q < 2 ^ 64 \<Longrightarrow> unat (spsc_size q) = fill q"
  "unat (q_head q) + fill q \<ge> 2 ^ 64 \<Longrightarrow> spsc_size q = 0"
proof -
  have t: "q_tail q = q_head q + word_of_nat (fill q)" by (simp add: fill_at)
  have head_lt: "unat (q_head q) < 2 ^ 64" using unsigned_less [of "q_head q"] by simp
  have f: "fill q < 2 ^ 64" using unsigned_less [of "q_tail q - q_head q"] by (simp add: fill_def)
  show "unat (spsc_size q) = fill q" if "unat (q_head q) + fill q < 2 ^ 64"
  proof -
    have "unat (q_tail q) = unat (q_head q) + fill q"
      unfolding t using that by (intro unat_add_small) simp
    then show ?thesis by (simp add: spsc_size_def word_le_nat_alt fill_def)
  qed
  show "spsc_size q = 0" if "unat (q_head q) + fill q \<ge> 2 ^ 64"
  proof -
    have "unat (q_tail q) = (unat (q_head q) + fill q) mod 2 ^ 64"
      unfolding t by (simp add: unat_word_ariths unat_of_nat mod_simps)
    also have "\<dots> = unat (q_head q) + fill q - 2 ^ 64"
      using f head_lt unfolding le_mod_geq [OF that] by (intro mod_less) simp
    finally have "unat (q_tail q) < unat (q_head q)" using that f by simp
    then show ?thesis by (simp add: spsc_size_def word_le_nat_alt)
  qed
qed

lemma spsc_new_correct:
  assumes "unat capacity \<le> 2 ^ 63"
  shows "\<exists>q. spsc_new dflt capacity = Some q \<and> spsc_inv q \<and> contents q = []
    \<and> unat capacity \<le> unat (q_capacity q)"
proof -
  obtain n where n: "n < 64" "round_up_loop capacity (2 ^ 0) = Some (2 ^ n)" "unat capacity \<le> 2 ^ n"
    using round_up_loop_returns [of 0 capacity] assms by auto
  then show ?thesis
    by (auto simp: spsc_new_def round_up_power_of_two_def spsc_inv_def contents_def fill_def
        unat_exp)
qed

section \<open>The contract of a bounded queue\<close>

datatype 'a queue_op = Push 'a | PopBatch u64

text \<open>A run of calls, with the accepted and the received elements in order.\<close>

fun run_queue ::
    "('a \<Rightarrow> 'q \<Rightarrow> bool \<times> 'q) \<Rightarrow> (u64 \<Rightarrow> 'q \<Rightarrow> 'a list \<times> 'q) \<Rightarrow> 'a queue_op list \<Rightarrow> 'q
      \<Rightarrow> 'a list \<times> 'a list \<times> 'q" where
  "run_queue psh pp [] q = ([], [], q)"
| "run_queue psh pp (Push x # ops) q =
     (let (ok, q) = psh x q; (sent, received, q) = run_queue psh pp ops q
      in (if ok then x # sent else sent, received, q))"
| "run_queue psh pp (PopBatch m # ops) q =
     (let (out, q) = pp m q; (sent, received, q) = run_queue psh pp ops q
      in (sent, out @ received, q))"

locale bounded_fifo =
  fixes psh :: "'a \<Rightarrow> 'q \<Rightarrow> bool \<times> 'q"
    and pp :: "u64 \<Rightarrow> 'q \<Rightarrow> 'a list \<times> 'q"
    and inv :: "'q \<Rightarrow> bool" and elems :: "'q \<Rightarrow> 'a list" and limit :: "'q \<Rightarrow> nat"
  assumes push_law: "inv q \<Longrightarrow> psh x q = (ok, q') \<Longrightarrow> inv q' \<and> limit q' = limit q
      \<and> ok = (length (elems q) < limit q) \<and> elems q' = (if ok then elems q @ [x] else elems q)"
    and pop_law: "inv q \<Longrightarrow> pp m q = (out, q') \<Longrightarrow> inv q' \<and> limit q' = limit q
      \<and> out = take (unat m) (elems q) \<and> elems q' = drop (unat m) (elems q)"
    and bound: "inv q \<Longrightarrow> length (elems q) \<le> limit q"
begin

text \<open>First in, first out: nothing is lost, repeated or reordered.\<close>

lemma run_fifo:
  "inv q \<Longrightarrow> run_queue psh pp ops q = (sent, received, q') \<Longrightarrow>
   inv q' \<and> limit q' = limit q \<and> elems q @ sent = received @ elems q'"
proof (induction ops arbitrary: q sent received)
  case Nil
  then show ?case by simp
next
  case (Cons op ops)
  show ?case
  proof (cases op)
    case (Push x)
    obtain ok q1 where p: "psh x q = (ok, q1)" by (cases "psh x q")
    obtain sent1 where r: "run_queue psh pp ops q1 = (sent1, received, q')"
      "sent = (if ok then x # sent1 else sent1)"
      using Cons.prems(2) Push p by (auto split: prod.splits)
    note l = push_law [OF Cons.prems(1) p]
    have "inv q' \<and> limit q' = limit q1 \<and> elems q1 @ sent1 = received @ elems q'"
      using Cons.IH [of q1 sent1 received] l r(1) by blast
    with l r(2) show ?thesis by (auto split: if_splits)
  next
    case (PopBatch m)
    obtain out q1 where p: "pp m q = (out, q1)" by (cases "pp m q")
    obtain received1 where r: "run_queue psh pp ops q1 = (sent, received1, q')"
      "received = out @ received1"
      using Cons.prems(2) PopBatch p by (auto split: prod.splits)
    note l = pop_law [OF Cons.prems(1) p]
    have "inv q' \<and> limit q' = limit q1 \<and> elems q1 @ sent = received1 @ elems q'"
      using Cons.IH [of q1 sent received1] l r(1) by blast
    with l r(2) show ?thesis by (metis append.assoc append_take_drop_id)
  qed
qed

end

interpretation spsc: bounded_fifo push pop_batch spsc_inv contents "\<lambda>q. unat (q_capacity q)"
proof
  fix q q' :: "'a spsc_queue" and x :: 'a and ok
  assume inv: "spsc_inv q" and p: "push x q = (ok, q')"
  show "spsc_inv q' \<and> unat (q_capacity q') = unat (q_capacity q)
    \<and> ok = (length (contents q) < unat (q_capacity q))
    \<and> contents q' = (if ok then contents q @ [x] else contents q)"
  proof (cases "fill q < unat (q_capacity q)")
    case True
    with push_accepts [OF inv True, of x] p show ?thesis by auto
  next
    case False
    with push_full [of q x] p inv show ?thesis by auto
  qed
next
  fix q q' :: "'a spsc_queue" and m out
  assume inv: "spsc_inv q" and p: "pop_batch m q = (out, q')"
  with pop_batch_contents [OF inv, of m]
  show "spsc_inv q' \<and> unat (q_capacity q') = unat (q_capacity q)
    \<and> out = take (unat m) (contents q) \<and> contents q' = drop (unat m) (contents q)"
    by auto
qed (simp add: fill_bound)

end
