(* ===== verification/Spsc_Threads.thy ===== *)
theory Spsc_Threads
  imports Spsc_Queue
begin

text \<open>
  The ring buffer under its two threads. A call is split at its atomic accesses: the producer
  loads tail, loads head, writes a slot and stores tail; the consumer loads head, loads tail,
  reads the slots one by one and stores head. \<open>spsc_step\<close> interleaves these steps in any
  order. Loads may be stale by the time they are used, as on the machine. Here every access
  takes effect at once; the memory orders of the code are the subject of
  \<open>Spsc_Release_Acquire\<close>, whose runs include these.
\<close>

unbundle bit_operations_syntax

section \<open>Threads\<close>

datatype 'a producer_pc =
    PIdle
  | PTail 'a u64
  | PBoth 'a u64 u64
  | PWritten 'a u64

datatype 'a consumer_pc =
    CIdle
  | CHead u64 u64
  | CCopy u64 u64 "'a list"

record 'a spsc_system =
  queue :: "'a spsc_queue"
  producer :: "'a producer_pc"
  consumer :: "'a consumer_pc"
  sent :: "'a list"
  received :: "'a list"

text \<open>
  One atomic step of a push; an idle producer starts to push \<open>x\<close>. \<open>sent\<close> collects the
  elements whose push returned \<^verbatim>\<open>true\<close>.
\<close>

fun producer_step :: "'a \<Rightarrow> 'a spsc_system \<Rightarrow> 'a spsc_system" where
  "producer_step x s =
     (case producer s of
        PIdle \<Rightarrow> s\<lparr>producer := PTail x (q_tail (queue s))\<rparr>
      | PTail item current_tail \<Rightarrow> s\<lparr>producer := PBoth item current_tail (q_head (queue s))\<rparr>
      | PBoth item current_tail current_head \<Rightarrow>
          if current_tail - current_head \<ge> q_capacity (queue s) then s\<lparr>producer := PIdle\<rparr>
          else s\<lparr>queue := (queue s)\<lparr>q_buffer :=
                   (q_buffer (queue s))[unat (current_tail AND q_mask (queue s)) := item]\<rparr>,
                 producer := PWritten item current_tail\<rparr>
      | PWritten item current_tail \<Rightarrow>
          s\<lparr>queue := (queue s)\<lparr>q_tail := current_tail + 1\<rparr>, producer := PIdle,
            sent := sent s @ [item]\<rparr>)"

text \<open>
  One atomic step of a batch pop of at most \<open>m\<close> elements (\<^verbatim>\<open>pop\<close> is the batch of one).
  \<open>CCopy h count acc\<close> has copied \<open>acc\<close> of the \<open>count\<close> elements it reads.
\<close>

fun consumer_step :: "u64 \<Rightarrow> 'a spsc_system \<Rightarrow> 'a spsc_system" where
  "consumer_step m s =
     (case consumer s of
        CIdle \<Rightarrow> s\<lparr>consumer := CHead m (q_head (queue s))\<rparr>
      | CHead max_items current_head \<Rightarrow>
          let available = q_tail (queue s) - current_head in
          if available = 0 then s\<lparr>consumer := CIdle\<rparr>
          else s\<lparr>consumer := CCopy current_head (if available < max_items then available else max_items) []\<rparr>
      | CCopy current_head count acc \<Rightarrow>
          if word_of_nat (length acc) < count then
            s\<lparr>consumer := CCopy current_head count
                (acc @ [q_buffer (queue s) !
                   unat ((current_head + word_of_nat (length acc)) AND q_mask (queue s))])\<rparr>
          else s\<lparr>queue := (queue s)\<lparr>q_head := current_head + count\<rparr>, consumer := CIdle,
                 received := received s @ acc\<rparr>)"

inductive spsc_step :: "'a spsc_system \<Rightarrow> 'a spsc_system \<Rightarrow> bool" where
  produce: "spsc_step s (producer_step x s)"
| consume: "spsc_step s (consumer_step m s)"

definition spsc_start :: "'a spsc_queue \<Rightarrow> 'a spsc_system" where
  "spsc_start q = \<lparr>queue = q, producer = PIdle, consumer = CIdle, sent = [], received = []\<rparr>"

text \<open>A schedule as data, for evaluation: the producer's next element or the consumer's next bound.\<close>

fun run_schedule :: "('a + u64) list \<Rightarrow> 'a spsc_system \<Rightarrow> 'a spsc_system" where
  "run_schedule [] s = s"
| "run_schedule (Inl x # sch) s = run_schedule sch (producer_step x s)"
| "run_schedule (Inr m # sch) s = run_schedule sch (consumer_step m s)"

lemma run_schedule_steps: "spsc_step\<^sup>*\<^sup>* s (run_schedule sch s)"
proof (induction sch s rule: run_schedule.induct)
  case (2 x sch s)
  then show ?case by (metis converse_rtranclp_into_rtranclp produce run_schedule.simps(2))
next
  case (3 m sch s)
  then show ?case by (metis converse_rtranclp_into_rtranclp consume run_schedule.simps(3))
qed simp

section \<open>The invariant\<close>

text \<open>
  What each thread knows. A loaded head is at most as advanced as the real one, so the
  producer can only overestimate the fill level; a loaded tail is at most as advanced as the
  real one, so the consumer can only underestimate it.
\<close>

fun producer_ok :: "'a spsc_queue \<Rightarrow> 'a producer_pc \<Rightarrow> bool" where
  "producer_ok q PIdle = True"
| "producer_ok q (PTail item t) = (t = q_tail q)"
| "producer_ok q (PBoth item t h) = (t = q_tail q \<and> fill q \<le> unat (t - h))"
| "producer_ok q (PWritten item t) =
     (t = q_tail q \<and> fill q < unat (q_capacity q) \<and> q_buffer q ! slot q t = item)"

fun consumer_ok :: "'a spsc_queue \<Rightarrow> 'a consumer_pc \<Rightarrow> bool" where
  "consumer_ok q CIdle = True"
| "consumer_ok q (CHead m h) = (h = q_head q)"
| "consumer_ok q (CCopy h count acc) =
     (h = q_head q \<and> unat count \<le> fill q \<and> length acc \<le> unat count
      \<and> acc = take (length acc) (contents q))"

definition system_inv :: "'a list \<Rightarrow> 'a spsc_system \<Rightarrow> bool" where
  "system_inv initial s \<longleftrightarrow>
     spsc_inv (queue s) \<and> producer_ok (queue s) (producer s) \<and> consumer_ok (queue s) (consumer s)
     \<and> initial @ sent s = received s @ contents (queue s)"

section \<open>Frames\<close>

text \<open>Writing the slot at the tail of a queue that is not full changes no element of it.\<close>

lemma write_free_slot:
  fixes q :: "'a spsc_queue" and x :: 'a
  assumes inv: "spsc_inv q" and room: "fill q < unat (q_capacity q)"
  defines "q' \<equiv> q\<lparr>q_buffer := (q_buffer q)[slot q (q_tail q) := x]\<rparr>"
  shows "contents q' = contents q" "spsc_inv q'" "fill q' = fill q" "slot q' c = slot q c"
    "q_buffer q' ! slot q' (q_tail q) = x"
proof -
  show "fill q' = fill q" "slot q' c = slot q c" "spsc_inv q'"
    using inv by (simp_all add: q'_def fill_def spsc_inv_def)
  have "slot q (q_tail q) \<noteq> slot q (q_head q + word_of_nat i)" if "i < fill q" for i
    using slot_inj [OF inv, of i "fill q" "q_head q"] that room by (auto simp: fill_at)
  then show "contents q' = contents q"
    by (simp add: contents_def q'_def fill_def)
  show "q_buffer q' ! slot q' (q_tail q) = x"
    using slot_bound [OF inv, of "q_tail q"] by (simp add: q'_def)
qed

text \<open>Storing the tail publishes the written slot.\<close>

lemma publish_slot:
  assumes inv: "spsc_inv q" and room: "fill q < unat (q_capacity q)"
    and x: "q_buffer q ! slot q (q_tail q) = x"
  defines "q' \<equiv> q\<lparr>q_tail := q_tail q + 1\<rparr>"
  shows "contents q' = contents q @ [x]" "spsc_inv q'" "fill q' = Suc (fill q)"
proof -
  have same: "q\<lparr>q_buffer := (q_buffer q)[slot q (q_tail q) := x], q_tail := q_tail q + 1\<rparr> = q'"
    using x by (auto simp: q'_def)
  have "push x q = (True, q')"
    using room same by (simp add: push_def Let_def full_iff slot_def [symmetric])
  with push_accepts [OF inv room, of x] show "contents q' = contents q @ [x]" "spsc_inv q'"
    by auto
  then show "fill q' = Suc (fill q)"
    by (metis length_append_singleton length_contents)
qed

lemma take_append_le: "n \<le> length xs \<Longrightarrow> take n (xs @ ys) = take n xs"
  by simp

lemma consumer_ok_grow:
  assumes "consumer_ok q pc" "q_head q' = q_head q" "contents q' = contents q @ ys"
  shows "consumer_ok q' pc"
proof -
  have "fill q \<le> fill q'"
    using arg_cong [OF assms(3), of length] by simp
  moreover have "take n (contents q') = take n (contents q)" if "n \<le> fill q" for n
    using that assms(3) by simp
  ultimately show ?thesis
    using assms by (cases pc) auto
qed

lemma producer_ok_drain:
  assumes "producer_ok q pc" "fill q' \<le> fill q" "q_tail q' = q_tail q" "q_buffer q' = q_buffer q"
    "q_capacity q' = q_capacity q" "q_mask q' = q_mask q"
  shows "producer_ok q' pc"
  using assms by (cases pc) (auto simp: slot_def)

section \<open>Preservation\<close>

lemma producer_step_inv:
  assumes inv: "system_inv initial s"
  shows "system_inv initial (producer_step x s)"
proof -
  note i = inv [unfolded system_inv_def]
  show ?thesis
  proof (cases "producer s")
    case PIdle
    with i show ?thesis by (simp add: system_inv_def)
  next
    case (PTail item t)
    with i show ?thesis by (simp add: system_inv_def fill_def)
  next
    case (PBoth item t h)
    then have t: "t = q_tail (queue s)" "fill (queue s) \<le> unat (t - h)" using i by auto
    show ?thesis
    proof (cases "t - h \<ge> q_capacity (queue s)")
      case True
      with i PBoth show ?thesis by (simp add: system_inv_def)
    next
      case False
      then have room: "fill (queue s) < unat (q_capacity (queue s))"
        using t(2) by (simp add: word_le_nat_alt)
      have sinv: "spsc_inv (queue s)" using i by simp
      note w = write_free_slot [OF sinv room, of item]
      let ?q = "(queue s)\<lparr>q_buffer := (q_buffer (queue s))[slot (queue s) (q_tail (queue s)) := item]\<rparr>"
      have "producer_step x s = s\<lparr>queue := ?q, producer := PWritten item t\<rparr>"
        using PBoth False t(1) by (simp add: slot_def)
      moreover have "consumer_ok ?q (consumer s)"
        by (rule consumer_ok_grow [of "queue s" _ _ "[]"]) (use i w in simp_all)
      ultimately show ?thesis
        using i w room t(1) by (simp add: system_inv_def)
    qed
  next
    case (PWritten item t)
    then have t: "t = q_tail (queue s)" "fill (queue s) < unat (q_capacity (queue s))"
      "q_buffer (queue s) ! slot (queue s) (q_tail (queue s)) = item" using i by auto
    have sinv: "spsc_inv (queue s)" using i by simp
    note p = publish_slot [OF sinv t(2,3)]
    let ?q = "(queue s)\<lparr>q_tail := q_tail (queue s) + 1\<rparr>"
    have "producer_step x s = s\<lparr>queue := ?q, producer := PIdle, sent := sent s @ [item]\<rparr>"
      using PWritten t(1) by simp
    moreover have "consumer_ok ?q (consumer s)"
      by (rule consumer_ok_grow [of "queue s" _ _ "[item]"]) (use i p in simp_all)
    ultimately show ?thesis
      using i p by (simp add: system_inv_def)
  qed
qed

lemma copy_next:
  assumes "n < fill q"
  shows "take n (contents q) @ [q_buffer q ! slot q (q_head q + word_of_nat n)]
    = take (Suc n) (contents q)"
proof -
  have "contents q ! n = q_buffer q ! slot q (q_head q + word_of_nat n)"
    using assms by (simp add: contents_def)
  with assms show ?thesis by (simp add: take_Suc_conv_app_nth)
qed

lemma length_less_count:
  fixes count :: u64
  assumes "spsc_inv q" "unat count \<le> fill q" "length acc \<le> unat count"
  shows "word_of_nat (length acc) < count \<longleftrightarrow> length acc < unat count"
    "unat (word_of_nat (length acc) :: u64) = length acc"
proof -
  show u: "unat (word_of_nat (length acc) :: u64) = length acc"
    using assms fill_bound [OF assms(1)] capacity_small [OF assms(1)]
    by (intro of_nat_inverse) simp_all
  show "word_of_nat (length acc) < count \<longleftrightarrow> length acc < unat count"
    unfolding word_less_nat_alt u ..
qed

lemma consumer_step_inv:
  assumes inv: "system_inv initial s"
  shows "system_inv initial (consumer_step m s)"
proof -
  note i = inv [unfolded system_inv_def]
  have sinv: "spsc_inv (queue s)" using i by simp
  show ?thesis
  proof (cases "consumer s")
    case CIdle
    with i show ?thesis by (simp add: system_inv_def)
  next
    case (CHead mx h)
    with i show ?thesis
      by (auto simp: system_inv_def Let_def fill_def word_less_nat_alt)
  next
    case (CCopy h count acc)
    then have c: "h = q_head (queue s)" "unat count \<le> fill (queue s)" "length acc \<le> unat count"
      "acc = take (length acc) (contents (queue s))" using i by simp_all
    note lc = length_less_count [OF sinv c(2,3)]
    show ?thesis
    proof (cases "length acc < unat count")
      case True
      let ?x = "q_buffer (queue s) ! slot (queue s) (q_head (queue s) + word_of_nat (length acc))"
      have "consumer_step m s = s\<lparr>consumer := CCopy h count (acc @ [?x])\<rparr>"
        using CCopy True lc c(1) by (simp add: slot_def)
      moreover have "acc @ [?x] = take (Suc (length acc)) (contents (queue s))"
        using copy_next [of "length acc" "queue s"] True c(2,4) by simp
      ultimately show ?thesis
        using i c True by (simp add: system_inv_def)
    next
      case False
      then have len: "length acc = unat count" using c(3) by simp
      let ?q = "(queue s)\<lparr>q_head := q_head (queue s) + word_of_nat (unat count)\<rparr>"
      have "consumer_step m s = s\<lparr>queue := ?q, consumer := CIdle, received := received s @ acc\<rparr>"
        using CCopy False lc c(1) by simp
      moreover note a = advance_head [OF sinv c(2)]
      moreover have "producer_ok ?q (producer s)"
        by (rule producer_ok_drain [of "queue s"])
          (use i arg_cong [OF a(1), of length] in simp_all)
      moreover have "contents (queue s) = acc @ contents ?q"
        using a(1) c(4) len by (metis append_take_drop_id)
      ultimately show ?thesis
        using i by (simp add: system_inv_def)
    qed
  qed
qed

lemma spsc_step_inv: "spsc_step s s' \<Longrightarrow> system_inv initial s \<Longrightarrow> system_inv initial s'"
  by (erule spsc_step.cases) (simp_all only: producer_step_inv consumer_step_inv)

lemma spsc_start_inv: "spsc_inv q \<Longrightarrow> system_inv (contents q) (spsc_start q)"
  by (simp add: system_inv_def spsc_start_def)

lemma spsc_reachable_inv:
  assumes "spsc_step\<^sup>*\<^sup>* (spsc_start q) s" "spsc_inv q"
  shows "system_inv (contents q) s"
  using assms(1) by (induction rule: rtranclp_induct) (auto intro: spsc_start_inv assms(2) spsc_step_inv)

end
