(* ===== verification/Spsc_Release_Acquire.thy ===== *)
theory Spsc_Release_Acquire
  imports Spsc_Threads
begin

text \<open>
  The ring buffer under the C++ memory model, for the two atomics it uses. Every atomic keeps
  the history of its stores, and a load of the other thread's counter may return any store that
  is not older than the one it returned before; a thread reads its own counter exactly. Each
  thread has a view (a vector clock with one component per thread): a release store carries the
  view of the storing thread, an acquire load joins the view it carries, a relaxed access
  carries or joins nothing. The slots are plain memory: \<open>wrote\<close> and \<open>took\<close> hold the clock of
  the last access of each thread, and an access of one thread to a slot whose last access by the
  other one is not in its view is a data race. The step functions return \<^verbatim>\<open>None\<close>
  there, since the behaviour of the code is undefined from then on.
\<close>

unbundle bit_operations_syntax

section \<open>Memory orders and views\<close>

datatype load_order = Load_relaxed | Load_acquire
datatype store_order = Store_relaxed | Store_release

record memory_orders =
  push_load :: load_order
  push_store :: store_order
  pop_load :: load_order
  pop_store :: store_order

text \<open>The orders of the code: the cross-thread loads acquire, the stores release.\<close>

definition code_orders :: memory_orders where
  "code_orders = \<lparr>push_load = Load_acquire, push_store = Store_release,
                  pop_load = Load_acquire, pop_store = Store_release\<rparr>"

type_synonym view = "nat \<times> nat"

definition join :: "view \<Rightarrow> view \<Rightarrow> view" where
  "join v w = (max (fst v) (fst w), max (snd v) (snd w))"

fun released :: "store_order \<Rightarrow> view \<Rightarrow> view" where
  "released Store_release v = v"
| "released Store_relaxed v = (0, 0)"

fun acquired :: "load_order \<Rightarrow> view \<Rightarrow> view \<Rightarrow> view" where
  "acquired Load_acquire v w = join v w"
| "acquired Load_relaxed v w = v"

section \<open>State and steps\<close>

text \<open>
  \<open>sys\<close> holds the program counters, the slots and the newest value of each counter. The first
  component of a view counts the stores of the producer, the second those of the consumer;
  \<open>taken\<close> is auxiliary: the number of received elements at each store of head.
\<close>

record 'a ra_system =
  sys :: "'a spsc_system"
  tail_history :: "(u64 \<times> view) list"
  head_history :: "(u64 \<times> view) list"
  producer_view :: view
  consumer_view :: view
  producer_seen :: nat
  consumer_seen :: nat
  wrote :: "nat \<Rightarrow> nat"
  took :: "nat \<Rightarrow> nat"
  taken :: "nat list"

definition ra_start :: "'a spsc_queue \<Rightarrow> 'a ra_system" where
  "ra_start q =
     \<lparr>sys = spsc_start q, tail_history = [(q_tail q, (0, 0))], head_history = [(q_head q, (0, 0))],
      producer_view = (1, 0), consumer_view = (0, 1), producer_seen = 0, consumer_seen = 0,
      wrote = (\<lambda>_. 0), took = (\<lambda>_. 0), taken = [0]\<rparr>"

text \<open>A load that wants store number \<open>k\<close> gets one the coherence of the atomic allows.\<close>

definition visible_store :: "nat \<Rightarrow> nat \<Rightarrow> 'b list \<Rightarrow> nat" where
  "visible_store seen k hist = max seen (min k (length hist - 1))"

definition ra_producer_step ::
    "memory_orders \<Rightarrow> 'a \<Rightarrow> nat \<Rightarrow> 'a ra_system \<Rightarrow> 'a ra_system option" where
  "ra_producer_step mo x k s =
     (let y = sys s; q = queue y in
      case producer y of
        PIdle \<Rightarrow> Some (s\<lparr>sys := y\<lparr>producer := PTail x (q_tail q)\<rparr>\<rparr>)
      | PTail item current_tail \<Rightarrow>
          let j = visible_store (producer_seen s) k (head_history s);
              (current_head, v) = head_history s ! j
          in Some (s\<lparr>sys := y\<lparr>producer := PBoth item current_tail current_head\<rparr>,
                     producer_seen := j,
                     producer_view := acquired (push_load mo) (producer_view s) v\<rparr>)
      | PBoth item current_tail current_head \<Rightarrow>
          if current_tail - current_head \<ge> q_capacity q then Some (s\<lparr>sys := y\<lparr>producer := PIdle\<rparr>\<rparr>)
          else
            let i = unat (current_tail AND q_mask q) in
            if took s i \<le> snd (producer_view s)
            then Some (s\<lparr>sys := y\<lparr>queue := q\<lparr>q_buffer := (q_buffer q)[i := item]\<rparr>,
                                   producer := PWritten item current_tail\<rparr>,
                         wrote := (wrote s)(i := fst (producer_view s))\<rparr>)
            else None
      | PWritten item current_tail \<Rightarrow>
          Some (s\<lparr>sys := y\<lparr>queue := q\<lparr>q_tail := current_tail + 1\<rparr>, producer := PIdle,
                            sent := sent y @ [item]\<rparr>,
                  tail_history := tail_history s @
                    [(current_tail + 1, released (push_store mo) (producer_view s))],
                  producer_view := (Suc (fst (producer_view s)), snd (producer_view s))\<rparr>))"

definition ra_consumer_step ::
    "memory_orders \<Rightarrow> u64 \<Rightarrow> nat \<Rightarrow> 'a ra_system \<Rightarrow> 'a ra_system option" where
  "ra_consumer_step mo m k s =
     (let y = sys s; q = queue y in
      case consumer y of
        CIdle \<Rightarrow> Some (s\<lparr>sys := y\<lparr>consumer := CHead m (q_head q)\<rparr>\<rparr>)
      | CHead max_items current_head \<Rightarrow>
          let j = visible_store (consumer_seen s) k (tail_history s);
              (current_tail, v) = tail_history s ! j;
              available = current_tail - current_head
          in Some (s\<lparr>sys := y\<lparr>consumer :=
                       (if available = 0 then CIdle
                        else CCopy current_head (if available < max_items then available else max_items) [])\<rparr>,
                     consumer_seen := j,
                     consumer_view := acquired (pop_load mo) (consumer_view s) v\<rparr>)
      | CCopy current_head count acc \<Rightarrow>
          if word_of_nat (length acc) < count then
            let i = unat ((current_head + word_of_nat (length acc)) AND q_mask q) in
            if wrote s i \<le> fst (consumer_view s)
            then Some (s\<lparr>sys := y\<lparr>consumer := CCopy current_head count (acc @ [q_buffer q ! i])\<rparr>,
                         took := (took s)(i := snd (consumer_view s))\<rparr>)
            else None
          else Some (s\<lparr>sys := y\<lparr>queue := q\<lparr>q_head := current_head + count\<rparr>, consumer := CIdle,
                                 received := received y @ acc\<rparr>,
                       head_history := head_history s @
                         [(current_head + count, released (pop_store mo) (consumer_view s))],
                       consumer_view := (fst (consumer_view s), Suc (snd (consumer_view s))),
                       taken := taken s @ [length (received y) + length acc]\<rparr>))"

inductive ra_step :: "memory_orders \<Rightarrow> 'a ra_system \<Rightarrow> 'a ra_system \<Rightarrow> bool" for mo where
  ra_produce: "ra_producer_step mo x k s = Some s' \<Longrightarrow> ra_step mo s s'"
| ra_consume: "ra_consumer_step mo m k s = Some s' \<Longrightarrow> ra_step mo s s'"

text \<open>A state without a data race: whatever a thread does next, its behaviour is defined.\<close>

definition race_free :: "memory_orders \<Rightarrow> 'a ra_system \<Rightarrow> bool" where
  "race_free mo s \<longleftrightarrow>
     (\<forall>x k. ra_producer_step mo x k s \<noteq> None) \<and> (\<forall>m k. ra_consumer_step mo m k s \<noteq> None)"

text \<open>A schedule as data: the producer's element or the consumer's bound, and the store to load.\<close>

fun run_ra :: "memory_orders \<Rightarrow> (('a + u64) \<times> nat) list \<Rightarrow> 'a ra_system \<Rightarrow> 'a ra_system option" where
  "run_ra mo [] s = Some s"
| "run_ra mo ((Inl x, k) # sch) s = Option.bind (ra_producer_step mo x k s) (run_ra mo sch)"
| "run_ra mo ((Inr m, k) # sch) s = Option.bind (ra_consumer_step mo m k s) (run_ra mo sch)"


section \<open>The invariant\<close>

text \<open>The slot of the element number \<open>e\<close>, counted from the head of the initial queue.\<close>

definition ring_pos :: "'a spsc_queue \<Rightarrow> nat \<Rightarrow> nat" where
  "ring_pos q e = slot q (q_head q + word_of_nat e)"

definition published :: "'a spsc_queue \<Rightarrow> 'a ra_system \<Rightarrow> nat" where
  "published q s = fill q + length (sent (sys s))"

text \<open>The counters and their histories; a store carries at least its own number.\<close>

definition counters_ok :: "'a spsc_queue \<Rightarrow> 'a ra_system \<Rightarrow> bool" where
  "counters_ok q s \<longleftrightarrow>
     q_capacity (queue (sys s)) = q_capacity q \<and> q_mask (queue (sys s)) = q_mask q
     \<and> q_tail (queue (sys s)) = q_head q + word_of_nat (published q s)
     \<and> q_head (queue (sys s)) = q_head q + word_of_nat (length (received (sys s)))
     \<and> length (tail_history s) = Suc (length (sent (sys s)))
     \<and> (\<forall>k < length (tail_history s). fst (tail_history s ! k) = q_head q + word_of_nat (fill q + k))
     \<and> length (head_history s) = length (taken s)
     \<and> (\<forall>k < length (taken s). fst (head_history s ! k) = q_head q + word_of_nat (taken s ! k))
     \<and> sorted (taken s) \<and> taken s \<noteq> [] \<and> last (taken s) = length (received (sys s))"

definition views_ok :: "'a ra_system \<Rightarrow> bool" where
  "views_ok s \<longleftrightarrow>
     fst (producer_view s) = length (tail_history s) \<and> snd (producer_view s) \<le> length (head_history s)
     \<and> snd (consumer_view s) = length (head_history s) \<and> fst (consumer_view s) \<le> length (tail_history s)
     \<and> (\<forall>k < length (tail_history s). k \<le> fst (snd (tail_history s ! k))
          \<and> fst (snd (tail_history s ! k)) \<le> length (tail_history s)
          \<and> snd (snd (tail_history s ! k)) \<le> length (head_history s))
     \<and> (\<forall>k < length (head_history s). k \<le> snd (snd (head_history s ! k))
          \<and> snd (snd (head_history s ! k)) \<le> length (head_history s)
          \<and> fst (snd (head_history s ! k)) \<le> length (tail_history s))
     \<and> producer_seen s < length (head_history s) \<and> producer_seen s \<le> snd (producer_view s)
     \<and> consumer_seen s < length (tail_history s) \<and> consumer_seen s \<le> fst (consumer_view s)"

text \<open>What the newest value a thread has seen tells it about room and about elements.\<close>

fun producer_room :: "'a spsc_queue \<Rightarrow> 'a ra_system \<Rightarrow> 'a producer_pc \<Rightarrow> bool" where
  "producer_room q s (PBoth item t h) \<longleftrightarrow> h = q_head q + word_of_nat (taken s ! producer_seen s)"
| "producer_room q s (PWritten item t) \<longleftrightarrow>
     published q s < taken s ! producer_seen s + unat (q_capacity q)
     \<and> wrote s (ring_pos q (published q s)) \<le> length (tail_history s)"
| "producer_room q s pc \<longleftrightarrow> True"

fun consumer_room :: "'a spsc_queue \<Rightarrow> 'a ra_system \<Rightarrow> 'a consumer_pc \<Rightarrow> bool" where
  "consumer_room q s (CCopy h count acc) \<longleftrightarrow>
     length (received (sys s)) + unat count \<le> fill q + consumer_seen s"
| "consumer_room q s pc \<longleftrightarrow> True"

definition room_ok :: "'a spsc_queue \<Rightarrow> 'a ra_system \<Rightarrow> bool" where
  "room_ok q s \<longleftrightarrow>
     published q s \<le> taken s ! producer_seen s + unat (q_capacity q)
     \<and> length (received (sys s)) \<le> fill q + consumer_seen s
     \<and> producer_room q s (producer (sys s)) \<and> consumer_room q s (consumer (sys s))"

text \<open>
  The clocks of the slots: a queued element was written before the store of tail that
  publishes it, and an element was taken after the stores of head that do not free it.
\<close>

definition wrote_ok :: "'a spsc_queue \<Rightarrow> 'a ra_system \<Rightarrow> bool" where
  "wrote_ok q s \<longleftrightarrow>
     (\<forall>e. length (received (sys s)) \<le> e \<and> e < published q s \<longrightarrow>
        wrote s (ring_pos q e) \<le> Suc e - fill q)"

definition took_ok :: "'a spsc_queue \<Rightarrow> 'a ra_system \<Rightarrow> bool" where
  "took_ok q s \<longleftrightarrow>
     (\<forall>i. took s i = 0 \<or> (\<exists>e m. i = ring_pos q e \<and> e < published q s \<and> took s i = Suc m
        \<and> m < length (taken s) \<and> taken s ! m \<le> e))"

definition ra_inv :: "'a spsc_queue \<Rightarrow> 'a ra_system \<Rightarrow> bool" where
  "ra_inv q s \<longleftrightarrow>
     spsc_inv q \<and> system_inv (contents q) (sys s) \<and> counters_ok q s \<and> views_ok s \<and> room_ok q s
     \<and> wrote_ok q s \<and> took_ok q s"

section \<open>Positions\<close>

lemma ring_pos_mod: "spsc_inv q \<Longrightarrow> ring_pos q e = (unat (q_head q) + e) mod unat (q_capacity q)"
  by (simp add: ring_pos_def slot_add)

lemma ring_pos_neq:
  assumes "spsc_inv q" "e < e'" "e' < e + unat (q_capacity q)"
  shows "ring_pos q e \<noteq> ring_pos q e'"
proof
  assume "ring_pos q e = ring_pos q e'"
  then have same: "(unat (q_head q) + e + 0) mod unat (q_capacity q)
      = (unat (q_head q) + e + (e' - e)) mod unat (q_capacity q)"
    using assms by (simp add: ring_pos_mod)
  have "0 < unat (q_capacity q)" "e' - e < unat (q_capacity q)" using assms(2,3) by linarith+
  then have "0 = e' - e" using same by (rule mod_window)
  with assms(2) show False by simp
qed

lemma unat_distance:
  fixes h :: u64
  assumes "a \<le> b" "b < a + 2 ^ 64"
  shows "unat ((h + word_of_nat b) - (h + word_of_nat a)) = b - a"
proof -
  have "(h + word_of_nat b) - (h + word_of_nat a) = (word_of_nat (b - a) :: u64)"
    using assms(1) by (simp add: of_nat_diff)
  moreover have "unat (word_of_nat (b - a) :: u64) = b - a"
    using assms by (intro of_nat_inverse) simp_all
  ultimately show ?thesis by (simp only:)
qed

lemma ra_invD:
  assumes "ra_inv q s"
  shows "spsc_inv q" "system_inv (contents q) (sys s)" "counters_ok q s" "views_ok s" "room_ok q s"
    "wrote_ok q s" "took_ok q s" "spsc_inv (queue (sys s))"
    "producer_ok (queue (sys s)) (producer (sys s))" "consumer_ok (queue (sys s)) (consumer (sys s))"
  using assms by (simp_all add: ra_inv_def system_inv_def)

lemma ra_inv_slot:
  "counters_ok q s \<Longrightarrow> unat (c AND q_mask (queue (sys s))) = slot q c"
  by (simp add: counters_ok_def slot_def)

lemma ra_inv_lengths:
  assumes "ra_inv q s"
  shows "published q s = length (received (sys s)) + fill (queue (sys s))"
    "fill (queue (sys s)) \<le> unat (q_capacity q)" "unat (q_capacity q) \<le> 2 ^ 63"
proof -
  have sy: "system_inv (contents q) (sys s)" "counters_ok q s" "spsc_inv q"
    using assms by (auto simp: ra_inv_def)
  then have "length (contents q @ sent (sys s)) = length (received (sys s) @ contents (queue (sys s)))"
    by (simp only: system_inv_def)
  then show "published q s = length (received (sys s)) + fill (queue (sys s))"
    by (simp add: published_def)
  show "fill (queue (sys s)) \<le> unat (q_capacity q)"
    using sy fill_bound [of "queue (sys s)"] by (simp add: system_inv_def counters_ok_def)
  show "unat (q_capacity q) \<le> 2 ^ 63" by (rule capacity_small [OF sy(3)])
qed

lemma visible_store_bounds:
  assumes "seen < length hist"
  shows "seen \<le> visible_store seen k hist" "visible_store seen k hist < length hist"
  using assms by (auto simp: visible_store_def)


lemma taken_bounds:
  assumes "counters_ok q s" "k < length (taken s)"
  shows "taken s ! k \<le> length (received (sys s))"
    "m < length (taken s) \<Longrightarrow> taken s ! m < taken s ! k \<Longrightarrow> m < k"
proof -
  have srt: "sorted (taken s)" "taken s \<noteq> []" "last (taken s) = length (received (sys s))"
    using assms(1) by (simp_all add: counters_ok_def)
  have "taken s ! k \<le> taken s ! (length (taken s) - 1)"
    using assms(2) by (intro sorted_nth_mono [OF srt(1)]) simp_all
  then show "taken s ! k \<le> length (received (sys s))"
    using srt by (simp add: last_conv_nth)
  show "m < k" if "m < length (taken s)" "taken s ! m < taken s ! k"
    using sorted_nth_mono [OF srt(1), of k m] that by (cases "m < k") simp_all
qed

section \<open>No race\<close>

text \<open>The producer writes a slot only after it has seen the store of head that frees it.\<close>

lemma producer_room_left:
  assumes inv: "ra_inv q s" and pc: "producer (sys s) = PBoth item t h" "t - h < q_capacity q"
  shows "t = q_head q + word_of_nat (published q s)"
    "published q s < taken s ! producer_seen s + unat (q_capacity q)"
proof -
  note i = ra_invD [OF inv]
  note l = ra_inv_lengths [OF inv]
  let ?K = "taken s ! producer_seen s"
  show t: "t = q_head q + word_of_nat (published q s)"
    using i(3,9) pc(1) by (simp add: counters_ok_def)
  have h: "h = q_head q + word_of_nat ?K"
    using i(5) pc(1) by (simp add: room_ok_def)
  have "producer_seen s < length (taken s)"
    using i(3,4) by (simp add: views_ok_def counters_ok_def)
  from taken_bounds(1) [OF i(3) this] have "?K \<le> published q s" using l(1) by simp
  moreover have "published q s \<le> ?K + unat (q_capacity q)"
    using i(5) by (simp add: room_ok_def)
  ultimately have "unat (t - h) = published q s - ?K"
    unfolding t h using l(3) by (intro unat_distance) simp_all
  moreover have "unat (t - h) < unat (q_capacity q)"
    using pc(2) by (simp only: word_less_nat_alt)
  ultimately have "published q s - ?K < unat (q_capacity q)" by simp
  then show "published q s < ?K + unat (q_capacity q)"
    by (simp add: less_diff_conv2 add.commute)
qed

lemma producer_may_write:
  assumes inv: "ra_inv q s" and pc: "producer (sys s) = PBoth item t h" "t - h < q_capacity q"
  shows "took s (slot q t) \<le> snd (producer_view s)"
proof (cases "took s (slot q t) = 0")
  case False
  note i = ra_invD [OF inv]
  note room = producer_room_left [OF inv pc]
  have slot: "slot q t = ring_pos q (published q s)" by (simp add: room(1) ring_pos_def)
  obtain e m where e: "ring_pos q (published q s) = ring_pos q e" "e < published q s"
    "took s (slot q t) = Suc m" "m < length (taken s)" "taken s ! m \<le> e"
    using i(7) False unfolding took_ok_def slot by metis
  have "e + unat (q_capacity q) \<le> published q s"
    using ring_pos_neq [OF i(1) e(2)] e(1) by (metis not_less)
  then have "taken s ! m < taken s ! producer_seen s"
    using room(2) e(5) by simp
  moreover have "producer_seen s < length (taken s)" "producer_seen s \<le> snd (producer_view s)"
    using i(3,4) by (simp_all add: views_ok_def counters_ok_def)
  ultimately show ?thesis
    using taken_bounds(2) [OF i(3), of "producer_seen s" m] e(3,4) by simp
qed simp

text \<open>The consumer reads a slot only after it has seen the store of tail that publishes it.\<close>

lemma consumer_may_read:
  assumes inv: "ra_inv q s" and pc: "consumer (sys s) = CCopy h count acc"
    and more: "word_of_nat (length acc) < count"
  shows "h + word_of_nat (length acc) = q_head q + word_of_nat (length (received (sys s)) + length acc)"
    "length (received (sys s)) + length acc < fill q + consumer_seen s"
    "length (received (sys s)) + length acc < published q s"
    "wrote s (ring_pos q (length (received (sys s)) + length acc)) \<le> fst (consumer_view s)"
proof -
  note i = ra_invD [OF inv]
  have q: "spsc_inv (queue (sys s))" "h = q_head (queue (sys s))" "unat count \<le> fill (queue (sys s))"
    "length acc \<le> unat count"
    using i(8,10) pc by simp_all
  have less: "length acc < unat count"
    using length_less_count(1) [OF q(1,3,4)] more by simp
  let ?e = "length (received (sys s)) + length acc"
  show "h + word_of_nat (length acc) = q_head q + word_of_nat ?e"
    using i(3) q(2) by (simp add: counters_ok_def add.assoc)
  show e: "?e < fill q + consumer_seen s"
    using i(5) pc less by (simp add: room_ok_def)
  show p: "?e < published q s"
    using ra_inv_lengths(1) [OF inv] q(3) less by simp
  then have "wrote s (ring_pos q ?e) \<le> Suc ?e - fill q"
    using i(6) by (simp add: wrote_ok_def)
  also have "\<dots> \<le> consumer_seen s" using e by simp
  also have "\<dots> \<le> fst (consumer_view s)" using i(4) by (simp add: views_ok_def)
  finally show "wrote s (ring_pos q ?e) \<le> fst (consumer_view s)" .
qed

theorem ra_inv_race_free:
  assumes "ra_inv q s"
  shows "race_free code_orders s"
proof -
  have c: "counters_ok q s" using assms by (simp add: ra_inv_def)
  have cap: "q_capacity (queue (sys s)) = q_capacity q" using c by (simp add: counters_ok_def)
  have "ra_producer_step code_orders x k s \<noteq> None" for x k
  proof (cases "producer (sys s)")
    case (PBoth item t h)
    with producer_may_write [OF assms PBoth] show ?thesis
      by (simp add: ra_producer_step_def Let_def ra_inv_slot [OF c] cap not_le)
  qed (simp_all add: ra_producer_step_def Let_def split: prod.splits)
  moreover have "ra_consumer_step code_orders m k s \<noteq> None" for m k
  proof (cases "consumer (sys s)")
    case (CCopy h count acc)
    show ?thesis
    proof (cases "word_of_nat (length acc) < count")
      case True
      note r = consumer_may_read [OF assms CCopy True]
      show ?thesis
        using CCopy True r(4)
        by (simp add: ra_consumer_step_def Let_def ra_inv_slot [OF c] r(1) ring_pos_def del: of_nat_add)
    qed (simp add: ra_consumer_step_def Let_def CCopy)
  qed (simp_all add: ra_consumer_step_def Let_def split: prod.splits)
  ultimately show ?thesis by (simp add: race_free_def)
qed


section \<open>Preservation: the producer\<close>

lemma consumer_room_mono:
  assumes "consumer_room q s pc" "received (sys s') = received (sys s)"
    "consumer_seen s \<le> consumer_seen s'"
  shows "consumer_room q s' pc"
  using assms by (cases pc) simp_all

lemma producer_room_mono:
  assumes "producer_room q s pc" "sent (sys s') = sent (sys s)" "producer_seen s' = producer_seen s"
    "taken s' ! producer_seen s = taken s ! producer_seen s"
    "tail_history s' = tail_history s" "wrote s' = wrote s"
  shows "producer_room q s' pc"
  using assms by (cases pc) (simp_all add: published_def)

lemma ra_idle_producer:
  assumes inv: "ra_inv q s" and pc: "pc = PIdle \<or> (\<exists>x. pc = PTail x (q_tail (queue (sys s))))"
    and s': "s' = s\<lparr>sys := (sys s)\<lparr>producer := pc\<rparr>\<rparr>"
  shows "ra_inv q s'"
proof -
  note i = ra_invD [OF inv]
  have "system_inv (contents q) (sys s')" using i(2) pc by (auto simp: system_inv_def s')
  moreover have "counters_ok q s'" using i(3) by (simp add: s' counters_ok_def published_def)
  moreover have "views_ok s'" using i(4) by (simp add: s' views_ok_def)
  moreover have "wrote_ok q s'" using i(6) by (simp add: s' wrote_ok_def published_def)
  moreover have "took_ok q s'" using i(7) by (simp add: s' took_ok_def published_def)
  moreover have "consumer_room q s' (consumer (sys s))"
    by (rule consumer_room_mono [of q s]) (use i(5) in \<open>simp_all add: s' room_ok_def\<close>)
  then have "room_ok q s'"
    using i(5) pc by (auto simp: room_ok_def published_def s')
  ultimately show ?thesis using i(1) by (simp add: ra_inv_def)
qed

text \<open>A stale head only makes the queue look fuller than it is.\<close>

lemma ra_load_head:
  assumes inv: "ra_inv q s" and pc: "producer (sys s) = PTail item t"
    and j: "producer_seen s \<le> j" "j < length (head_history s)" "head_history s ! j = (h, v)"
    and s': "s' = s\<lparr>sys := (sys s)\<lparr>producer := PBoth item t h\<rparr>, producer_seen := j,
                    producer_view := join (producer_view s) v\<rparr>"
  shows "ra_inv q s'"
proof -
  note i = ra_invD [OF inv]
  note l = ra_inv_lengths [OF inv]
  have lt: "j < length (taken s)" using i(3) j(2) by (simp add: counters_ok_def)
  have h: "h = q_head q + word_of_nat (taken s ! j)"
    using i(3) j(3) lt by (simp add: counters_ok_def) (metis fst_conv)
  have t: "t = q_head q + word_of_nat (published q s)" "t = q_tail (queue (sys s))"
    using i(3,9) pc by (simp_all add: counters_ok_def)
  have old: "taken s ! producer_seen s \<le> taken s ! j"
    using i(3) j(1) lt by (intro sorted_nth_mono) (simp_all add: counters_ok_def)
  have room: "published q s \<le> taken s ! j + unat (q_capacity q)"
    using i(5) old by (simp add: room_ok_def)
  have "taken s ! j \<le> length (received (sys s))" by (rule taken_bounds(1) [OF i(3) lt])
  moreover from this have "unat (t - h) = published q s - taken s ! j"
    unfolding t(1) h using l(1,3) room by (intro unat_distance) simp_all
  ultimately have "fill (queue (sys s)) \<le> unat (t - h)"
    using l(1) by simp
  then have "system_inv (contents q) (sys s')"
    using i(2) t(2) by (simp add: s' system_inv_def)
  moreover have "counters_ok q s'" using i(3) by (simp add: s' counters_ok_def published_def)
  moreover have "wrote_ok q s'" using i(6) by (simp add: s' wrote_ok_def published_def)
  moreover have "took_ok q s'" using i(7) by (simp add: s' took_ok_def published_def)
  moreover have "j \<le> snd v" "snd v \<le> length (head_history s)" "fst v \<le> length (tail_history s)"
    using i(4) j(2,3) by (simp_all add: views_ok_def) (metis snd_conv)+
  then have "views_ok s'"
    using i(4) j(2) by (simp add: s' views_ok_def join_def max_def)
  moreover have "room_ok q s'"
    using i(5) h room by (simp add: room_ok_def s' published_def consumer_room_mono [of q s])
  ultimately show ?thesis using i(1) by (simp add: ra_inv_def)
qed


text \<open>The slot that is written is the position after the last published element.\<close>

lemma ra_write_slot:
  assumes inv: "ra_inv q s" and pc: "producer (sys s) = PBoth item t h" "t - h < q_capacity q"
    and sy: "sys s' = producer_step x (sys s)"
    and s': "s' = s\<lparr>sys := sys s', wrote := (wrote s)(slot q t := fst (producer_view s))\<rparr>"
  shows "ra_inv q s'"
proof -
  note i = ra_invD [OF inv]
  note l = ra_inv_lengths [OF inv]
  note room = producer_room_left [OF inv pc]
  have "system_inv (contents q) (sys s')"
    unfolding sy by (rule producer_step_inv [OF i(2)])
  moreover have cap: "q_capacity (queue (sys s)) = q_capacity q"
    using i(3) by (simp add: counters_ok_def)
  have eqs: "sent (sys s') = sent (sys s)" "received (sys s') = received (sys s)"
    "consumer (sys s') = consumer (sys s)" "producer (sys s') = PWritten item t"
    "q_capacity (queue (sys s')) = q_capacity (queue (sys s))"
    "q_mask (queue (sys s')) = q_mask (queue (sys s))"
    "q_tail (queue (sys s')) = q_tail (queue (sys s))"
    "q_head (queue (sys s')) = q_head (queue (sys s))"
    using pc sy cap by (simp_all add: not_le)
  have wr: "wrote s' = (wrote s)(ring_pos q (published q s) := length (tail_history s))"
    using i(4) by (subst s') (simp add: room(1) ring_pos_def views_ok_def)
  have same: "tail_history s' = tail_history s" "head_history s' = head_history s"
    "producer_view s' = producer_view s" "consumer_view s' = consumer_view s"
    "producer_seen s' = producer_seen s" "consumer_seen s' = consumer_seen s"
    "took s' = took s" "taken s' = taken s"
    by (subst s', simp)+
  note same = same eqs
  have pub: "published q s' = published q s" by (simp add: published_def same)
  moreover have "counters_ok q s'" using i(3) by (simp add: counters_ok_def same pub)
  moreover have "views_ok s'" using i(4) by (simp add: views_ok_def same)
  moreover have "took_ok q s'" using i(7) by (simp add: took_ok_def same pub)
  moreover have "room_ok q s'"
    using i(5) room(2) consumer_room_mono [of q s "consumer (sys s)" s']
    by (simp add: room_ok_def same pub wr)
  moreover have "wrote_ok q s'"
    unfolding wrote_ok_def
  proof (intro allI impI)
    fix e assume e: "length (received (sys s')) \<le> e \<and> e < published q s'"
    then have "published q s < e + unat (q_capacity q)"
      using room(2) taken_bounds(1) [OF i(3), of "producer_seen s"] i(3,4)
      by (simp add: pub same views_ok_def counters_ok_def)
    then have "ring_pos q e \<noteq> ring_pos q (published q s)"
      using e ring_pos_neq [OF i(1)] by (simp add: pub)
    then show "wrote s' (ring_pos q e) \<le> Suc e - fill q"
      using e i(6) by (simp add: wr wrote_ok_def pub same)
  qed
  ultimately show ?thesis using i(1) by (simp add: ra_inv_def)
qed


text \<open>The store of tail carries the clock of the slot written before it.\<close>

lemma ra_publish:
  assumes inv: "ra_inv q s" and pc: "producer (sys s) = PWritten item t"
    and sy: "sys s' = producer_step x (sys s)"
    and s': "s' = s\<lparr>sys := sys s', tail_history := tail_history s @ [(t + 1, producer_view s)],
                    producer_view := (Suc (fst (producer_view s)), snd (producer_view s))\<rparr>"
  shows "ra_inv q s'"
proof -
  note i = ra_invD [OF inv]
  have "system_inv (contents q) (sys s')"
    unfolding sy by (rule producer_step_inv [OF i(2)])
  have t: "t = q_tail (queue (sys s))" using i(9) pc by simp
  have same: "sent (sys s') = sent (sys s) @ [item]" "received (sys s') = received (sys s)"
    "consumer (sys s') = consumer (sys s)" "producer (sys s') = PIdle"
    "q_capacity (queue (sys s')) = q_capacity (queue (sys s))"
    "q_mask (queue (sys s')) = q_mask (queue (sys s))"
    "q_tail (queue (sys s')) = t + 1" "q_head (queue (sys s')) = q_head (queue (sys s))"
    "tail_history s' = tail_history s @ [(t + 1, producer_view s)]" "head_history s' = head_history s"
    "producer_view s' = (Suc (fst (producer_view s)), snd (producer_view s))"
    "consumer_view s' = consumer_view s" "producer_seen s' = producer_seen s"
    "consumer_seen s' = consumer_seen s" "took s' = took s" "wrote s' = wrote s" "taken s' = taken s"
    using pc sy by (simp_all, subst s', simp)+
  have pub: "published q s' = Suc (published q s)" by (simp add: published_def same)
  have len: "length (tail_history s) = Suc (length (sent (sys s)))"
    using i(3) by (simp add: counters_ok_def)
  have t1: "t + 1 = q_head q + word_of_nat (Suc (published q s))"
    using i(3) t by (simp add: counters_ok_def)
  have "counters_ok q s'"
    using i(3) by (simp add: counters_ok_def same pub t1 nth_append less_Suc_eq published_def)
  moreover have "views_ok s'"
    using i(4) by (auto simp: views_ok_def same nth_append less_Suc_eq le_SucI)
  moreover have "consumer_room q s' (consumer (sys s))"
    by (rule consumer_room_mono [of q s]) (use i(5) in \<open>simp_all add: same room_ok_def\<close>)
  then have "room_ok q s'"
    using i(5) pc by (simp add: room_ok_def same pub)
  moreover have "wrote_ok q s'"
    using i(5,6) pc by (auto simp: wrote_ok_def room_ok_def same pub less_Suc_eq len published_def)
  moreover have "took_ok q s'"
    using i(7) unfolding took_ok_def same pub by (meson less_SucI)
  ultimately show ?thesis using i(1) \<open>system_inv (contents q) (sys s')\<close> by (simp add: ra_inv_def)
qed

lemma ra_producer_preserves:
  assumes inv: "ra_inv q s" and run: "ra_producer_step code_orders x k s = Some s'"
  shows "ra_inv q s'"
proof -
  note i = ra_invD [OF inv]
  have cap: "q_capacity (queue (sys s)) = q_capacity q" using i(3) by (simp add: counters_ok_def)
  show ?thesis
  proof (cases "producer (sys s)")
    case PIdle
    with run show ?thesis
      by (intro ra_idle_producer [OF inv, of "PTail x (q_tail (queue (sys s)))"])
        (simp_all add: ra_producer_step_def Let_def)
  next
    case (PTail item t)
    define j where "j = visible_store (producer_seen s) k (head_history s)"
    obtain h v where hv: "head_history s ! j = (h, v)" by (cases "head_history s ! j")
    have "producer_seen s \<le> j" "j < length (head_history s)"
      using i(4) visible_store_bounds [of "producer_seen s" "head_history s" k]
      by (simp_all add: views_ok_def j_def)
    then show ?thesis
      using run PTail hv
      by (intro ra_load_head [OF inv PTail _ _ hv])
        (simp_all add: ra_producer_step_def Let_def j_def [symmetric] code_orders_def)
  next
    case (PBoth item t h)
    show ?thesis
    proof (cases "t - h \<ge> q_capacity q")
      case True
      with run PBoth show ?thesis
        by (intro ra_idle_producer [OF inv, of PIdle]) (simp_all add: ra_producer_step_def Let_def cap)
    next
      case False
      then have "t - h < q_capacity q" by simp
      from producer_may_write [OF inv PBoth this] have
        "s' = s\<lparr>sys := producer_step x (sys s), wrote := (wrote s)(slot q t := fst (producer_view s))\<rparr>"
        using run PBoth False
        by (simp add: ra_producer_step_def Let_def cap ra_inv_slot [OF i(3)])
      then show ?thesis
        by (intro ra_write_slot [OF inv PBoth \<open>t - h < q_capacity q\<close>]) simp_all
    qed
  next
    case (PWritten item t)
    with run have "s' = s\<lparr>sys := producer_step x (sys s), tail_history := tail_history s @ [(t + 1, producer_view s)],
        producer_view := (Suc (fst (producer_view s)), snd (producer_view s))\<rparr>"
      by (simp add: ra_producer_step_def Let_def code_orders_def)
    then show ?thesis
      by (intro ra_publish [OF inv PWritten]) simp_all
  qed
qed


section \<open>Preservation: the consumer\<close>

text \<open>A stale tail only makes the queue look emptier than it is.\<close>

lemma ra_load_tail:
  assumes inv: "ra_inv q s" and pc: "consumer (sys s) = CHead m h"
    and j: "consumer_seen s \<le> j" "j < length (tail_history s)" "tail_history s ! j = (t, v)"
    and pc': "pc' = CIdle \<or> pc' = CCopy h c [] \<and> c \<le> t - h"
    and s': "s' = s\<lparr>sys := (sys s)\<lparr>consumer := pc'\<rparr>, consumer_seen := j,
                    consumer_view := join (consumer_view s) v\<rparr>"
  shows "ra_inv q s'"
proof -
  note i = ra_invD [OF inv]
  note l = ra_inv_lengths [OF inv]
  let ?R = "length (received (sys s))"
  have t: "t = q_head q + word_of_nat (fill q + j)" "j \<le> length (sent (sys s))"
    using i(3) j(2,3) unfolding counters_ok_def by (metis fst_conv, simp)
  have h: "h = q_head q + word_of_nat ?R" "h = q_head (queue (sys s))"
    using i(3,10) pc by (simp_all add: counters_ok_def)
  have le: "?R \<le> fill q + j" using i(5) j(1) by (simp add: room_ok_def)
  have "fill q + j \<le> published q s" using t(2) by (simp add: published_def)
  then have d: "unat (t - h) = fill q + j - ?R"
    unfolding t(1) h(1) using le l by (intro unat_distance) simp_all
  have c: "?R + unat c \<le> fill q + j" if "c \<le> t - h"
    using that le by (simp add: word_le_nat_alt d)
  then have "unat c \<le> fill (queue (sys s))" if "c \<le> t - h"
    using that \<open>fill q + j \<le> published q s\<close> l(1) by fastforce
  then have "system_inv (contents q) (sys s')"
    using i(2) h(2) pc' by (auto simp: s' system_inv_def)
  moreover have "counters_ok q s'" using i(3) by (simp add: s' counters_ok_def published_def)
  moreover have "wrote_ok q s'" using i(6) by (simp add: s' wrote_ok_def published_def)
  moreover have "took_ok q s'" using i(7) by (simp add: s' took_ok_def published_def)
  moreover have "j \<le> fst v" "fst v \<le> length (tail_history s)" "snd v \<le> length (head_history s)"
    using i(4) j(2,3) by (simp_all add: views_ok_def) (metis fst_conv snd_conv)+
  then have "views_ok s'"
    using i(4) j(2) by (simp add: s' views_ok_def join_def max_def)
  moreover have "producer_room q s' (producer (sys s))"
    by (rule producer_room_mono [of q s]) (use i(5) in \<open>simp_all add: s' room_ok_def\<close>)
  then have "room_ok q s'"
    using i(5) le pc' c by (auto simp: room_ok_def s' published_def)
  ultimately show ?thesis using i(1) by (simp add: ra_inv_def)
qed

lemma ra_read_slot:
  assumes inv: "ra_inv q s" and pc: "consumer (sys s) = CCopy h count acc"
    and more: "word_of_nat (length acc) < count"
    and sy: "sys s' = consumer_step m (sys s)"
    and s': "s' = s\<lparr>sys := sys s',
      took := (took s)(slot q (h + word_of_nat (length acc)) := snd (consumer_view s))\<rparr>"
  shows "ra_inv q s'"
proof -
  note i = ra_invD [OF inv]
  note r = consumer_may_read [OF inv pc more]
  let ?e = "length (received (sys s)) + length acc"
  obtain x where new: "sys s' = (sys s)\<lparr>consumer := CCopy h count (acc @ [x])\<rparr>"
    using pc more sy by simp
  have tk: "took s' = (took s)(ring_pos q ?e := length (taken s))"
    using i(3,4) by (subst s') (simp add: r(1) ring_pos_def views_ok_def counters_ok_def)
  have same: "tail_history s' = tail_history s" "head_history s' = head_history s"
    "producer_view s' = producer_view s" "consumer_view s' = consumer_view s"
    "producer_seen s' = producer_seen s" "consumer_seen s' = consumer_seen s"
    "wrote s' = wrote s" "taken s' = taken s"
    by (subst s', simp)+
  have "system_inv (contents q) (sys s')" unfolding sy by (rule consumer_step_inv [OF i(2)])
  moreover have "counters_ok q s'" using i(3) by (simp add: counters_ok_def same new published_def)
  moreover have "views_ok s'" using i(4) by (simp add: views_ok_def same)
  moreover have "wrote_ok q s'" using i(6) by (simp add: wrote_ok_def same new published_def)
  moreover have "producer_room q s' (producer (sys s))"
    by (rule producer_room_mono [of q s]) (use i(5) in \<open>simp_all add: same new room_ok_def\<close>)
  then have "room_ok q s'"
    using i(5) pc by (simp add: room_ok_def same new published_def)
  moreover have "took_ok q s'"
    unfolding took_ok_def
  proof
    fix k
    show "took s' k = 0 \<or> (\<exists>e m. k = ring_pos q e \<and> e < published q s' \<and> took s' k = Suc m
        \<and> m < length (taken s') \<and> taken s' ! m \<le> e)"
    proof (cases "k = ring_pos q ?e")
      case True
      have "taken s ! (length (taken s) - 1) = length (received (sys s))" "taken s \<noteq> []"
        using i(3) unfolding counters_ok_def by (metis last_conv_nth)+
      then show ?thesis
        using True r(3)
        by (intro disjI2 exI [of _ ?e] exI [of _ "length (taken s) - 1"])
          (simp add: tk same new published_def)
    next
      case False
      then show ?thesis
        using i(7) by (simp add: took_ok_def tk same new published_def)
    qed
  qed
  ultimately show ?thesis using i(1) by (simp add: ra_inv_def)
qed


text \<open>The store of head carries the clock of the slots read before it.\<close>

lemma ra_free_slots:
  assumes inv: "ra_inv q s" and pc: "consumer (sys s) = CCopy h count acc"
    and all: "\<not> word_of_nat (length acc) < count"
    and sy: "sys s' = consumer_step m (sys s)"
    and s': "s' = s\<lparr>sys := sys s', head_history := head_history s @ [(h + count, consumer_view s)],
               consumer_view := (fst (consumer_view s), Suc (snd (consumer_view s))),
               taken := taken s @ [length (received (sys s)) + length acc]\<rparr>"
  shows "ra_inv q s'"
proof -
  note i = ra_invD [OF inv]
  let ?R = "length (received (sys s)) + length acc"
  have c: "h = q_head (queue (sys s))" "unat count \<le> fill (queue (sys s))" "length acc \<le> unat count"
    using i(10) pc by simp_all
  have cnt: "length acc = unat count"
    using length_less_count(1) [OF i(8) c(2,3)] all c(3) by simp
  have "count = word_of_nat (length acc)" by (simp add: cnt)
  moreover have "q_head (queue (sys s)) = q_head q + word_of_nat (length (received (sys s)))"
    using i(3) by (simp add: counters_ok_def)
  ultimately have hc: "h + count = q_head q + word_of_nat ?R"
    using c(1) by (simp add: add.assoc)
  have same: "sent (sys s') = sent (sys s)" "received (sys s') = received (sys s) @ acc"
    "consumer (sys s') = CIdle" "producer (sys s') = producer (sys s)"
    "q_capacity (queue (sys s')) = q_capacity (queue (sys s))"
    "q_mask (queue (sys s')) = q_mask (queue (sys s))"
    "q_tail (queue (sys s')) = q_tail (queue (sys s))" "q_head (queue (sys s')) = h + count"
    "head_history s' = head_history s @ [(h + count, consumer_view s)]" "tail_history s' = tail_history s"
    "consumer_view s' = (fst (consumer_view s), Suc (snd (consumer_view s)))"
    "producer_view s' = producer_view s" "producer_seen s' = producer_seen s"
    "consumer_seen s' = consumer_seen s" "took s' = took s" "wrote s' = wrote s"
    "taken s' = taken s @ [?R]"
    using pc sy all by (simp_all, subst s', simp)+
  have pub: "published q s' = published q s" by (simp add: published_def same)
  have seen: "producer_seen s < length (taken s)"
    using i(3,4) by (simp add: views_ok_def counters_ok_def)
  have "x \<le> ?R" if "x \<in> set (taken s)" for x
    using taken_bounds(1) [OF i(3)] that by (metis in_set_conv_nth trans_le_add1)
  then have "counters_ok q s'"
    using i(3) by (simp add: counters_ok_def same pub hc nth_append less_Suc_eq sorted_append)
  moreover have "system_inv (contents q) (sys s')" unfolding sy by (rule consumer_step_inv [OF i(2)])
  moreover have "views_ok s'"
    using i(4) by (auto simp: views_ok_def same nth_append less_Suc_eq le_SucI)
  moreover have "producer_room q s' (producer (sys s))"
    by (rule producer_room_mono [of q s])
      (use i(5) seen in \<open>simp_all add: same nth_append room_ok_def\<close>)
  then have "room_ok q s'"
    using i(5) pc seen cnt by (simp add: room_ok_def same pub nth_append)
  moreover have "wrote_ok q s'"
    using i(6) by (simp add: wrote_ok_def same pub)
  moreover have "took_ok q s'"
    unfolding took_ok_def
  proof
    fix k
    from i(7) [unfolded took_ok_def, rule_format, of k]
    show "took s' k = 0 \<or> (\<exists>e m. k = ring_pos q e \<and> e < published q s' \<and> took s' k = Suc m
        \<and> m < length (taken s') \<and> taken s' ! m \<le> e)"
      unfolding same pub by (auto simp: nth_append)
  qed
  ultimately show ?thesis using i(1) by (simp add: ra_inv_def)
qed

lemma ra_idle_consumer:
  assumes inv: "ra_inv q s"
    and s': "s' = s\<lparr>sys := (sys s)\<lparr>consumer := CHead m (q_head (queue (sys s)))\<rparr>\<rparr>"
  shows "ra_inv q s'"
proof -
  note i = ra_invD [OF inv]
  have "system_inv (contents q) (sys s')" using i(2) by (auto simp: system_inv_def s')
  moreover have "counters_ok q s'" using i(3) by (simp add: s' counters_ok_def published_def)
  moreover have "views_ok s'" using i(4) by (simp add: s' views_ok_def)
  moreover have "wrote_ok q s'" using i(6) by (simp add: s' wrote_ok_def published_def)
  moreover have "took_ok q s'" using i(7) by (simp add: s' took_ok_def published_def)
  moreover have "producer_room q s' (producer (sys s))"
    by (rule producer_room_mono [of q s]) (use i(5) in \<open>simp_all add: s' room_ok_def\<close>)
  then have "room_ok q s'"
    using i(5) by (simp add: room_ok_def published_def s')
  ultimately show ?thesis using i(1) by (simp add: ra_inv_def)
qed

lemma ra_consumer_preserves:
  assumes inv: "ra_inv q s" and run: "ra_consumer_step code_orders m k s = Some s'"
  shows "ra_inv q s'"
proof -
  note i = ra_invD [OF inv]
  show ?thesis
  proof (cases "consumer (sys s)")
    case CIdle
    with run show ?thesis
      by (intro ra_idle_consumer [OF inv, of s' m]) (simp add: ra_consumer_step_def Let_def)
  next
    case (CHead mx h)
    define j where "j = visible_store (consumer_seen s) k (tail_history s)"
    obtain t v where tv: "tail_history s ! j = (t, v)" by (cases "tail_history s ! j")
    define c where "c = (if t - h < mx then t - h else mx)"
    have "consumer_seen s \<le> j" "j < length (tail_history s)"
      using i(4) visible_store_bounds [of "consumer_seen s" "tail_history s" k]
      by (simp_all add: views_ok_def j_def)
    moreover have "c \<le> t - h" by (cases "t - h < mx") (simp_all add: c_def not_less)
    moreover have "Some s' = Some (s\<lparr>sys := (sys s)\<lparr>consumer := (if t - h = 0 then CIdle else CCopy h c [])\<rparr>,
        consumer_seen := j, consumer_view := join (consumer_view s) v\<rparr>)"
      unfolding run [symmetric]
      by (simp add: ra_consumer_step_def Let_def CHead j_def [symmetric] tv code_orders_def c_def)
    ultimately show ?thesis
      by (intro ra_load_tail [OF inv CHead _ _ tv, of "if t - h = 0 then CIdle else CCopy h c []" c])
        simp_all
  next
    case (CCopy h count acc)
    show ?thesis
    proof (cases "word_of_nat (length acc) < count")
      case True
      note r = consumer_may_read(1,4) [OF inv CCopy True]
      have "Some s' = Some (s\<lparr>sys := consumer_step m (sys s),
           took := (took s)(slot q (h + word_of_nat (length acc)) := snd (consumer_view s))\<rparr>)"
        unfolding run [symmetric] using True r(2)
        by (simp add: ra_consumer_step_def Let_def CCopy ra_inv_slot [OF i(3)] r(1) ring_pos_def del: of_nat_add)
      then show ?thesis
        by (intro ra_read_slot [OF inv CCopy True]) simp_all
    next
      case False
      with run CCopy have "s' = s\<lparr>sys := consumer_step m (sys s),
           head_history := head_history s @ [(h + count, consumer_view s)],
           consumer_view := (fst (consumer_view s), Suc (snd (consumer_view s))),
           taken := taken s @ [length (received (sys s)) + length acc]\<rparr>"
        by (simp add: ra_consumer_step_def Let_def code_orders_def)
      then show ?thesis
        by (intro ra_free_slots [OF inv CCopy False]) simp_all
    qed
  qed
qed

lemma ra_start_inv: "spsc_inv q \<Longrightarrow> ra_inv q (ra_start q)"
  using fill_bound [of q] fill_at [of q] spsc_start_inv [of q, unfolded spsc_start_def]
  by (simp add: ra_inv_def ra_start_def counters_ok_def views_ok_def room_ok_def
      wrote_ok_def took_ok_def published_def spsc_start_def)

lemma ra_reachable_inv:
  assumes "(ra_step code_orders)\<^sup>*\<^sup>* (ra_start q) s" "spsc_inv q"
  shows "ra_inv q s"
  using assms(1)
proof (induction rule: rtranclp_induct)
  case (step y z)
  from step(2,3) show ?case
    by (auto elim: ra_step.cases intro: ra_producer_preserves ra_consumer_preserves)
qed (simp add: ra_start_inv assms(2))


section \<open>Interleavings are the runs whose loads are never stale\<close>

lemma ra_latest_head:
  assumes "counters_ok q s" "views_ok s"
  shows "visible_store (producer_seen s) (length (head_history s)) (head_history s) = length (head_history s) - 1"
    "fst (head_history s ! (length (head_history s) - 1)) = q_head (queue (sys s))"
proof -
  have ne: "taken s \<noteq> []" and len: "length (head_history s) = length (taken s)"
    and c: "last (taken s) = length (received (sys s))"
    "q_head (queue (sys s)) = q_head q + word_of_nat (length (received (sys s)))"
    "\<forall>k < length (taken s). fst (head_history s ! k) = q_head q + word_of_nat (taken s ! k)"
    using assms(1) by (simp_all add: counters_ok_def)
  have "producer_seen s < length (head_history s)" using assms(2) by (simp add: views_ok_def)
  then show "visible_store (producer_seen s) (length (head_history s)) (head_history s) = length (head_history s) - 1"
    by (simp add: visible_store_def)
  have "taken s ! (length (taken s) - 1) = length (received (sys s))"
    using last_conv_nth [OF ne] c(1) by simp
  then show "fst (head_history s ! (length (head_history s) - 1)) = q_head (queue (sys s))"
    using c(2,3) ne by (simp add: len)
qed

lemma ra_latest_tail:
  assumes "counters_ok q s" "views_ok s"
  shows "visible_store (consumer_seen s) (length (tail_history s)) (tail_history s) = length (tail_history s) - 1"
    "fst (tail_history s ! (length (tail_history s) - 1)) = q_tail (queue (sys s))"
proof -
  have "consumer_seen s < length (tail_history s)" using assms(2) by (simp add: views_ok_def)
  then show "visible_store (consumer_seen s) (length (tail_history s)) (tail_history s) = length (tail_history s) - 1"
    by (simp add: visible_store_def)
  show "fst (tail_history s ! (length (tail_history s) - 1)) = q_tail (queue (sys s))"
    using assms(1) by (simp add: counters_ok_def published_def)
qed

lemma producer_step_is_ra:
  assumes inv: "ra_inv q s"
  shows "\<exists>s'. ra_step code_orders s s' \<and> sys s' = producer_step x (sys s)"
proof -
  note l = ra_latest_head [OF ra_invD(3) [OF inv] ra_invD(4) [OF inv]]
  let ?k = "length (head_history s)"
  obtain s' where s': "ra_producer_step code_orders x ?k s = Some s'"
    using ra_inv_race_free [OF inv] unfolding race_free_def by blast
  have "sys s' = producer_step x (sys s)"
  proof (cases "producer (sys s)")
    case (PTail item t)
    with s' l show ?thesis
      by (auto simp: ra_producer_step_def Let_def split: prod.splits)
  qed (use s' in \<open>auto simp: ra_producer_step_def Let_def split: if_splits\<close>)
  with s' show ?thesis by (blast intro: ra_produce)
qed

lemma consumer_step_is_ra:
  assumes inv: "ra_inv q s"
  shows "\<exists>s'. ra_step code_orders s s' \<and> sys s' = consumer_step m (sys s)"
proof -
  note l = ra_latest_tail [OF ra_invD(3) [OF inv] ra_invD(4) [OF inv]]
  let ?k = "length (tail_history s)"
  obtain s' where s': "ra_consumer_step code_orders m ?k s = Some s'"
    using ra_inv_race_free [OF inv] unfolding race_free_def by blast
  have "sys s' = consumer_step m (sys s)"
  proof (cases "consumer (sys s)")
    case (CHead mx h)
    with s' l show ?thesis
      by (auto simp: ra_consumer_step_def Let_def split: prod.splits)
  qed (use s' in \<open>auto simp: ra_consumer_step_def Let_def split: if_splits\<close>)
  with s' show ?thesis by (blast intro: ra_consume)
qed

theorem interleaving_is_ra:
  assumes "spsc_step\<^sup>*\<^sup>* (spsc_start q) y" "spsc_inv q"
  shows "\<exists>s. (ra_step code_orders)\<^sup>*\<^sup>* (ra_start q) s \<and> sys s = y"
  using assms(1)
proof (induction rule: rtranclp_induct)
  case base
  then show ?case by (intro exI [of _ "ra_start q"]) (simp add: ra_start_def)
next
  case (step y z)
  then obtain s where s: "(ra_step code_orders)\<^sup>*\<^sup>* (ra_start q) s" "sys s = y" by blast
  note inv = ra_reachable_inv [OF s(1) assms(2)]
  from step(2) show ?case
  proof cases
    case (produce x)
    with producer_step_is_ra [OF inv, of x] s show ?thesis
      by (metis rtranclp.rtrancl_into_rtrancl)
  next
    case (consume m)
    with consumer_step_is_ra [OF inv, of m] s show ?thesis
      by (metis rtranclp.rtrancl_into_rtrancl)
  qed
qed

section \<open>Whole calls\<close>

text \<open>
  What the clients of the queue see: its contents and what has been sent and received. A push
  appends one element if there is room; a pop takes the first \<open>n\<close> elements, where a stale
  tail makes \<open>n\<close> smaller than the number of elements; a refused push and a pop that finds
  nothing change nothing.
\<close>

inductive atomic_step ::
    "nat \<Rightarrow> 'a list \<times> 'a list \<times> 'a list \<Rightarrow> 'a list \<times> 'a list \<times> 'a list \<Rightarrow> bool"
  for capacity where
  atomic_push: "length c < capacity \<Longrightarrow> atomic_step capacity (c, snt, rcv) (c @ [x], snt @ [x], rcv)"
| atomic_pop: "n \<le> length c \<Longrightarrow> atomic_step capacity (c, snt, rcv) (drop n c, snt, rcv @ take n c)"

definition client_view :: "'a ra_system \<Rightarrow> 'a list \<times> 'a list \<times> 'a list" where
  "client_view s = (contents (queue (sys s)), sent (sys s), received (sys s))"

lemma ra_step_logs:
  assumes "ra_step mo s s'"
  shows "received (sys s') = received (sys s) \<and> (\<exists>xs. sent (sys s') = sent (sys s) @ xs \<and> length xs \<le> 1)
    \<or> sent (sys s') = sent (sys s) \<and> (\<exists>ys. received (sys s') = received (sys s) @ ys)"
  using assms
proof cases
  case (ra_produce x k)
  then have "received (sys s') = received (sys s) \<and> (\<exists>xs. sent (sys s') = sent (sys s) @ xs \<and> length xs \<le> 1)"
    by (cases "producer (sys s)") (auto simp: ra_producer_step_def Let_def split: prod.splits if_splits)
  then show ?thesis by blast
next
  case (ra_consume m k)
  then have "sent (sys s') = sent (sys s) \<and> (\<exists>ys. received (sys s') = received (sys s) @ ys)"
    by (cases "consumer (sys s)") (auto simp: ra_consumer_step_def Let_def split: prod.splits if_splits)
  then show ?thesis by blast
qed

lemma ra_step_inv: "ra_step code_orders s s' \<Longrightarrow> ra_inv q s \<Longrightarrow> ra_inv q s'"
  by (auto elim: ra_step.cases intro: ra_producer_preserves ra_consumer_preserves)

lemma ra_step_atomic:
  assumes inv: "ra_inv q s" and step: "ra_step code_orders s s'"
  shows "atomic_step (unat (q_capacity q)) (client_view s) (client_view s')"
proof -
  note inv' = ra_step_inv [OF step inv]
  have fifo: "contents q @ sent (sys s) = received (sys s) @ contents (queue (sys s))"
    "contents q @ sent (sys s') = received (sys s') @ contents (queue (sys s'))"
    using ra_invD(2) [OF inv] ra_invD(2) [OF inv'] by (simp_all add: system_inv_def)
  from ra_step_logs [OF step] show ?thesis
  proof
    assume "received (sys s') = received (sys s) \<and> (\<exists>xs. sent (sys s') = sent (sys s) @ xs \<and> length xs \<le> 1)"
    then obtain xs where xs: "received (sys s') = received (sys s)" "sent (sys s') = sent (sys s) @ xs" "length xs \<le> 1"
      by blast
    have c: "contents (queue (sys s')) = contents (queue (sys s)) @ xs"
      using fifo xs(1,2) by (metis append.assoc same_append_eq)
    show ?thesis
    proof (cases xs)
      case Nil
      with xs c atomic_pop [of 0 "contents (queue (sys s))"] show ?thesis by (simp add: client_view_def)
    next
      case (Cons x ys)
      then have x: "xs = [x]" using xs(3) by simp
      have "length (contents (queue (sys s'))) \<le> unat (q_capacity q)"
        using ra_inv_lengths(2) [OF inv'] by simp
      then have "length (contents (queue (sys s))) < unat (q_capacity q)" by (simp add: c x)
      from atomic_push [OF this] show ?thesis by (simp add: client_view_def c xs x)
    qed
  next
    assume "sent (sys s') = sent (sys s) \<and> (\<exists>ys. received (sys s') = received (sys s) @ ys)"
    then obtain ys where ys: "sent (sys s') = sent (sys s)" "received (sys s') = received (sys s) @ ys"
      by blast
    have c: "contents (queue (sys s)) = ys @ contents (queue (sys s'))"
      using fifo ys by (metis append.assoc same_append_eq)
    from atomic_pop [of "length ys" "contents (queue (sys s))"] show ?thesis
      by (simp add: client_view_def c ys)
  qed
qed

section \<open>Weaker orders race\<close>

lemma run_ra_reaches:
  "run_ra mo sch s = Some s' \<Longrightarrow> (ra_step mo)\<^sup>*\<^sup>* s s'"
proof (induction mo sch s rule: run_ra.induct)
  case (2 mo x k sch s)
  then show ?case
    by (auto simp: bind_eq_Some_conv intro: converse_rtranclp_into_rtranclp ra_produce)
next
  case (3 mo m k sch s)
  then show ?case
    by (auto simp: bind_eq_Some_conv intro: converse_rtranclp_into_rtranclp ra_consume)
qed simp

lemma run_ra_race:
  "run_ra mo sch s = None \<Longrightarrow> \<exists>s'. (ra_step mo)\<^sup>*\<^sup>* s s' \<and> \<not> race_free mo s'"
proof (induction mo sch s rule: run_ra.induct)
  case (2 mo x k sch s)
  show ?case
  proof (cases "ra_producer_step mo x k s")
    case None
    then have "\<not> race_free mo s" unfolding race_free_def by blast
    then show ?thesis by blast
  next
    case (Some s1)
    with 2 show ?thesis by (auto intro: converse_rtranclp_into_rtranclp ra_produce)
  qed
next
  case (3 mo m k sch s)
  show ?case
  proof (cases "ra_consumer_step mo m k s")
    case None
    then have "\<not> race_free mo s" unfolding race_free_def by blast
    then show ?thesis by blast
  next
    case (Some s1)
    with 3 show ?thesis by (auto intro: converse_rtranclp_into_rtranclp ra_consume)
  qed
qed simp

text \<open>One slot that is filled, emptied and filled again.\<close>

definition one_slot_queue :: "nat spsc_queue" where
  "one_slot_queue = \<lparr>q_capacity = 1, q_mask = 0, q_buffer = [0], q_head = 0, q_tail = 0\<rparr>"

definition refill_schedule :: "((nat + u64) \<times> nat) list" where
  "refill_schedule = replicate 4 (Inl 1, 0) @ replicate 4 (Inr 8, 1) @ replicate 4 (Inl 2, 1)"

lemma one_slot_queue_inv: "spsc_inv one_slot_queue"
  unfolding spsc_inv_def by (auto simp: one_slot_queue_def intro!: exI [of _ 0])

lemma relaxed_push_store_races:
  "run_ra \<lparr>push_load = a, push_store = Store_relaxed, pop_load = c, pop_store = d\<rparr> refill_schedule (ra_start one_slot_queue) = None"
  by (cases a; cases c; cases d; simp only: ; code_simp)

lemma relaxed_pop_load_races:
  "run_ra \<lparr>push_load = a, push_store = b, pop_load = Load_relaxed, pop_store = d\<rparr> refill_schedule (ra_start one_slot_queue) = None"
  by (cases a; cases b; cases d; simp only: ; code_simp)

lemma relaxed_push_load_races:
  "run_ra \<lparr>push_load = Load_relaxed, push_store = b, pop_load = c, pop_store = d\<rparr> refill_schedule (ra_start one_slot_queue) = None"
  by (cases b; cases c; cases d; simp only: ; code_simp)

lemma relaxed_pop_store_races:
  "run_ra \<lparr>push_load = a, push_store = b, pop_load = c, pop_store = Store_relaxed\<rparr> refill_schedule (ra_start one_slot_queue) = None"
  by (cases a; cases b; cases c; simp only: ; code_simp)

lemma weaker_orders_race:
  assumes "mo \<noteq> code_orders"
  shows "run_ra mo refill_schedule (ra_start one_slot_queue) = None"
proof -
  obtain a b c d where mo: "mo = \<lparr>push_load = a, push_store = b, pop_load = c, pop_store = d\<rparr>"
    by (cases mo)
  then have "a = Load_relaxed \<or> b = Store_relaxed \<or> c = Load_relaxed \<or> d = Store_relaxed"
    using assms by (cases a; cases b; cases c; cases d) (simp_all add: code_orders_def)
  then show ?thesis
    unfolding mo by (elim disjE) (simp_all only: relaxed_push_store_races relaxed_pop_load_races
      relaxed_push_load_races relaxed_pop_store_races)
qed

end
