(* ===== verification/Queue_Properties.thy ===== *)
theory Queue_Properties
  imports Spsc_Release_Acquire
begin

text \<open>
  The properties of the ring buffer: what one thread sees, what two threads see, and when the
  constructor returns.
\<close>

unbundle bit_operations_syntax

section \<open>Samples\<close>

text \<open>A queue of capacity four whose counters are about to wrap around \<open>2 ^ 64\<close>.\<close>

definition wrapping_queue :: "nat spsc_queue" where
  "wrapping_queue = \<lparr>q_capacity = 4, q_mask = 3, q_buffer = [0, 0, 0, 0],
     q_head = 0xFFFFFFFFFFFFFFFE, q_tail = 0xFFFFFFFFFFFFFFFE\<rparr>"

lemma wrapping_queue_inv: "spsc_inv wrapping_queue" "contents wrapping_queue = []"
proof -
  have "(4 :: u64) = 2 ^ 2" by simp
  then show "spsc_inv wrapping_queue"
    unfolding spsc_inv_def by (auto simp: wrapping_queue_def intro!: exI [of _ 2])
  show "contents wrapping_queue = []"
    by (simp add: contents_def fill_def wrapping_queue_def)
qed

section \<open>Properties\<close>

text \<open>First in, first out for one thread: whatever pushes and batch pops are called, the
  elements already queued followed by those accepted are those received followed by those
  still queued, in order, and the queue never holds more than its capacity. The counters may
  wrap around any number of times.\<close>

theorem spsc_fifo:
  assumes "spsc_inv q" "run_queue push pop_batch ops q = (acc, got, q')"
  shows "contents q @ acc = got @ contents q' \<and> length (contents q') \<le> unat (q_capacity q)
    \<and> spsc_inv q'"
  using spsc.run_fifo [OF assms] spsc.bound [of q'] by auto

theorem spsc_fifo_witness:
  "\<exists>acc got q'. run_queue push pop_batch
      [Push 1, Push 2, Push 3, PopBatch 2, Push 4, Push 5, Push 6, Push 7] wrapping_queue = (acc, got, q')
    \<and> contents wrapping_queue @ acc = got @ contents q'"
proof -
  obtain acc got q' where r: "run_queue push pop_batch
      [Push 1, Push 2, Push 3, PopBatch 2, Push 4, Push 5, Push 6, Push 7] wrapping_queue = (acc, got, q')"
    by (metis prod.exhaust)
  with spsc_fifo [OF wrapping_queue_inv(1) r] show ?thesis by blast
qed

text \<open>A push is refused exactly when the queue is full, and then changes nothing; otherwise
  the element is appended. A pop returns the oldest element, and nothing exactly when the
  queue is empty.\<close>

theorem spsc_push_pop:
  assumes "spsc_inv q"
  shows "(fst (push x q) \<longleftrightarrow> length (contents q) < unat (q_capacity q))
    \<and> contents (snd (push x q)) = (if fst (push x q) then contents q @ [x] else contents q)
    \<and> fst (pop q) = (case contents q of [] \<Rightarrow> None | y # _ \<Rightarrow> Some y)
    \<and> contents (snd (pop q)) = tl (contents q)
    \<and> spsc_inv (snd (push x q)) \<and> spsc_inv (snd (pop q))"
proof -
  obtain ok q1 where p: "push x q = (ok, q1)" by (cases "push x q")
  note l = spsc.push_law [OF assms p]
  have "fst (pop q) = (case contents q of [] \<Rightarrow> None | y # _ \<Rightarrow> Some y)
    \<and> contents (snd (pop q)) = tl (contents q) \<and> spsc_inv (snd (pop q))"
  proof (cases "contents q")
    case Nil
    with pop_contents(1) [OF assms Nil] assms show ?thesis by simp
  next
    case (Cons y ys)
    with pop_contents(2) [OF assms Cons] show ?thesis by auto
  qed
  with p l show ?thesis by simp
qed

theorem spsc_push_pop_witness:
  "fst (push 7 wrapping_queue) \<and> contents (snd (push 7 wrapping_queue)) = [7] \<and> fst (pop wrapping_queue) = None"
  using spsc_push_pop [OF wrapping_queue_inv(1), of 7]
  by (simp add: wrapping_queue_inv(2)) (simp add: wrapping_queue_def)

text \<open>First in, first out under every interleaving of the two threads at their atomic
  accesses: at any moment, what the consumer has received followed by what is published in
  the buffer is what was queued at the start followed by what the producer has sent.\<close>

theorem spsc_threads_fifo:
  assumes "spsc_inv q" "spsc_step\<^sup>*\<^sup>* (spsc_start q) s"
  shows "contents q @ sent s = received s @ contents (queue s)
    \<and> length (contents (queue s)) \<le> unat (q_capacity (queue s))"
  using spsc_reachable_inv [OF assms(2,1)] spsc.bound [of "queue s"] by (auto simp: system_inv_def)

theorem spsc_threads_fifo_witness:
  "\<exists>s. s = run_schedule [Inl 1, Inr 9, Inl 1, Inl 1, Inr 9, Inl 1, Inl 2, Inr 9, Inr 9, Inr 9, Inr 9]
      (spsc_start wrapping_queue)
    \<and> contents wrapping_queue @ sent s = received s @ contents (queue s)"
  using spsc_threads_fifo [OF wrapping_queue_inv(1) run_schedule_steps] by blast

text \<open>No slot conflict: when the producer is about to write a slot (its fullness check has
  passed) or has written one it has not published, the consumer is not going to read that slot
  in the copy it is in the middle of, although both threads may hold stale counters.\<close>

theorem spsc_no_race:
  assumes "spsc_inv q" "spsc_step\<^sup>*\<^sup>* (spsc_start q) s"
    and "consumer s = CCopy h count acc" "i < unat count"
    and "producer s = PBoth item t h' \<and> t - h' < q_capacity (queue s) \<or> producer s = PWritten item t"
  shows "slot (queue s) t \<noteq> slot (queue s) (h + word_of_nat i)"
proof -
  have inv: "spsc_inv (queue s)" "producer_ok (queue s) (producer s)" "consumer_ok (queue s) (consumer s)"
    using spsc_reachable_inv [OF assms(2,1)] by (simp_all add: system_inv_def)
  have h: "h = q_head (queue s)" "i < fill (queue s)"
    using inv(3) assms(3,4) by auto
  have t: "t = q_tail (queue s)" "fill (queue s) < unat (q_capacity (queue s))"
    using inv(2) assms(5) by (auto simp: word_less_nat_alt)
  have "slot (queue s) (h + word_of_nat (fill (queue s))) \<noteq> slot (queue s) (h + word_of_nat i)"
    using slot_inj [OF inv(1), of i "fill (queue s)" h] h t by auto
  then show ?thesis by (simp add: h(1) t(1) fill_at)
qed

definition racing_schedule :: "(nat + u64) list" where
  "racing_schedule = [Inl 1, Inl 1, Inl 1, Inl 1, Inr 8, Inr 8, Inl 2, Inl 2]"

lemma racing_state:
  "consumer (run_schedule racing_schedule (spsc_start wrapping_queue)) = CCopy 0xFFFFFFFFFFFFFFFE 1 []"
  "producer (run_schedule racing_schedule (spsc_start wrapping_queue))
    = PBoth 2 0xFFFFFFFFFFFFFFFF 0xFFFFFFFFFFFFFFFE"
  by code_simp+

theorem spsc_no_race_witness:
  "slot (queue (run_schedule racing_schedule (spsc_start wrapping_queue))) 0xFFFFFFFFFFFFFFFF
    \<noteq> slot (queue (run_schedule racing_schedule (spsc_start wrapping_queue))) (0xFFFFFFFFFFFFFFFE + word_of_nat 0)"
proof (rule spsc_no_race [OF wrapping_queue_inv(1) run_schedule_steps racing_state(1)])
  show "0 < unat (1 :: u64)" by simp
  have "q_capacity (queue (run_schedule racing_schedule (spsc_start wrapping_queue))) = 4"
    by code_simp
  then show "producer (run_schedule racing_schedule (spsc_start wrapping_queue))
      = PBoth 2 0xFFFFFFFFFFFFFFFF 0xFFFFFFFFFFFFFFFE
    \<and> 0xFFFFFFFFFFFFFFFF - 0xFFFFFFFFFFFFFFFE
        < q_capacity (queue (run_schedule racing_schedule (spsc_start wrapping_queue)))
    \<or> producer (run_schedule racing_schedule (spsc_start wrapping_queue)) = PWritten 2 0xFFFFFFFFFFFFFFFF"
    using racing_state(2) by simp
qed

text \<open>C4. The memory orders of the code are enough. In every execution of the C++ memory model in
  which the cross-thread loads acquire and the counter stores release, whatever stale counters
  the loads return, no access to a slot is a data race: both threads always have a defined next
  step. What was queued and what was sent comes out in order, and never more than the capacity
  is in the buffer.\<close>

theorem spsc_release_acquire:
  assumes "spsc_inv q" "(ra_step code_orders)\<^sup>*\<^sup>* (ra_start q) s"
  shows "race_free code_orders s
    \<and> contents q @ sent (sys s) = received (sys s) @ contents (queue (sys s))
    \<and> length (contents (queue (sys s))) \<le> unat (q_capacity q)"
proof -
  note inv = ra_reachable_inv [OF assms(2,1)]
  from ra_inv_race_free [OF inv] ra_invD(2) [OF inv] ra_inv_lengths(2) [OF inv]
  show ?thesis by (simp add: system_inv_def)
qed

text \<open>Two elements are published; the consumer first loads a stale tail and finds nothing, then
  the newest one; the producer goes on with a stale head.\<close>

definition stale_schedule :: "((nat + u64) \<times> nat) list" where
  "stale_schedule = replicate 4 (Inl 1, 0) @ replicate 4 (Inl 2, 0) @ replicate 2 (Inr 9, 0)
     @ replicate 5 (Inr 9, 2) @ replicate 4 (Inl 3, 0)"

theorem spsc_release_acquire_witness:
  "\<exists>s. run_ra code_orders stale_schedule (ra_start wrapping_queue) = Some s
     \<and> race_free code_orders s
     \<and> contents wrapping_queue @ sent (sys s) = received (sys s) @ contents (queue (sys s))"
proof -
  have "run_ra code_orders stale_schedule (ra_start wrapping_queue) \<noteq> None" by code_simp
  then obtain s where s: "run_ra code_orders stale_schedule (ra_start wrapping_queue) = Some s" by blast
  with spsc_release_acquire [OF wrapping_queue_inv(1) run_ra_reaches [OF s]] show ?thesis by blast
qed

text \<open>C18. They are also necessary: with any one of the four accesses relaxed, some execution of
  some queue reaches a data race. So the orders of the code are exactly those under which the
  ring buffer is free of races.\<close>

theorem spsc_orders_exact:
  "(\<forall>(q :: nat spsc_queue) s. spsc_inv q \<longrightarrow> (ra_step mo)\<^sup>*\<^sup>* (ra_start q) s \<longrightarrow> race_free mo s)
   \<longleftrightarrow> mo = code_orders"
proof
  assume free: "\<forall>(q :: nat spsc_queue) s. spsc_inv q \<longrightarrow> (ra_step mo)\<^sup>*\<^sup>* (ra_start q) s \<longrightarrow> race_free mo s"
  show "mo = code_orders"
  proof (rule ccontr)
    assume "mo \<noteq> code_orders"
    with run_ra_race [OF weaker_orders_race] free one_slot_queue_inv show False by blast
  qed
next
  assume "mo = code_orders"
  then show "\<forall>(q :: nat spsc_queue) s. spsc_inv q \<longrightarrow> (ra_step mo)\<^sup>*\<^sup>* (ra_start q) s \<longrightarrow> race_free mo s"
    using ra_inv_race_free ra_reachable_inv by blast
qed

theorem spsc_orders_exact_witness:
  "\<exists>(q :: nat spsc_queue) s. spsc_inv q
     \<and> (ra_step (code_orders\<lparr>push_store := Store_relaxed\<rparr>))\<^sup>*\<^sup>* (ra_start q) s
     \<and> \<not> race_free (code_orders\<lparr>push_store := Store_relaxed\<rparr>) s"
  using spsc_orders_exact [of "code_orders\<lparr>push_store := Store_relaxed\<rparr>"]
  by (auto simp: code_orders_def)

text \<open>C8. The calls are atomic. Seen by its clients, every execution of the memory model is a
  sequence of whole calls on a bounded first-in-first-out queue: a push appends one element when
  there is room, a pop takes the oldest elements, as many as its load of tail lets it see, and
  every other step changes nothing.\<close>

theorem spsc_linearizable:
  assumes "spsc_inv q" "(ra_step code_orders)\<^sup>*\<^sup>* (ra_start q) s"
  shows "(atomic_step (unat (q_capacity q)))\<^sup>*\<^sup>* (contents q, [], []) (client_view s)"
  using assms(2)
proof (induction rule: rtranclp_induct)
  case base
  then show ?case by (simp add: client_view_def ra_start_def spsc_start_def)
next
  case (step y z)
  from ra_step_atomic [OF ra_reachable_inv [OF step(1) assms(1)] step(2)] step.IH
  show ?case by (rule rtranclp.rtrancl_into_rtrancl [rotated])
qed

theorem spsc_linearizable_witness:
  "\<exists>s. run_ra code_orders stale_schedule (ra_start wrapping_queue) = Some s
     \<and> (atomic_step 4)\<^sup>*\<^sup>* ([], [], []) (client_view s)"
proof -
  have "run_ra code_orders stale_schedule (ra_start wrapping_queue) \<noteq> None" by code_simp
  then obtain s where s: "run_ra code_orders stale_schedule (ra_start wrapping_queue) = Some s" by blast
  have "unat (q_capacity wrapping_queue) = 4" by (simp add: wrapping_queue_def)
  with spsc_linearizable [OF wrapping_queue_inv(1) run_ra_reaches [OF s]] s wrapping_queue_inv(2)
  show ?thesis by simp
qed

text \<open>C25. The constructor returns exactly when a power of two of 64 bits is large enough; then
  the capacity is the least one and the queue is empty. Above \<open>2 ^ 63\<close> its loop shifts the
  power out of the word and never ends.\<close>

theorem spsc_constructor:
  "(spsc_new dflt capacity = None) = (unat capacity > 2 ^ 63)
   \<and> (case spsc_new dflt capacity of None \<Rightarrow> True
      | Some q \<Rightarrow> spsc_inv q \<and> contents q = [] \<and> (\<exists>n < 64. q_capacity q = 2 ^ n
          \<and> unat capacity \<le> 2 ^ n \<and> (n = 0 \<or> 2 ^ (n - 1) < unat capacity)))"
proof (cases "unat capacity \<le> 2 ^ 63")
  case True
  obtain n where "n < 64" "round_up_loop capacity (2 ^ 0) = Some (2 ^ n)" "unat capacity \<le> 2 ^ n"
    "n = 0 \<or> 2 ^ (n - 1) < unat capacity"
    using round_up_loop_returns [of 0 capacity] True by auto
  with spsc_new_correct [OF True, of dflt] True show ?thesis
    by (auto simp: spsc_new_def round_up_power_of_two_def)
next
  case False
  with round_up_loop_diverges [of capacity] show ?thesis
    by (simp add: spsc_new_def round_up_power_of_two_def)
qed

text \<open>C26. What the monitoring calls report: \<^verbatim>\<open>empty()\<close> is exact, and
  \<^verbatim>\<open>size()\<close> is the number of queued elements until the tail counter wraps past the head
  counter, when it reports zero for a queue that is not empty.\<close>

theorem spsc_monitoring:
  "(spsc_empty q \<longleftrightarrow> contents q = [])
   \<and> unat (spsc_size q) = (if unat (q_head q) + length (contents q) < 2 ^ 64 then length (contents q) else 0)"
  using spsc_empty_correct [of q] spsc_size_correct [of q] by auto

end
