(* ===== verification/Protocol.thy ===== *)
theory Protocol
  imports Types "HOL-Library.Sublist"
begin

text \<open>
  The text protocol of \<^verbatim>\<open>src/protocol.cpp\<close>: tokens, numbers, the command parser and the
  reply formats. A \<^verbatim>\<open>string_view\<close> with a position in it is the rest of the line from
  that position. The clock read of the parser is the argument \<open>now_ns\<close>. The library calls
  \<^verbatim>\<open>std::from_chars\<close> and \<^verbatim>\<open>std::to_string\<close> for unsigned types are modelled as the
  standard describes them: the longest prefix of decimal digits, with an error when it is empty
  or its value does not fit, and the decimal digits without leading zeros.
\<close>

section \<open>Characters\<close>

definition is_blank :: "char \<Rightarrow> bool" where
  "is_blank c \<longleftrightarrow> c = CHR '' '' \<or> c = CHR 0x09 \<or> c = CHR 0x0D"

definition is_digit :: "char \<Rightarrow> bool" where
  "is_digit c \<longleftrightarrow> 48 \<le> (of_char c :: nat) \<and> (of_char c :: nat) \<le> 57"

definition digit_value :: "char \<Rightarrow> nat" where
  "digit_value c = of_char c - 48"

definition digit_char :: "nat \<Rightarrow> char" where
  "digit_char d = char_of (48 + d)"

definition newline :: char where
  "newline = CHR 0x0A"

definition quote :: char where
  "quote = CHR 0x27"

section \<open>Numbers\<close>

datatype errc = Errc_ok | Invalid_argument | Result_out_of_range

definition decimal_value :: "string \<Rightarrow> nat" where
  "decimal_value ds = foldl (\<lambda>acc c. acc * 10 + digit_value c) 0 ds"

text \<open>\<^verbatim>\<open>std::from_chars\<close>: error code, value and the unconsumed rest.\<close>

definition from_chars :: "string \<Rightarrow> errc \<times> 'a::len word \<times> string" where
  "from_chars sv =
     (let ds = takeWhile is_digit sv; rest = dropWhile is_digit sv in
      if ds = [] then (Invalid_argument, 0, sv)
      else if decimal_value ds < 2 ^ LENGTH('a) then (Errc_ok, word_of_nat (decimal_value ds), rest)
      else (Result_out_of_range, 0, rest))"

text \<open>For evaluation: the same over binary integers.\<close>

lemma decimal_value_int: "int (decimal_value ds) = foldl (\<lambda>acc c. acc * 10 + int (digit_value c)) 0 ds"
  by (induction ds rule: rev_induct) (simp_all add: decimal_value_def)

lemma from_chars_code [code]:
  "(from_chars sv :: errc \<times> 'a::len word \<times> string) =
     (let ds = takeWhile is_digit sv; rest = dropWhile is_digit sv;
          v = foldl (\<lambda>acc c. acc * 10 + int (digit_value c)) 0 ds in
      if ds = [] then (Invalid_argument, 0, sv)
      else if v < 2 ^ LENGTH('a) then (Errc_ok, word_of_int v, rest)
      else (Result_out_of_range, 0, rest))"
proof -
  have "decimal_value ds < 2 ^ LENGTH('a) \<longleftrightarrow> int (decimal_value ds) < 2 ^ LENGTH('a)" for ds
    by (metis of_nat_less_iff of_nat_numeral of_nat_power)
  then show ?thesis
    by (simp add: from_chars_def Let_def flip: decimal_value_int)
qed

definition parse_num :: "string \<Rightarrow> 'a::len word option" where
  "parse_num sv =
     (case from_chars sv of (ec, out, rest) \<Rightarrow> if ec = Errc_ok \<and> rest = [] then Some out else None)"

fun to_string :: "nat \<Rightarrow> string" where
  "to_string n = (if n < 10 then [digit_char n] else to_string (n div 10) @ [digit_char (n mod 10)])"

declare to_string.simps [simp del]

section \<open>Tokens\<close>

function split_tokens :: "string \<Rightarrow> string list" where
  "split_tokens line =
     (let start = dropWhile is_blank line in
      if start = [] then []
      else takeWhile (Not \<circ> is_blank) start # split_tokens (dropWhile (Not \<circ> is_blank) start))"
  by pat_completeness auto

termination
proof (relation "measure length", simp, clarify)
  fix line :: string
  assume "dropWhile is_blank line \<noteq> []"
  then obtain c cs where c: "dropWhile is_blank line = c # cs" by (cases "dropWhile is_blank line") auto
  then have "\<not> is_blank c" using hd_dropWhile [of is_blank line] by simp
  then have "length (dropWhile (Not \<circ> is_blank) (c # cs)) < length (c # cs)"
    by (simp add: le_imp_less_Suc length_dropWhile_le)
  also have "\<dots> \<le> length line" using length_dropWhile_le [of is_blank line] c by simp
  finally show "(dropWhile (Not \<circ> is_blank) (dropWhile is_blank line), line) \<in> measure length"
    by (simp add: c)
qed

declare split_tokens.simps [simp del]

section \<open>Commands\<close>

datatype command_type = New | Cancel | Flush | Unknown

record parsed_command =
  command_type :: command_type
  cmd_order :: order
  cancel_id :: order_id
  error_msg :: string

definition default_command :: parsed_command where
  "default_command = \<lparr>command_type = Unknown, cmd_order = default_order, cancel_id = 0, error_msg = ''''\<rparr>"

definition unknown :: "string \<Rightarrow> parsed_command" where
  "unknown msg = default_command\<lparr>error_msg := msg\<rparr>"

definition parse_line :: "timestamp \<Rightarrow> string \<Rightarrow> parsed_command" where
  "parse_line now_ns line =
     (let tokens = split_tokens line in
      if tokens = [] then unknown ''EMPTY_COMMAND''
      else
        let verb = tokens ! 0 in
        if verb = ''NEW'' then
          if length tokens < 5
          then unknown (''INVALID_NEW_FORMAT: Expected '' @ [quote] @
            ''NEW <BUY|SELL> <ID> <PRICE> <QTY> [TYPE]'' @ [quote])
          else
            case (if tokens ! 1 = ''BUY'' \<or> tokens ! 1 = ''B'' then Some Buy
                  else if tokens ! 1 = ''SELL'' \<or> tokens ! 1 = ''S'' then Some Sell else None) of
              None \<Rightarrow> unknown ''INVALID_SIDE: Expected BUY or SELL''
            | Some sd \<Rightarrow>
                case parse_num (tokens ! 2) of
                  None \<Rightarrow> unknown ''INVALID_ORDER_ID''
                | Some oid \<Rightarrow>
                    if oid = 0 then unknown ''INVALID_ORDER_ID''
                    else case parse_num (tokens ! 3) of
                      None \<Rightarrow> unknown ''INVALID_PRICE''
                    | Some pr \<Rightarrow>
                        case parse_num (tokens ! 4) of
                          None \<Rightarrow> unknown ''INVALID_QUANTITY''
                        | Some qty \<Rightarrow>
                            if qty = 0 then unknown ''INVALID_QUANTITY''
                            else
                              let t = (if length tokens \<ge> 6 \<and> (tokens ! 5 = ''MARKET'' \<or> tokens ! 5 = ''M'')
                                       then Market else Limit)
                              in \<lparr>command_type = New,
                                  cmd_order = \<lparr>order_id = oid, price = pr, initial_quantity = qty,
                                    remaining_quantity = qty, timestamp = now_ns, side = sd, otype = t\<rparr>,
                                  cancel_id = 0, error_msg = ''''\<rparr>
        else if verb = ''CANCEL'' then
          if length tokens < 2
          then unknown (''INVALID_CANCEL_FORMAT: Expected '' @ [quote] @ ''CANCEL <ORDER_ID>'' @ [quote])
          else case parse_num (tokens ! 1) of
            None \<Rightarrow> unknown ''INVALID_ORDER_ID''
          | Some oid \<Rightarrow>
              if oid = 0 then unknown ''INVALID_ORDER_ID''
              else default_command\<lparr>command_type := Cancel, cancel_id := oid\<rparr>
        else if verb = ''FLUSH'' then default_command\<lparr>command_type := Flush\<rparr>
        else unknown ''UNKNOWN_COMMAND'')"

section \<open>Replies\<close>

text \<open>Each function appends one line to \<open>out\<close>.\<close>

definition format_ack :: "order_id \<Rightarrow> quantity \<Rightarrow> string \<Rightarrow> string" where
  "format_ack i remaining_qty out =
     out @ ''ACK '' @ to_string (unat i) @ '' '' @ to_string (unat remaining_qty) @ [newline]"

definition format_trade :: "trade \<Rightarrow> string \<Rightarrow> string" where
  "format_trade t out =
     out @ ''TRADE '' @ to_string (unat (maker_order_id t)) @ '' '' @ to_string (unat (taker_order_id t))
     @ '' '' @ to_string (unat (trade_price t)) @ '' '' @ to_string (unat (trade_quantity t))
     @ '' '' @ side_to_string (aggressor_side t) @ [newline]"

definition format_canceled :: "order_id \<Rightarrow> string \<Rightarrow> string" where
  "format_canceled i out = out @ ''CANCELED '' @ to_string (unat i) @ [newline]"

definition format_reject :: "order_id \<Rightarrow> string \<Rightarrow> string \<Rightarrow> string" where
  "format_reject i reason out = out @ ''REJECT '' @ to_string (unat i) @ '' '' @ reason @ [newline]"

definition format_info :: "string \<Rightarrow> string \<Rightarrow> string" where
  "format_info message out = out @ ''INFO '' @ message @ [newline]"

section \<open>Lemmas on numbers\<close>

lemma digit_char_facts:
  assumes "d < 10"
  shows "is_digit (digit_char d)" "digit_value (digit_char d) = d" "\<not> is_blank (digit_char d)"
    "digit_char d \<noteq> newline"
proof -
  have o: "of_char (digit_char d) = 48 + d"
    using assms by (simp add: digit_char_def)
  then show "is_digit (digit_char d)" "digit_value (digit_char d) = d"
    using assms by (simp_all add: is_digit_def digit_value_def)
  have "digit_char d \<noteq> c" if "of_char c < (48 :: nat)" for c
    using o that by auto
  then show "\<not> is_blank (digit_char d)" "digit_char d \<noteq> newline"
    by (simp_all add: is_blank_def newline_def)
qed

lemma decimal_value_snoc: "decimal_value (ds @ [c]) = decimal_value ds * 10 + digit_value c"
  by (simp add: decimal_value_def)

lemma to_string_digits: "\<forall>c \<in> set (to_string n). is_digit c \<and> \<not> is_blank c \<and> c \<noteq> newline"
proof (induction n rule: to_string.induct)
  case (1 n)
  then show ?case
    by (subst to_string.simps) (auto simp: digit_char_facts)
qed

lemma to_string_nonempty [simp]: "to_string n \<noteq> []"
  by (subst to_string.simps) simp

lemma to_string_value: "decimal_value (to_string n) = n"
proof (induction n rule: to_string.induct)
  case (1 n)
  show ?case
  proof (cases "n < 10")
    case True
    then show ?thesis
      by (subst to_string.simps) (simp add: decimal_value_def digit_char_facts)
  next
    case False
    then show ?thesis
      using 1 by (subst to_string.simps) (simp add: decimal_value_snoc digit_char_facts)
  qed
qed

lemma to_string_inject [simp]: "to_string m = to_string n \<longleftrightarrow> m = n"
  by (metis to_string_value)

lemma from_chars_digits:
  assumes "\<forall>c \<in> set ds. is_digit c" "ds \<noteq> []"
  shows "from_chars ds = (if decimal_value ds < 2 ^ LENGTH('a)
    then (Errc_ok, word_of_nat (decimal_value ds) :: 'a::len word, [])
    else (Result_out_of_range, 0, []))"
proof -
  have split: "takeWhile is_digit ds = ds" "dropWhile is_digit ds = []"
    using assms(1) by (simp_all add: takeWhile_eq_all_conv dropWhile_eq_Nil_conv)
  show ?thesis unfolding from_chars_def Let_def split using assms(2) by simp
qed

text \<open>A number parses exactly when it is a nonempty run of digits whose value fits.\<close>

lemma parse_num_Some_iff:
  "parse_num sv = Some (w :: 'a::len word) \<longleftrightarrow>
     sv \<noteq> [] \<and> (\<forall>c \<in> set sv. is_digit c) \<and> decimal_value sv = unat w"
proof (cases "sv \<noteq> [] \<and> (\<forall>c \<in> set sv. is_digit c)")
  case True
  have "decimal_value sv < 2 ^ LENGTH('a) \<and> word_of_nat (decimal_value sv) = w
    \<longleftrightarrow> decimal_value sv = unat w"
    using unsigned_less [of w] by (auto simp: of_nat_inverse)
  moreover have "parse_num sv = Some w \<longleftrightarrow>
      decimal_value sv < 2 ^ LENGTH('a) \<and> word_of_nat (decimal_value sv) = w"
    using True by (simp add: parse_num_def from_chars_digits)
  ultimately show ?thesis using True by simp
next
  case False
  then have "takeWhile is_digit sv = [] \<or> dropWhile is_digit sv \<noteq> []"
    by (auto simp: dropWhile_eq_Nil_conv)
  with False show ?thesis
    by (auto simp: parse_num_def from_chars_def Let_def)
qed

lemma parse_num_to_string: "parse_num (to_string (unat w)) = Some w" for w :: "'a::len word"
  using to_string_digits [of "unat w"] by (simp add: parse_num_Some_iff to_string_value)

section \<open>Lemmas on tokens\<close>

definition is_token :: "string \<Rightarrow> bool" where
  "is_token t \<longleftrightarrow> t \<noteq> [] \<and> (\<forall>c \<in> set t. \<not> is_blank c)"

lemma split_blank [simp]: "\<forall>c \<in> set bs. is_blank c \<Longrightarrow> split_tokens bs = []"
  by (subst split_tokens.simps) (simp add: dropWhile_eq_Nil_conv [THEN iffD2])

lemma split_skip: "is_blank c \<Longrightarrow> split_tokens (c # line) = split_tokens line"
  by (subst (1 2) split_tokens.simps) simp

lemma split_token:
  assumes "is_token t" "rest = [] \<or> is_blank (hd rest)"
  shows "split_tokens (t @ rest) = t # split_tokens rest"
proof -
  have t: "\<forall>c \<in> set t. \<not> is_blank c" "t \<noteq> []" using assms(1) by (simp_all add: is_token_def)
  have "dropWhile is_blank (t @ rest) = t @ rest"
    using t by (cases t) simp_all
  moreover have "takeWhile (Not \<circ> is_blank) (t @ rest) = t" "dropWhile (Not \<circ> is_blank) (t @ rest) = rest"
    using t assms(2) by (cases rest; simp add: takeWhile_append dropWhile_append)+
  ultimately show ?thesis
    using t by (subst split_tokens.simps) simp
qed

lemma split_tokens_are_tokens: "t \<in> set (split_tokens line) \<Longrightarrow> is_token t"
proof (induction line rule: split_tokens.induct)
  case (1 line)
  define start where "start = dropWhile is_blank line"
  show ?case
  proof (cases "start = []")
    case True
    with "1.prems" show ?thesis by (subst (asm) split_tokens.simps) (simp add: start_def)
  next
    case False
    then have "\<not> is_blank (hd start)" using hd_dropWhile [of is_blank line] by (simp add: start_def)
    then have "is_token (takeWhile (Not \<circ> is_blank) start)"
      using False by (cases start) (auto simp: is_token_def dest: set_takeWhileD)
    moreover have "split_tokens line = takeWhile (Not \<circ> is_blank) start
        # split_tokens (dropWhile (Not \<circ> is_blank) start)"
      using False by (subst split_tokens.simps) (simp only: start_def [symmetric] Let_def if_False)
    ultimately show ?thesis using "1.prems" "1.IH" [OF start_def False] by auto
  qed
qed

text \<open>Tokens separated by single spaces.\<close>

fun unwords :: "string list \<Rightarrow> string" where
  "unwords [] = []"
| "unwords [t] = t"
| "unwords (t # ts) = t @ '' '' @ unwords ts"

lemma blank_space [simp]: "is_blank (CHR '' '')" "is_blank (CHR 0x0D)"
  by (simp_all add: is_blank_def)

lemma split_unwords:
  "\<forall>t \<in> set ts. is_token t \<Longrightarrow> rest = [] \<or> is_blank (hd rest) \<Longrightarrow>
   split_tokens (unwords ts @ rest) = ts @ split_tokens rest"
proof (induction ts rule: unwords.induct)
  case (2 t)
  then show ?case using split_token by simp
next
  case (3 t t' ts)
  then have "split_tokens (t @ CHR '' '' # unwords (t' # ts) @ rest)
      = t # split_tokens (CHR '' '' # unwords (t' # ts) @ rest)"
    by (intro split_token) simp_all
  with 3 show ?case by (simp add: split_skip)
qed simp

lemma split_unwords_line: "\<forall>t \<in> set ts. is_token t \<Longrightarrow> split_tokens (unwords ts) = ts"
  using split_unwords [of ts "[]"] by simp

lemma is_token_to_string [simp]: "is_token (to_string n)"
  using to_string_digits [of n] by (simp add: is_token_def)

lemma is_token_side [simp]: "is_token (side_to_string s)"
  by (cases s) (auto simp: is_token_def side_to_string_def is_blank_def)

lemma is_token_type [simp]: "is_token (order_type_to_string t)"
  by (cases t) (auto simp: is_token_def order_type_to_string_def is_blank_def)

end
