(* ===== verification/Protocol_Properties.thy ===== *)
theory Protocol_Properties
  imports Protocol
begin

text \<open>
  The properties of the text protocol: the commands a client writes are parsed to what they
  say, everything else is answered with an error, and replies are complete lines that can be
  taken apart again.
\<close>

section \<open>Command lines\<close>

text \<open>The command formats the comments of \<^verbatim>\<open>include/protocol.hpp\<close> give.\<close>

definition new_line :: "side \<Rightarrow> order_id \<Rightarrow> price \<Rightarrow> quantity \<Rightarrow> order_type \<Rightarrow> string" where
  "new_line sd oid pr qty t = unwords [''NEW'', side_to_string sd, to_string (unat oid),
     to_string (unat pr), to_string (unat qty), order_type_to_string t]"

definition cancel_line :: "order_id \<Rightarrow> string" where
  "cancel_line oid = unwords [''CANCEL'', to_string (unat oid)]"

lemma is_token_verbs [simp]: "is_token ''NEW''" "is_token ''CANCEL''" "is_token ''FLUSH''"
  "is_token ''ACK''" "is_token ''TRADE''" "is_token ''CANCELED''" "is_token ''REJECT''" "is_token ''INFO''"
  by (auto simp: is_token_def is_blank_def)

text \<open>Spaces, tabs and a carriage return at the end of a line do not matter.\<close>

lemma new_line_tokens:
  assumes "\<forall>c \<in> set blanks. is_blank c"
  shows "split_tokens (new_line sd oid pr qty t @ blanks) = [''NEW'', side_to_string sd,
    to_string (unat oid), to_string (unat pr), to_string (unat qty), order_type_to_string t]"
proof -
  have "blanks = [] \<or> is_blank (hd blanks)" using assms by (cases blanks) simp_all
  moreover have "split_tokens blanks = []" using assms by simp
  ultimately show ?thesis
    unfolding new_line_def by (subst split_unwords) (simp_all del: unwords.simps)
qed

lemma cancel_line_tokens:
  assumes "\<forall>c \<in> set blanks. is_blank c"
  shows "split_tokens (cancel_line oid @ blanks) = [''CANCEL'', to_string (unat oid)]"
proof -
  have "blanks = [] \<or> is_blank (hd blanks)" using assms by (cases blanks) simp_all
  moreover have "split_tokens blanks = []" using assms by simp
  ultimately show ?thesis
    unfolding cancel_line_def by (subst split_unwords) (simp_all del: unwords.simps)
qed

lemma side_strings [simp]:
  "(side_to_string sd = ''BUY'') = (sd = Buy)" "(side_to_string sd = ''SELL'') = (sd = Sell)"
  "side_to_string sd \<noteq> ''B''" "side_to_string sd \<noteq> ''S''"
  by (cases sd; simp add: side_to_string_def)+

lemma type_strings [simp]:
  "(order_type_to_string t = ''MARKET'') = (t = Market)" "order_type_to_string t \<noteq> ''M''"
  by (cases t; simp add: order_type_to_string_def)+

text \<open>What every result of the parser satisfies.\<close>

definition command_ok :: "timestamp \<Rightarrow> string \<Rightarrow> parsed_command \<Rightarrow> bool" where
  "command_ok now line cmd \<longleftrightarrow>
     (command_type cmd = Unknown) = (error_msg cmd \<noteq> '''')
     \<and> (case command_type cmd of
          New \<Rightarrow> order_id (cmd_order cmd) \<noteq> 0 \<and> initial_quantity (cmd_order cmd) \<noteq> 0
            \<and> remaining_quantity (cmd_order cmd) = initial_quantity (cmd_order cmd)
            \<and> timestamp (cmd_order cmd) = now \<and> 5 \<le> length (split_tokens line)
        | Cancel \<Rightarrow> cancel_id cmd \<noteq> 0
        | Flush \<Rightarrow> hd (split_tokens line) = ''FLUSH''
        | Unknown \<Rightarrow> True)"

lemma command_ok_unknown [simp]: "command_ok now line (unknown msg) \<longleftrightarrow> msg \<noteq> []"
  by (simp add: command_ok_def unknown_def default_command_def)

lemma parse_line_ok: "command_ok now line (parse_line now line)"
proof -
  have new: "command_ok now line \<lparr>command_type = New, cmd_order = \<lparr>order_id = oid, price = pr,
      initial_quantity = qty, remaining_quantity = qty, timestamp = now, side = sd, otype = t\<rparr>,
      cancel_id = 0, error_msg = ''''\<rparr>"
    if "oid \<noteq> 0" "qty \<noteq> 0" "\<not> length (split_tokens line) < 5" for oid pr qty sd t
    using that by (simp add: command_ok_def)
  have cancel: "command_ok now line (default_command\<lparr>command_type := Cancel, cancel_id := oid\<rparr>)"
    if "oid \<noteq> 0" for oid
    using that by (simp add: command_ok_def default_command_def)
  have flush: "command_ok now line (default_command\<lparr>command_type := Flush\<rparr>)"
    if "split_tokens line \<noteq> []" "split_tokens line ! 0 = ''FLUSH''"
    using that by (simp add: command_ok_def default_command_def hd_conv_nth)
  have err: "command_ok now line (unknown msg)" if "msg \<noteq> []" for msg
    using that by simp
  have if_ok: "command_ok now line (if P then x else y)"
    if "P \<Longrightarrow> command_ok now line x" "\<not> P \<Longrightarrow> command_ok now line y" for P x y
    using that by simp
  have case_ok: "command_ok now line (case x of None \<Rightarrow> y | Some z \<Rightarrow> f z)"
    if "command_ok now line y" "\<And>z. x = Some z \<Longrightarrow> command_ok now line (f z)" for x :: "'a option" and y f
    using that by (cases x) simp_all
  show ?thesis
    unfolding parse_line_def Let_def
    by (intro if_ok case_ok new cancel flush err; (assumption | simp))
qed

section \<open>Properties\<close>

text \<open>C17. Round trip of orders: a well-formed NEW line parses to exactly the order it spells,
  fully open and stamped with the clock, whatever blanks follow it.\<close>

theorem parse_new_roundtrip:
  assumes "oid \<noteq> 0" "qty \<noteq> 0" "\<forall>c \<in> set blanks. is_blank c"
  shows "parse_line now (new_line sd oid pr qty t @ blanks) =
    \<lparr>command_type = New,
     cmd_order = \<lparr>order_id = oid, price = pr, initial_quantity = qty, remaining_quantity = qty,
       timestamp = now, side = sd, otype = t\<rparr>,
     cancel_id = 0, error_msg = ''''\<rparr>"
  using assms unfolding parse_line_def new_line_tokens [OF assms(3)] Let_def
  by (cases t; cases sd) (simp_all add: parse_num_to_string)

theorem parse_new_roundtrip_witness:
  "parse_line 9 (new_line Buy 1001 10000 50 Limit @ [CHR 0x0D]) =
    \<lparr>command_type = New,
     cmd_order = \<lparr>order_id = 1001, price = 10000, initial_quantity = 50, remaining_quantity = 50,
       timestamp = 9, side = Buy, otype = Limit\<rparr>,
     cancel_id = 0, error_msg = ''''\<rparr>"
  by (rule parse_new_roundtrip) simp_all

text \<open>Round trip of cancels, and FLUSH.\<close>

theorem parse_cancel_roundtrip:
  assumes "oid \<noteq> 0" "\<forall>c \<in> set blanks. is_blank c"
  shows "parse_line now (cancel_line oid @ blanks) =
      \<lparr>command_type = Cancel, cmd_order = default_order, cancel_id = oid, error_msg = ''''\<rparr>
    \<and> command_type (parse_line now (''FLUSH'' @ blanks)) = Flush"
proof -
  have "blanks = [] \<or> is_blank (hd blanks)" using assms by (cases blanks) simp_all
  then have "split_tokens (''FLUSH'' @ blanks) = [''FLUSH'']"
    using split_token [of "''FLUSH''" blanks] assms(2) by simp
  moreover have "parse_line now (cancel_line oid @ blanks) =
      \<lparr>command_type = Cancel, cmd_order = default_order, cancel_id = oid, error_msg = ''''\<rparr>"
    using assms unfolding parse_line_def cancel_line_tokens [OF assms(2)] Let_def
    by (simp add: parse_num_to_string default_command_def)
  ultimately show ?thesis by (simp add: parse_line_def)
qed

theorem parse_cancel_roundtrip_witness:
  "command_type (parse_line 0 (cancel_line 18446744073709551615 @ '' '')) = Cancel"
  using parse_cancel_roundtrip [of 18446744073709551615 "'' ''" 0] by simp

text \<open>C16. What a parsed command guarantees to the engine: a line is either answered with a
  nonempty error message, or it is a command; a NEW command has a nonzero id and quantity, is
  fully open, carries the clock, and was spelled with at least five tokens; a CANCEL has a
  nonzero id.\<close>

theorem parse_line_guarantees:
  "(command_type (parse_line now line) = Unknown) = (error_msg (parse_line now line) \<noteq> '''')
   \<and> (case command_type (parse_line now line) of
        New \<Rightarrow> order_id (cmd_order (parse_line now line)) \<noteq> 0
          \<and> initial_quantity (cmd_order (parse_line now line)) \<noteq> 0
          \<and> remaining_quantity (cmd_order (parse_line now line)) = initial_quantity (cmd_order (parse_line now line))
          \<and> timestamp (cmd_order (parse_line now line)) = now
          \<and> 5 \<le> length (split_tokens line)
      | Cancel \<Rightarrow> cancel_id (parse_line now line) \<noteq> 0
      | Flush \<Rightarrow> hd (split_tokens line) = ''FLUSH''
      | Unknown \<Rightarrow> True)"
  using parse_line_ok [of now line] unfolding command_ok_def .

text \<open>Numbers: a token parses as a \<open>w\<close>-bit number exactly when it is a nonempty run of
  decimal digits whose value fits in \<open>w\<close> bits, and to that value; so signs, spaces and
  overflow are refused, and what \<^verbatim>\<open>std::to_string\<close> prints is read back.\<close>

theorem parse_num_exact:
  "(parse_num sv = Some (w :: 'a::len word)) =
     (sv \<noteq> [] \<and> (\<forall>c \<in> set sv. is_digit c) \<and> decimal_value sv = unat w)
   \<and> parse_num (to_string (unat w)) = Some w"
  using parse_num_Some_iff [of sv w] parse_num_to_string [of w] by blast

theorem parse_num_exact_witness:
  "parse_num ''42'' = Some (42 :: u32) \<and> parse_num ''-1'' \<noteq> Some (0 :: u32)"
  using parse_num_exact [of "''42''" "42 :: u32"] parse_num_exact [of "''-1''" "0 :: u32"]
  by (simp add: is_digit_def decimal_value_def digit_value_def)

text \<open>C27. Replies are complete lines: each formatter appends text that ends with the only
  newline in it (given a reason or message without one), and a trade line can be taken apart
  into the trade's fields.\<close>

theorem replies_are_lines:
  assumes "newline \<notin> set reason"
  shows "(\<exists>body. format_ack i q out = out @ body @ [newline] \<and> newline \<notin> set body)
    \<and> (\<exists>body. format_trade t out = out @ body @ [newline] \<and> newline \<notin> set body
        \<and> split_tokens body = [''TRADE'', to_string (unat (maker_order_id t)),
            to_string (unat (taker_order_id t)), to_string (unat (trade_price t)),
            to_string (unat (trade_quantity t)), side_to_string (aggressor_side t)])
    \<and> (\<exists>body. format_canceled i out = out @ body @ [newline] \<and> newline \<notin> set body)
    \<and> (\<exists>body. format_reject i reason out = out @ body @ [newline] \<and> newline \<notin> set body)
    \<and> (\<exists>body. format_info reason out = out @ body @ [newline] \<and> newline \<notin> set body)"
proof -
  have num: "newline \<notin> set (to_string n)" for n using to_string_digits [of n] by blast
  have sd: "newline \<notin> set (side_to_string s)" for s
    by (cases s) (simp_all add: side_to_string_def newline_def)
  have nl: "newline \<noteq> CHR '' ''" by (simp add: newline_def)
  define body where "body = unwords [''TRADE'', to_string (unat (maker_order_id t)),
    to_string (unat (taker_order_id t)), to_string (unat (trade_price t)),
    to_string (unat (trade_quantity t)), side_to_string (aggressor_side t)]"
  have "split_tokens body = [''TRADE'', to_string (unat (maker_order_id t)),
    to_string (unat (taker_order_id t)), to_string (unat (trade_price t)),
    to_string (unat (trade_quantity t)), side_to_string (aggressor_side t)]"
    unfolding body_def by (rule split_unwords_line) simp
  moreover have "format_trade t out = out @ body @ [newline]" "newline \<notin> set body"
    using num sd nl by (auto simp: body_def format_trade_def newline_def)
  moreover have "\<exists>body. format_ack i q out = out @ body @ [newline] \<and> newline \<notin> set body"
    by (rule exI [of _ "''ACK '' @ to_string (unat i) @ '' '' @ to_string (unat q)"])
      (use num in \<open>simp add: format_ack_def newline_def\<close>)
  moreover have "\<exists>body. format_canceled i out = out @ body @ [newline] \<and> newline \<notin> set body"
    by (rule exI [of _ "''CANCELED '' @ to_string (unat i)"])
      (use num in \<open>simp add: format_canceled_def newline_def\<close>)
  moreover have "\<exists>body. format_reject i reason out = out @ body @ [newline] \<and> newline \<notin> set body"
    by (rule exI [of _ "''REJECT '' @ to_string (unat i) @ '' '' @ reason"])
      (use num assms in \<open>simp add: format_reject_def newline_def\<close>)
  moreover have "\<exists>body. format_info reason out = out @ body @ [newline] \<and> newline \<notin> set body"
    by (rule exI [of _ "''INFO '' @ reason"])
      (use assms in \<open>simp add: format_info_def newline_def\<close>)
  ultimately show ?thesis by blast
qed

theorem replies_are_lines_witness:
  "\<exists>body. format_reject 5 ''ORDER_NOT_FOUND'' [] = [] @ body @ [newline] \<and> newline \<notin> set body"
  using replies_are_lines [of "''ORDER_NOT_FOUND''" 5 0 "[]"
    "\<lparr>maker_order_id = 1, taker_order_id = 2, trade_price = 3, trade_quantity = 4,
      trade_timestamp = 0, aggressor_side = Buy\<rparr>"]
  by (simp add: newline_def)

text \<open>An unrecognised order type is not an error: a sixth token that is neither a spelling
  of MARKET nor of LIMIT gives a limit order, although the format comment allows only
  \<^verbatim>\<open>[LIMIT|MARKET]\<close>.\<close>

theorem parse_unknown_type_is_limit:
  assumes "oid \<noteq> 0" "qty \<noteq> 0" "is_token junk" "junk \<noteq> ''MARKET''" "junk \<noteq> ''M''"
  shows "parse_line now (unwords [''NEW'', side_to_string sd, to_string (unat oid),
      to_string (unat pr), to_string (unat qty), junk])
    = parse_line now (new_line sd oid pr qty Limit)"
proof -
  have t: "split_tokens (unwords [''NEW'', side_to_string sd, to_string (unat oid),
      to_string (unat pr), to_string (unat qty), junk])
    = [''NEW'', side_to_string sd, to_string (unat oid), to_string (unat pr), to_string (unat qty), junk]"
    by (rule split_unwords_line) (simp add: assms(3))
  have "parse_line now (new_line sd oid pr qty Limit) =
    \<lparr>command_type = New,
     cmd_order = \<lparr>order_id = oid, price = pr, initial_quantity = qty, remaining_quantity = qty,
       timestamp = now, side = sd, otype = Limit\<rparr>,
     cancel_id = 0, error_msg = ''''\<rparr>"
    using new_line_tokens [of "[]" sd oid pr qty Limit] assms(1,2)
    by (cases sd) (simp_all add: parse_line_def parse_num_to_string)
  then show ?thesis
    using assms t by (cases sd) (simp_all add: parse_line_def parse_num_to_string del: unwords.simps)
qed

theorem parse_unknown_type_is_limit_witness:
  "parse_line 0 (unwords [''NEW'', side_to_string Sell, to_string (unat (7 :: order_id)),
      to_string (unat (100 :: price)), to_string (unat (5 :: quantity)), ''MARKT''])
    = parse_line 0 (new_line Sell 7 100 5 Limit)"
  by (rule parse_unknown_type_is_limit) (simp_all add: is_token_def is_blank_def)

end
