(* ===== verification/Gateway.thy ===== *)
theory Gateway
  imports Pool_Order_Book Protocol Spsc_Queue
begin

text \<open>
  The gateway of \<^verbatim>\<open>src/tcp_server.cpp\<close>: the network thread (connections, framing, the
  ingress queue) and the matching thread (batches, execution, the response queue). The
  operating system is a parameter: a record of the system calls the code makes, each a function
  of the environment's state. A reference to a client is its descriptor; using it after the
  entry was erased from the map has no defined behaviour in C++ and is \<open>None\<close> here, and so is a
  system-call loop that never ends. The retry loops on a full queue are steps that leave the
  state as it is, so a thread that spins is a thread that stutters.
\<close>

section \<open>Messages and connections\<close>

type_synonym fd = int

record client_connection =
  conn_fd :: fd
  read_buffer :: string
  write_buffer :: string

record ingress_message =
  im_sequence :: u64
  im_client_fd :: fd
  im_timestamp :: timestamp
  im_command :: parsed_command

record response_message =
  rm_client_fd :: fd
  rm_sequence :: u64
  rm_payload :: string

definition default_ingress :: ingress_message where
  "default_ingress =
     \<lparr>im_sequence = 0, im_client_fd = - 1, im_timestamp = 0, im_command = default_command\<rparr>"

definition default_response :: response_message where
  "default_response = \<lparr>rm_client_fd = - 1, rm_sequence = 0, rm_payload = ''''\<rparr>"

section \<open>System calls\<close>

text \<open>
  The results of \<^verbatim>\<open>read\<close> and \<^verbatim>\<open>write\<close> the code tells apart: bytes
  transferred, end of file, \<^verbatim>\<open>EAGAIN\<close> or \<^verbatim>\<open>EWOULDBLOCK\<close>, any other error. \<open>os_close\<close>
  is \<^verbatim>\<open>epoll_ctl(DEL)\<close> with \<^verbatim>\<open>close\<close>, \<open>os_epoll_add\<close> the registration of a
  client. The calls that set options on a descriptor are a record of their own, since the
  listening socket uses them too; \<^verbatim>\<open>fcntl(F_GETFL)\<close> returns \<open>- 1\<close> when it fails.
\<close>

datatype read_result = Read_bytes string | Read_eof | Read_again | Read_error

datatype write_result = Wrote nat | Write_again | Write_error

datatype socket_option = So_reuseaddr | So_reuseport | Tcp_nodelay

record 'e fd_calls =
  fc_getfl :: "fd \<Rightarrow> 'e \<Rightarrow> int \<times> 'e"
  fc_setfl :: "fd \<Rightarrow> int \<Rightarrow> 'e \<Rightarrow> bool \<times> 'e"
  fc_setsockopt :: "fd \<Rightarrow> socket_option \<Rightarrow> 'e \<Rightarrow> bool \<times> 'e"

record 'e os =
  os_read :: "fd \<Rightarrow> 'e \<Rightarrow> read_result \<times> 'e"
  os_write :: "fd \<Rightarrow> string \<Rightarrow> 'e \<Rightarrow> write_result \<times> 'e"
  os_close :: "fd \<Rightarrow> 'e \<Rightarrow> 'e"
  os_accept :: "'e \<Rightarrow> fd option \<times> 'e"
  os_clock :: "'e \<Rightarrow> timestamp \<times> 'e"
  os_calls :: "'e fd_calls"
  os_epoll_add :: "fd \<Rightarrow> 'e \<Rightarrow> 'e"

definition O_NONBLOCK :: int where
  "O_NONBLOCK = 0x800"

definition set_non_blocking :: "'e fd_calls \<Rightarrow> fd \<Rightarrow> 'e \<Rightarrow> bool \<times> 'e" where
  "set_non_blocking fc fd e =
     (let (flags, e) = fc_getfl fc fd e in
      if flags = - 1 then (False, e) else fc_setfl fc fd (flags OR O_NONBLOCK) e)"

definition disable_nagle :: "'e fd_calls \<Rightarrow> fd \<Rightarrow> 'e \<Rightarrow> bool \<times> 'e" where
  "disable_nagle fc fd e = fc_setsockopt fc fd Tcp_nodelay e"

text \<open>What only the network thread touches: the environment and the connections.\<close>

record 'e net_state =
  env :: 'e
  clients :: "(fd \<times> client_connection) list"

definition update_client ::
    "fd \<Rightarrow> (client_connection \<Rightarrow> client_connection) \<Rightarrow> 'e net_state \<Rightarrow> 'e net_state option" where
  "update_client fd f n =
     (case map_of (clients n) fd of
        None \<Rightarrow> None
      | Some client \<Rightarrow> Some (n\<lparr>clients := AList.update fd (f client) (clients n)\<rparr>))"

definition close_connection :: "'e os \<Rightarrow> fd \<Rightarrow> 'e net_state \<Rightarrow> 'e net_state" where
  "close_connection os client_fd n =
     (case map_of (clients n) client_fd of
        None \<Rightarrow> n
      | Some _ \<Rightarrow> n\<lparr>env := os_close os client_fd (env n), clients := AList.delete client_fd (clients n)\<rparr>)"

partial_function (option) flush_client_write_buffer ::
    "'e os \<Rightarrow> fd \<Rightarrow> 'e net_state \<Rightarrow> 'e net_state option" where
  "flush_client_write_buffer os fd n =
     do {
       client \<leftarrow> map_of (clients n) fd;
       if write_buffer client = [] then Some n
       else case os_write os (conn_fd client) (write_buffer client) (env n) of
          (Wrote sent, e) \<Rightarrow>
            do { n \<leftarrow> update_client fd (\<lambda>c. c\<lparr>write_buffer := drop sent (write_buffer c)\<rparr>) (n\<lparr>env := e\<rparr>);
                 flush_client_write_buffer os fd n }
        | (Write_again, e) \<Rightarrow> Some (n\<lparr>env := e\<rparr>)
        | (Write_error, e) \<Rightarrow> Some (close_connection os (conn_fd client) (n\<lparr>env := e\<rparr>))
     }"

declare flush_client_write_buffer.simps [code]

definition handle_client_write :: "'e os \<Rightarrow> fd \<Rightarrow> 'e net_state \<Rightarrow> 'e net_state option" where
  "handle_client_write os client_fd n =
     (case map_of (clients n) client_fd of
        None \<Rightarrow> Some n
      | Some _ \<Rightarrow> flush_client_write_buffer os client_fd n)"

text \<open>
  One round of the accept loop up to the registration; the results of the two settings are not
  looked at.
\<close>

definition accept_client :: "'e os \<Rightarrow> 'e \<Rightarrow> fd option \<times> 'e" where
  "accept_client os e =
     (case os_accept os e of
        (None, e) \<Rightarrow> (None, e)
      | (Some client_fd, e) \<Rightarrow>
          let (_, e) = set_non_blocking (os_calls os) client_fd e;
              (_, e) = disable_nagle (os_calls os) client_fd e
          in (Some client_fd, os_epoll_add os client_fd e))"

partial_function (option) handle_new_connection :: "'e os \<Rightarrow> 'e net_state \<Rightarrow> 'e net_state option" where
  "handle_new_connection os n =
     (case accept_client os (env n) of
        (None, e) \<Rightarrow> Some (n\<lparr>env := e\<rparr>)
      | (Some client_fd, e) \<Rightarrow>
          handle_new_connection os
            (n\<lparr>env := e, clients := AList.update client_fd
                \<lparr>conn_fd = client_fd, read_buffer = '''', write_buffer = ''''\<rparr> (clients n)\<rparr>))"

declare handle_new_connection.simps [code]

text \<open>
  The read loop: bytes are appended until the socket has no more; the flag tells whether the
  function goes on to the lines (\<^verbatim>\<open>break\<close>) or has closed the connection (\<^verbatim>\<open>return\<close>).
\<close>

partial_function (option) read_available ::
    "'e os \<Rightarrow> fd \<Rightarrow> 'e net_state \<Rightarrow> ('e net_state \<times> bool) option" where
  "read_available os client_fd n =
     (case os_read os client_fd (env n) of
        (Read_bytes bytes, e) \<Rightarrow>
          do { n \<leftarrow> update_client client_fd (\<lambda>c. c\<lparr>read_buffer := read_buffer c @ bytes\<rparr>) (n\<lparr>env := e\<rparr>);
               read_available os client_fd n }
      | (Read_eof, e) \<Rightarrow> Some (close_connection os client_fd (n\<lparr>env := e\<rparr>), False)
      | (Read_again, e) \<Rightarrow> Some (n\<lparr>env := e\<rparr>, True)
      | (Read_error, e) \<Rightarrow> Some (close_connection os client_fd (n\<lparr>env := e\<rparr>), False))"

declare read_available.simps [code]

text \<open>An observation of the environment that setting options does not change.\<close>

definition calls_keep :: "'e fd_calls \<Rightarrow> ('e \<Rightarrow> 'a) \<Rightarrow> bool" where
  "calls_keep fc obs \<longleftrightarrow>
     (\<forall>fd e. obs (snd (fc_getfl fc fd e)) = obs e) \<and> (\<forall>fd fl e. obs (snd (fc_setfl fc fd fl e)) = obs e)
     \<and> (\<forall>fd opt e. obs (snd (fc_setsockopt fc fd opt e)) = obs e)"

lemma settings_keep:
  assumes "calls_keep fc obs"
  shows "obs (snd (set_non_blocking fc fd e)) = obs e" "obs (snd (disable_nagle fc fd e)) = obs e"
proof -
  obtain flags e1 where "fc_getfl fc fd e = (flags, e1)" by (cases "fc_getfl fc fd e")
  moreover from this have "obs e1 = obs e" using assms unfolding calls_keep_def by (metis snd_conv)
  ultimately show "obs (snd (set_non_blocking fc fd e)) = obs e"
    using assms by (simp add: set_non_blocking_def calls_keep_def)
  show "obs (snd (disable_nagle fc fd e)) = obs e"
    using assms by (simp add: disable_nagle_def calls_keep_def)
qed

text \<open>Calls that always succeed and have no other effect, for sample runs.\<close>

definition no_options :: "'e fd_calls" where
  "no_options = \<lparr>fc_getfl = (\<lambda>fd e. (0, e)), fc_setfl = (\<lambda>fd fl e. (True, e)),
     fc_setsockopt = (\<lambda>fd opt e. (True, e))\<rparr>"

lemma no_options_keep: "calls_keep no_options obs"
  by (simp add: calls_keep_def no_options_def)

definition set_up_keeps :: "'e os \<Rightarrow> ('e \<Rightarrow> 'a) \<Rightarrow> bool" where
  "set_up_keeps os obs \<longleftrightarrow>
     calls_keep (os_calls os) obs \<and> (\<forall>fd e. obs (os_epoll_add os fd e) = obs e)"

text \<open>Such an observation sees of a round only what \<^verbatim>\<open>accept\<close> itself does.\<close>

lemma accept_client_keeps:
  assumes "set_up_keeps os obs" "accept_client os e = (r, e')"
  shows "\<exists>e1. os_accept os e = (r, e1) \<and> obs e' = obs e1"
proof -
  obtain r1 e1 where a: "os_accept os e = (r1, e1)" by (cases "os_accept os e")
  show ?thesis
  proof (cases r1)
    case None
    with a assms(2) show ?thesis by (simp add: accept_client_def)
  next
    case (Some fd)
    with assms(2) a have "r = Some fd" "e' = os_epoll_add os fd
        (snd (disable_nagle (os_calls os) fd (snd (set_non_blocking (os_calls os) fd e1))))"
      by (simp_all add: accept_client_def split: prod.splits)
    with a Some assms(1) show ?thesis by (simp add: set_up_keeps_def settings_keep)
  qed
qed

section \<open>Framing\<close>

text \<open>
  The next complete line of a buffer, without its line feed and one trailing carriage return,
  and the number of characters to erase.
\<close>

definition next_line :: "string \<Rightarrow> (string \<times> nat) option" where
  "next_line buffer =
     (if newline \<in> set buffer then
        let line = takeWhile (\<lambda>c. c \<noteq> newline) buffer; newline_pos = length line
        in Some (if line \<noteq> [] \<and> last line = CHR 0x0D then butlast line else line, newline_pos + 1)
      else None)"

text \<open>
  \<^verbatim>\<open>process_client_line\<close> up to its queue: the result is the message to push, if any. The
  parser reads the clock only for a NEW command.
\<close>

definition process_client_line ::
    "'e os \<Rightarrow> fd \<Rightarrow> string \<Rightarrow> 'e net_state \<Rightarrow> u64
      \<Rightarrow> ('e net_state \<times> u64 \<times> ingress_message option) option" where
  "process_client_line os fd line n next_sequence =
     (if line = [] then Some (n, next_sequence, None)
      else
        let (parse_ns, e) = os_clock os (env n);
            cmd = parse_line parse_ns line;
            n = (if command_type cmd = New then n\<lparr>env := e\<rparr> else n)
        in if command_type cmd = Unknown then
             do {
               n \<leftarrow> update_client fd (\<lambda>c. c\<lparr>write_buffer := format_reject 0 (error_msg cmd) (write_buffer c)\<rparr>) n;
               n \<leftarrow> flush_client_write_buffer os fd n;
               Some (n, next_sequence, None)
             }
           else
             do {
               client \<leftarrow> map_of (clients n) fd;
               let (now_ns, e) = os_clock os (env n);
               Some (n\<lparr>env := e\<rparr>, next_sequence + 1,
                 Some \<lparr>im_sequence = next_sequence, im_client_fd = conn_fd client,
                       im_timestamp = now_ns, im_command = cmd\<rparr>)
             })"

section \<open>Executing a command\<close>

text \<open>The reply payload and the new book.\<close>

definition execute_command :: "ingress_message \<Rightarrow> pool_book \<Rightarrow> (string \<times> pool_book) option" where
  "execute_command msg order_book =
     (let cmd = im_command msg in
      case command_type cmd of
        Flush \<Rightarrow> Some (format_info ''BOOK_FLUSHED'' [], pool_clear order_book)
      | Cancel \<Rightarrow>
          do {
            (ok, order_book) \<leftarrow> pool_cancel_order (cancel_id cmd) order_book;
            Some (if ok then format_canceled (cancel_id cmd) []
                  else format_reject (cancel_id cmd) ''ORDER_NOT_FOUND'' [], order_book)
          }
      | New \<Rightarrow>
          do {
            (ok, trades, order_book) \<leftarrow> pool_submit_order (cmd_order cmd) [] order_book;
            if \<not> ok
            then Some (format_reject (order_id (cmd_order cmd)) ''DUPLICATE_OR_INVALID_ORDER'' [], order_book)
            else
              do {
                let payload = fold format_trade trades [];
                resting \<leftarrow> pool_get_order (order_id (cmd_order cmd)) order_book;
                Some (case resting of
                    Some r \<Rightarrow>
                      if remaining_quantity r > 0
                      then format_ack (order_id (cmd_order cmd)) (remaining_quantity r) payload
                      else if trades = [] \<and> otype (cmd_order cmd) = Market
                      then format_reject (order_id (cmd_order cmd)) ''NO_LIQUIDITY_FOR_MARKET_ORDER'' payload
                      else payload
                  | None \<Rightarrow>
                      if trades = [] \<and> otype (cmd_order cmd) = Market
                      then format_reject (order_id (cmd_order cmd)) ''NO_LIQUIDITY_FOR_MARKET_ORDER'' payload
                      else payload, order_book)
              }
          }
      | Unknown \<Rightarrow> Some ([], order_book))"

section \<open>Delivering responses\<close>

fun deliver :: "'e os \<Rightarrow> response_message list \<Rightarrow> 'e net_state \<Rightarrow> 'e net_state option" where
  "deliver os [] n = Some n"
| "deliver os (resp # responses) n =
     (case map_of (clients n) (rm_client_fd resp) of
        None \<Rightarrow> deliver os responses n
      | Some _ \<Rightarrow>
          do {
            n \<leftarrow> update_client (rm_client_fd resp) (\<lambda>c. c\<lparr>write_buffer := write_buffer c @ rm_payload resp\<rparr>) n;
            n \<leftarrow> flush_client_write_buffer os (rm_client_fd resp) n;
            deliver os responses n
          })"

end
