(* ===== verification/Gateway_Threads.thy ===== *)
theory Gateway_Threads
  imports Gateway
begin

text \<open>
  The two threads of the gateway as one system. The network thread polls, reads, parses and
  pushes commands; the matching thread pops batches, executes them on the book and pushes the
  responses. The program counters say where each thread is; a push that finds the queue full
  leaves its thread where it is. The queues are used by whole calls here. A pop may see only
  the first \<open>v\<close> elements of its queue, since its load of tail may be stale; a push whose load
  of head is stale finds the queue full and is repeated. This is what the ring buffer does under
  the memory model (\<open>ra_step_atomic\<close> in \<open>Spsc_Release_Acquire\<close>). Four ghost logs record the history:
  commands accepted and executed, responses produced and drained.
\<close>

section \<open>State\<close>

datatype net_pc =
    Net_poll
  | Net_lines fd
  | Net_push fd nat ingress_message
  | Net_join
  | Net_stopped

datatype match_pc =
    Match_poll
  | Match_batch "ingress_message list"
  | Match_push response_message "ingress_message list"
  | Match_done

record 'e gateway =
  net :: "'e net_state"
  next_sequence :: u64
  ingress_queue :: "ingress_message spsc_queue"
  response_queue :: "response_message spsc_queue"
  running :: bool
  order_book :: pool_book
  processed_orders :: u64
  net_at :: net_pc
  match_at :: match_pc
  accepted :: "ingress_message list"
  executed :: "ingress_message list"
  answered :: "response_message list"
  drained :: "response_message list"

text \<open>The gateway as \<^verbatim>\<open>start()\<close> enters its loop, the listening socket being set up.\<close>

definition gateway_start ::
    "'e \<Rightarrow> ingress_message spsc_queue \<Rightarrow> response_message spsc_queue \<Rightarrow> pool_book \<Rightarrow> 'e gateway" where
  "gateway_start e iq rq b =
     \<lparr>net = \<lparr>env = e, clients = []\<rparr>, next_sequence = 1, ingress_queue = iq, response_queue = rq,
      running = True, order_book = b, processed_orders = 0, net_at = Net_poll, match_at = Match_poll,
      accepted = [], executed = [], answered = [], drained = []\<rparr>"

text \<open>The constructor: both queues have the given capacity.\<close>

definition gateway_new :: "'e \<Rightarrow> u64 \<Rightarrow> pool_book \<Rightarrow> 'e gateway option" where
  "gateway_new e queue_capacity b =
     do {
       iq \<leftarrow> spsc_new default_ingress queue_capacity;
       rq \<leftarrow> spsc_new default_response queue_capacity;
       Some (gateway_start e iq rq b)
     }"

section \<open>The network thread\<close>

text \<open>What \<^verbatim>\<open>poll_events\<close> does, one handler at a time.\<close>

datatype net_event = Ev_drain | Ev_accept | Ev_readable fd | Ev_writable fd | Ev_hangup fd | Ev_leave

record epoll_event =
  ev_fd :: fd
  ev_in :: bool
  ev_out :: bool
  ev_hup :: bool

text \<open>The handlers called for one ready descriptor, and for a whole poll.\<close>

definition dispatch :: "fd \<Rightarrow> epoll_event \<Rightarrow> net_event list" where
  "dispatch server_fd ev =
     (if ev_fd ev = server_fd then [Ev_accept]
      else if ev_hup ev then [Ev_hangup (ev_fd ev)]
      else (if ev_in ev then [Ev_readable (ev_fd ev)] else []) @
           (if ev_out ev then [Ev_writable (ev_fd ev)] else []))"

definition poll_events :: "fd \<Rightarrow> epoll_event list \<Rightarrow> net_event list" where
  "poll_events server_fd events = Ev_drain # concat (map (dispatch server_fd) events) @ [Ev_drain]"

definition drain_response_queue :: "'e os \<Rightarrow> u64 \<Rightarrow> 'e gateway \<Rightarrow> 'e gateway option" where
  "drain_response_queue os v g =
     (let (responses, q) = pop_batch (min 64 v) (response_queue g)
      in do {
        n \<leftarrow> deliver os responses (net g);
        Some (g\<lparr>net := n, response_queue := q, drained := drained g @ responses\<rparr>)
      })"

fun handle_event :: "'e os \<Rightarrow> u64 \<Rightarrow> net_event \<Rightarrow> 'e gateway \<Rightarrow> 'e gateway option" where
  "handle_event os v Ev_drain g = drain_response_queue os v g"
| "handle_event os v Ev_accept g =
     do { n \<leftarrow> handle_new_connection os (net g); Some (g\<lparr>net := n\<rparr>) }"
| "handle_event os v (Ev_readable fd) g =
     (case map_of (clients (net g)) fd of
        None \<Rightarrow> Some g
      | Some _ \<Rightarrow>
          do { (n, go_on) \<leftarrow> read_available os fd (net g);
               Some (g\<lparr>net := n, net_at := (if go_on then Net_lines fd else Net_poll)\<rparr>) })"
| "handle_event os v (Ev_writable fd) g =
     do { n \<leftarrow> handle_client_write os fd (net g); Some (g\<lparr>net := n\<rparr>) }"
| "handle_event os v (Ev_hangup fd) g = Some (g\<lparr>net := close_connection os fd (net g)\<rparr>)"
| "handle_event os v Ev_leave g = Some (if running g then g else g\<lparr>net_at := Net_join\<rparr>)"

text \<open>
  One step. In \<open>Net_lines fd\<close> the thread is in the line loop of \<^verbatim>\<open>handle_client_read\<close>,
  in \<open>Net_push fd n msg\<close> it retries a push and then erases the line's \<open>n\<close> characters; in
  \<open>Net_join\<close> it waits for the matching thread, drains once and closes everything.
\<close>

definition net_step :: "'e os \<Rightarrow> u64 \<Rightarrow> net_event \<Rightarrow> 'e gateway \<Rightarrow> 'e gateway option" where
  "net_step os v ev g =
     (case net_at g of
        Net_poll \<Rightarrow> handle_event os v ev g
      | Net_lines fd \<Rightarrow>
          do {
            client \<leftarrow> map_of (clients (net g)) fd;
            case next_line (read_buffer client) of
              None \<Rightarrow> Some (g\<lparr>net_at := Net_poll\<rparr>)
            | Some (line, len) \<Rightarrow>
                do {
                  (n, seq, msg) \<leftarrow> process_client_line os fd line (net g) (next_sequence g);
                  case msg of
                    None \<Rightarrow>
                      do { n \<leftarrow> update_client fd (\<lambda>c. c\<lparr>read_buffer := drop len (read_buffer c)\<rparr>) n;
                           Some (g\<lparr>net := n\<rparr>) }
                  | Some m \<Rightarrow> Some (g\<lparr>net := n, next_sequence := seq, net_at := Net_push fd len m\<rparr>)
                }
          }
      | Net_push fd len msg \<Rightarrow>
          (case push msg (ingress_queue g) of
             (False, _) \<Rightarrow> Some g
           | (True, q) \<Rightarrow>
               do { n \<leftarrow> update_client fd (\<lambda>c. c\<lparr>read_buffer := drop len (read_buffer c)\<rparr>) (net g);
                    Some (g\<lparr>net := n, ingress_queue := q, net_at := Net_lines fd,
                            accepted := accepted g @ [msg]\<rparr>) })
      | Net_join \<Rightarrow>
          if match_at g = Match_done then
            do { g \<leftarrow> drain_response_queue os v g;
                 Some (g\<lparr>net := fold (close_connection os) (map fst (clients (net g))) (net g),
                         net_at := Net_stopped\<rparr>) }
          else Some g
      | Net_stopped \<Rightarrow> Some g)"

section \<open>The matching thread\<close>

definition match_step :: "u64 \<Rightarrow> 'e gateway \<Rightarrow> 'e gateway option" where
  "match_step v g =
     (case match_at g of
        Match_poll \<Rightarrow>
          if running g \<or> \<not> (v = 0 \<or> spsc_empty (ingress_queue g)) then
            let (batch, q) = pop_batch (min 64 v) (ingress_queue g)
            in Some (g\<lparr>ingress_queue := q, match_at := (if batch = [] then Match_poll else Match_batch batch)\<rparr>)
          else Some (g\<lparr>match_at := Match_done\<rparr>)
      | Match_batch [] \<Rightarrow> Some (g\<lparr>match_at := Match_poll\<rparr>)
      | Match_batch (msg # batch) \<Rightarrow>
          do {
            (payload, b) \<leftarrow> execute_command msg (order_book g);
            if payload \<noteq> [] then
              Some (g\<lparr>order_book := b, executed := executed g @ [msg],
                      match_at := Match_push \<lparr>rm_client_fd = im_client_fd msg,
                        rm_sequence = im_sequence msg, rm_payload = payload\<rparr> batch\<rparr>)
            else
              Some (g\<lparr>order_book := b, executed := executed g @ [msg],
                      processed_orders := processed_orders g + 1, match_at := Match_batch batch\<rparr>)
          }
      | Match_push resp batch \<Rightarrow>
          (case push resp (response_queue g) of
             (False, _) \<Rightarrow> Some g
           | (True, q) \<Rightarrow>
               Some (g\<lparr>response_queue := q, processed_orders := processed_orders g + 1,
                       match_at := Match_batch batch, answered := answered g @ [resp]\<rparr>))
      | Match_done \<Rightarrow> Some g)"

definition stop :: "'e gateway \<Rightarrow> 'e gateway" where
  "stop g = g\<lparr>running := False\<rparr>"

section \<open>The system\<close>

inductive gateway_step :: "'e os \<Rightarrow> 'e gateway \<Rightarrow> 'e gateway \<Rightarrow> bool" for os where
  network: "net_step os v ev g = Some g' \<Longrightarrow> gateway_step os g g'"
| matching: "match_step v g = Some g' \<Longrightarrow> gateway_step os g g'"
| signal: "gateway_step os g (stop g)"

inductive_cases gateway_stepE: "gateway_step os g g'"

text \<open>A schedule as data: an event for the network thread, or a step of the matching thread.\<close>

datatype schedule_item = Network net_event | Matching | Signal

fun run_gateway :: "'e os \<Rightarrow> schedule_item list \<Rightarrow> 'e gateway \<Rightarrow> 'e gateway option" where
  "run_gateway os [] g = Some g"
| "run_gateway os (Network ev # sch) g = do { g \<leftarrow> net_step os 64 ev g; run_gateway os sch g }"
| "run_gateway os (Matching # sch) g = do { g \<leftarrow> match_step 64 g; run_gateway os sch g }"
| "run_gateway os (Signal # sch) g = run_gateway os sch (stop g)"

lemma run_gateway_steps: "run_gateway os sch g = Some g' \<Longrightarrow> (gateway_step os)\<^sup>*\<^sup>* g g'"
proof (induction os sch g rule: run_gateway.induct)
  case (2 os ev sch g)
  then show ?case
    by (auto simp: bind_eq_Some_conv intro: converse_rtranclp_into_rtranclp network)
next
  case (3 os sch g)
  then show ?case
    by (auto simp: bind_eq_Some_conv intro: converse_rtranclp_into_rtranclp matching)
next
  case (4 os sch g)
  then show ?case
    by (auto intro: converse_rtranclp_into_rtranclp signal)
qed simp

end
