(* ===== verification/Gateway_Refinement.thy ===== *)
theory Gateway_Refinement
  imports Gateway_Threads Pool_Refinement
begin

text \<open>
  What the gateway promises: the commands it accepts are executed one after the other against
  the price-time book, each answered once, in the order of their sequence numbers, however the
  two threads interleave. \<open>spec_serve\<close> is that sequential server; \<open>gateway_inv\<close> relates the
  two-thread system to it through the history.
\<close>

section \<open>The sequential server\<close>

definition spec_execute :: "parsed_command \<Rightarrow> lob \<Rightarrow> string \<times> lob" where
  "spec_execute cmd bk =
     (case command_type cmd of
        Flush \<Rightarrow> (format_info ''BOOK_FLUSHED'' [], lob_empty)
      | Cancel \<Rightarrow>
          (if cancel_id cmd \<in> lob_ids bk then format_canceled (cancel_id cmd) []
           else format_reject (cancel_id cmd) ''ORDER_NOT_FOUND'' [], snd (lob_cancel (cancel_id cmd) bk))
      | New \<Rightarrow>
          (case lob_submit (cmd_order cmd) bk of
             (False, _, bk') \<Rightarrow>
               (format_reject (order_id (cmd_order cmd)) ''DUPLICATE_OR_INVALID_ORDER'' [], bk')
           | (True, ts, bk') \<Rightarrow>
               (case lob_get (order_id (cmd_order cmd)) bk' of
                  Some r \<Rightarrow> format_ack (order_id (cmd_order cmd)) (remaining_quantity r) (fold format_trade ts [])
                | None \<Rightarrow>
                    if ts = [] \<and> otype (cmd_order cmd) = Market
                    then format_reject (order_id (cmd_order cmd)) ''NO_LIQUIDITY_FOR_MARKET_ORDER'' []
                    else fold format_trade ts [], bk'))
      | Unknown \<Rightarrow> ([], bk))"

fun spec_serve :: "ingress_message list \<Rightarrow> lob \<Rightarrow> response_message list \<times> lob" where
  "spec_serve [] bk = ([], bk)"
| "spec_serve (m # ms) bk =
     (let (reply, bk') = spec_execute (im_command m) bk; (rs, bk'') = spec_serve ms bk'
      in (\<lparr>rm_client_fd = im_client_fd m, rm_sequence = im_sequence m, rm_payload = reply\<rparr> # rs, bk''))"

lemma spec_serve_snoc:
  "spec_serve (ms @ [m]) bk =
     (case spec_serve ms bk of (rs, bk') \<Rightarrow>
        case spec_execute (im_command m) bk' of (reply, bk'') \<Rightarrow>
          (rs @ [\<lparr>rm_client_fd = im_client_fd m, rm_sequence = im_sequence m, rm_payload = reply\<rparr>], bk''))"
  by (induction ms arbitrary: bk) (auto split: prod.splits)

lemma spec_serve_sequences:
  "spec_serve ms bk = (rs, bk') \<Longrightarrow> map rm_sequence rs = map im_sequence ms
    \<and> map rm_client_fd rs = map im_client_fd ms"
  by (induction ms arbitrary: bk rs) (auto split: prod.splits)

section \<open>Executing one command\<close>

lemma fold_trades: "fold format_trade ts out = out @ fold format_trade ts []"
proof (induction ts arbitrary: out)
  case (Cons t ts)
  have "fold format_trade (t # ts) out = format_trade t out @ fold format_trade ts []"
    using Cons [of "format_trade t out"] by simp
  also have "\<dots> = out @ format_trade t [] @ fold format_trade ts []"
    by (simp add: format_trade_def)
  also have "format_trade t [] @ fold format_trade ts [] = fold format_trade (t # ts) []"
    using Cons [of "format_trade t []"] by simp
  finally show ?case .
qed simp

lemma trades_nonempty: "ts \<noteq> [] \<Longrightarrow> fold format_trade ts [] \<noteq> []"
  using fold_trades [of "tl ts" "format_trade (hd ts) []"]
  by (cases ts) (auto simp: format_trade_def)

lemma lob_get_present:
  assumes "lob_inv bk" "lob_get i bk = Some r"
  shows "remaining_quantity r \<noteq> 0"
proof -
  have "r \<in> set (lob_orders bk)"
    using assms(2) by (auto simp: lob_get_def find_Some_iff)
  with assms(1) show ?thesis
    by (auto simp: lob_orders_def lob_inv_def resting_ok_def)
qed

text \<open>An accepted limit order trades or rests, so it is never answered by silence.\<close>

lemma accepted_visible:
  assumes "lob_submit ord bk = (True, [], bk')" "otype ord = Limit"
  shows "lob_get (order_id ord) bk' \<noteq> None"
proof -
  obtain ord' rest where acc: "acceptable ord" "order_id ord \<notin> lob_ids bk"
    and m: "lob_match (normalise ord) (bk (opposite (side ord))) = ([], ord', rest)"
    and bk': "bk' = lob_settle ord' (bk(opposite (side ord) := rest))"
    using assms(1) by (auto simp: lob_submit_def Let_def split: if_splits prod.splits)
  have "order_id ` set rest \<subseteq> order_id ` set (bk (opposite (side ord)))"
    by (rule lob_match_rest [OF m]) (metis list.set_map set_mono_suffix)
  then have new: "order_id ord' \<notin> lob_ids (bk(opposite (side ord) := rest))"
    using acc(2) lob_match_frame_sel(1) [OF m] by (auto simp: lob_ids_side [of _ "side ord"])
  have "remaining_quantity ord' = remaining_quantity (normalise ord)"
    using lob_match_conserves [OF m] by (simp add: word_unat_eq_iff)
  then have "remaining_quantity ord' \<noteq> 0" using normalise_remaining [OF acc(1)] by simp
  with lob_get_settle [OF new] lob_match_frame_sel(1,4) [OF m] assms(2) show ?thesis
    by (simp add: bk')
qed

lemma reply_nonempty:
  assumes "command_type cmd \<noteq> Unknown"
  shows "fst (spec_execute cmd bk) \<noteq> []"
proof (cases "command_type cmd")
  case New
  obtain ok ts bk' where s: "lob_submit (cmd_order cmd) bk = (ok, ts, bk')"
    by (cases "lob_submit (cmd_order cmd) bk")
  show ?thesis
  proof (cases "ok \<and> lob_get (order_id (cmd_order cmd)) bk' = None \<and> ts = []")
    case True
    then have "otype (cmd_order cmd) = Market"
      using accepted_visible [of "cmd_order cmd" bk bk'] s by (cases "otype (cmd_order cmd)") auto
    with True New s show ?thesis by (simp add: spec_execute_def format_reject_def)
  next
    case False
    with New s trades_nonempty [of ts] show ?thesis
      by (cases ok) (auto simp: spec_execute_def format_reject_def format_ack_def split: option.split)
  qed
qed (use assms in \<open>simp_all add: spec_execute_def format_info_def format_canceled_def format_reject_def\<close>)

lemma execute_refines:
  assumes inv: "pool_inv b" and room: "pool_total_orders b < 2 ^ 31"
    and spec: "spec_execute (im_command msg) (pool_abs b) = (reply, bk')"
  shows "\<exists>b'. execute_command msg b = Some (reply, b') \<and> pool_inv b' \<and> pool_abs b' = bk'
    \<and> pool_total_orders b' \<le> Suc (pool_total_orders b)"
proof (cases "command_type (im_command msg)")
  case New
  let ?ord = "cmd_order (im_command msg)"
  obtain ok ts bk1 where lob: "lob_submit ?ord (pool_abs b) = (ok, ts, bk1)"
    by (cases "lob_submit ?ord (pool_abs b)")
  from pool_submit_step [OF inv room lob, of "[]"]
  obtain b' where b': "pool_submit_order ?ord [] b = Some (ok, ts, b')" "pool_inv b'" "pool_abs b' = bk1"
    "pool_total_orders b' \<le> Suc (pool_total_orders b)"
    by auto
  have get: "pool_get_order (order_id ?ord) b' = Some (lob_get (order_id ?ord) bk1)"
    using pool_get_order_correct [OF b'(2)] b'(3) by simp
  have rem: "remaining_quantity r \<noteq> 0" if "lob_get (order_id ?ord) bk1 = Some r" for r
    using lob_get_present [OF _ that] b'(2,3) by (simp add: pool_inv_def)
  show ?thesis
    using New spec lob b' get rem
    by (cases ok; cases "lob_get (order_id ?ord) bk1")
      (auto simp: execute_command_def spec_execute_def Let_def word_pos_iff)
next
  case Cancel
  let ?i = "cancel_id (im_command msg)"
  obtain ok bk1 where lob: "lob_cancel ?i (pool_abs b) = (ok, bk1)" by (cases "lob_cancel ?i (pool_abs b)")
  from pool_cancel_step [OF inv room lob]
  obtain b' where "pool_cancel_order ?i b = Some (ok, b')" "pool_inv b'" "pool_abs b' = bk1"
    "pool_total_orders b' \<le> Suc (pool_total_orders b)"
    by blast
  with Cancel spec lob show ?thesis
    by (auto simp: execute_command_def spec_execute_def lob_cancel_def Let_def)
next
  case Flush
  then show ?thesis
    using spec pool_clear_correct [OF inv]
    by (simp add: execute_command_def spec_execute_def pool_total_orders_def pool_clear_def)
next
  case Unknown
  with spec inv show ?thesis by (simp add: execute_command_def spec_execute_def)
qed

section \<open>The system invariant\<close>

fun in_hand :: "match_pc \<Rightarrow> ingress_message list" where
  "in_hand (Match_batch batch) = batch"
| "in_hand (Match_push resp batch) = batch"
| "in_hand _ = []"

fun unsent :: "match_pc \<Rightarrow> response_message list" where
  "unsent (Match_push resp batch) = [resp]"
| "unsent _ = []"

fun pushing :: "net_pc \<Rightarrow> ingress_message list" where
  "pushing (Net_push fd len msg) = [msg]"
| "pushing _ = []"

text \<open>The part of the invariant the network thread can touch, and the matching thread's.\<close>

definition numbered_log :: "ingress_message list \<Rightarrow> u64 \<Rightarrow> bool" where
  "numbered_log ms seq \<longleftrightarrow>
     map im_sequence ms = map word_of_nat [1..<Suc (length ms)] \<and> seq = word_of_nat (Suc (length ms))
     \<and> (\<forall>m \<in> set ms. command_type (im_command m) \<noteq> Unknown)"

definition numbered :: "'e gateway \<Rightarrow> bool" where
  "numbered g \<longleftrightarrow> numbered_log (accepted g @ pushing (net_at g)) (next_sequence g)"

lemma numbered_log_Nil: "numbered_log [] 1"
  by (simp add: numbered_log_def)

lemma numbered_log_snoc:
  assumes "numbered_log ms seq" "im_sequence m = seq" "command_type (im_command m) \<noteq> Unknown"
  shows "numbered_log (ms @ [m]) (seq + 1)"
  using assms by (auto simp: numbered_log_def)

definition served :: "'e gateway \<Rightarrow> bool" where
  "served g \<longleftrightarrow>
     spec_serve (executed g) lob_empty = (answered g @ unsent (match_at g), pool_abs (order_book g))
     \<and> pool_inv (order_book g) \<and> pool_total_orders (order_book g) \<le> length (executed g)
     \<and> processed_orders g = word_of_nat (length (answered g))"

definition gateway_inv :: "'e gateway \<Rightarrow> bool" where
  "gateway_inv g \<longleftrightarrow>
     spsc_inv (ingress_queue g) \<and> spsc_inv (response_queue g)
     \<and> executed g @ in_hand (match_at g) @ contents (ingress_queue g) = accepted g
     \<and> drained g @ contents (response_queue g) = answered g
     \<and> numbered g \<and> served g"

lemma gateway_start_inv:
  assumes "spsc_inv iq" "contents iq = []" "spsc_inv rq" "contents rq = []"
    and "pool_inv b" "pool_abs b = lob_empty"
  shows "gateway_inv (gateway_start e iq rq b)"
proof -
  have "pool_total_orders b = 0"
    using pool_total_correct [OF assms(5)] assms(6) by (simp add: lob_orders_def)
  with assms show ?thesis
    by (simp add: gateway_inv_def gateway_start_def numbered_def served_def numbered_log_Nil)
qed

lemma gateway_new_inv:
  assumes new: "gateway_new e queue_capacity (pool_new initial_capacity) = Some g"
    and sizes: "initial_capacity < 2 ^ 32" "unat queue_capacity \<le> 2 ^ 63"
  shows "gateway_inv g"
proof -
  obtain iq where iq: "spsc_new default_ingress queue_capacity = Some iq" "spsc_inv iq" "contents iq = []"
    using spsc_new_correct [OF sizes(2), of default_ingress] by (elim exE conjE)
  obtain rq where rq: "spsc_new default_response queue_capacity = Some rq" "spsc_inv rq" "contents rq = []"
    using spsc_new_correct [OF sizes(2), of default_response] by (elim exE conjE)
  have "g = gateway_start e iq rq (pool_new initial_capacity)"
    using new iq(1) rq(1) by (simp add: gateway_new_def)
  then show ?thesis
    using gateway_start_inv [OF iq(2,3) rq(2,3) pool_new_correct [OF sizes(1)]] by simp
qed

section \<open>The network thread keeps it\<close>

lemma process_line_cases:
  assumes "process_client_line os fd line n seq = Some (n', seq', msg)"
  obtains "msg = None" "seq' = seq"
  | m where "msg = Some m" "seq' = seq + 1" "im_sequence m = seq" "command_type (im_command m) \<noteq> Unknown"
proof (cases "line = []")
  case True
  with assms that(1) show ?thesis by (simp add: process_client_line_def)
next
  case False
  obtain t e where clock: "os_clock os (env n) = (t, e)" by (cases "os_clock os (env n)")
  define cmd where "cmd = parse_line t line"
  define n1 where "n1 = (if command_type cmd = New then n\<lparr>env := e\<rparr> else n)"
  obtain t2 e2 where clock2: "os_clock os (env n1) = (t2, e2)" by (cases "os_clock os (env n1)")
  note unf = process_client_line_def Let_def clock prod.case cmd_def [symmetric] n1_def [symmetric] clock2
  show ?thesis
  proof (cases "command_type cmd = Unknown")
    case True
    with assms False that(1) show ?thesis
      unfolding unf by (auto simp: bind_eq_Some_conv)
  next
    case known: False
    show ?thesis
      by (rule that(2) [of "the msg"])
        (use assms False known in \<open>unfold unf, auto simp: bind_eq_Some_conv\<close>)
  qed
qed

lemma handle_event_quiet:
  assumes "handle_event os v ev g = Some g'" "ev \<noteq> Ev_drain" "pushing (net_at g) = []"
  shows "\<exists>n pc. g' = g\<lparr>net := n, net_at := pc\<rparr> \<and> pushing pc = []"
proof (cases ev)
  case Ev_accept
  with assms obtain n where "g' = g\<lparr>net := n, net_at := net_at g\<rparr>" by (auto simp: bind_eq_Some_conv)
  with assms(3) show ?thesis by blast
next
  case (Ev_readable fd)
  show ?thesis
  proof (cases "map_of (clients (net g)) fd")
    case None
    with assms Ev_readable have "g' = g\<lparr>net := net g, net_at := net_at g\<rparr>" by simp
    with assms(3) show ?thesis by blast
  next
    case (Some c)
    with assms Ev_readable obtain n go where
      "g' = g\<lparr>net := n, net_at := (if go then Net_lines fd else Net_poll)\<rparr>"
      by (auto simp: bind_eq_Some_conv)
    moreover have "pushing (if go then Net_lines fd else Net_poll) = []" by simp
    ultimately show ?thesis by blast
  qed
next
  case (Ev_writable fd)
  with assms obtain n where "g' = g\<lparr>net := n, net_at := net_at g\<rparr>" by (auto simp: bind_eq_Some_conv)
  with assms(3) show ?thesis by blast
next
  case (Ev_hangup fd)
  with assms have "g' = g\<lparr>net := close_connection os fd (net g)\<rparr>" by simp
  with assms(3) show ?thesis
    by (intro exI [of _ "close_connection os fd (net g)"] exI [of _ "net_at g"]) simp
next
  case Ev_leave
  with assms have "g' = g\<lparr>net := net g, net_at := (if running g then net_at g else Net_join)\<rparr>" by auto
  moreover have "pushing (if running g then net_at g else Net_join) = []" using assms(3) by simp
  ultimately show ?thesis by blast
qed (use assms in simp)

lemma drain_cases:
  assumes "drain_response_queue os v g = Some g'"
  obtains n rs q where "pop_batch (min 64 v) (response_queue g) = (rs, q)"
    "g' = g\<lparr>net := n, response_queue := q, drained := drained g @ rs\<rparr>"
  using assms by (auto simp: drain_response_queue_def bind_eq_Some_conv split: prod.splits)

text \<open>What one step of the network thread does to the queues and logs.\<close>

lemma net_step_cases:
  assumes "net_step os v ev g = Some g'"
  obtains (quiet) n pc where "g' = g\<lparr>net := n, net_at := pc\<rparr>" "pushing pc = pushing (net_at g)"
  | (drain) n pc rs q where "pop_batch (min 64 v) (response_queue g) = (rs, q)" "pushing (net_at g) = []" "pushing pc = []"
      "g' = g\<lparr>net := n, response_queue := q, drained := drained g @ rs, net_at := pc\<rparr>"
  | (parsed) n fd len m where "pushing (net_at g) = []" "im_sequence m = next_sequence g"
      "command_type (im_command m) \<noteq> Unknown"
      "g' = g\<lparr>net := n, next_sequence := next_sequence g + 1, net_at := Net_push fd len m\<rparr>"
  | (pushed) n fd len m q where "net_at g = Net_push fd len m" "push m (ingress_queue g) = (True, q)"
      "g' = g\<lparr>net := n, ingress_queue := q, net_at := Net_lines fd, accepted := accepted g @ [m]\<rparr>"
proof (cases "net_at g")
  case Net_poll
  have ev: "handle_event os v ev g = Some g'" using assms Net_poll by (simp add: net_step_def)
  show ?thesis
  proof (cases "ev = Ev_drain")
    case True
    then have "drain_response_queue os v g = Some g'" using ev by simp
    then obtain n rs q where "pop_batch (min 64 v) (response_queue g) = (rs, q)"
      "g' = g\<lparr>net := n, response_queue := q, drained := drained g @ rs\<rparr>"
      by (rule drain_cases)
    then show ?thesis using Net_poll by (intro drain [where rs = rs and q = q and pc = Net_poll and n = n]) simp_all
  next
    case False
    then show ?thesis using handle_event_quiet [OF ev] Net_poll quiet by auto
  qed
next
  case (Net_lines fd)
  from assms Net_lines obtain client where "map_of (clients (net g)) fd = Some client"
    and *: "(case next_line (read_buffer client) of
              None \<Rightarrow> Some (g\<lparr>net_at := Net_poll\<rparr>)
            | Some (line, len) \<Rightarrow>
                do {
                  (n, seq, msg) \<leftarrow> process_client_line os fd line (net g) (next_sequence g);
                  case msg of
                    None \<Rightarrow>
                      do { n \<leftarrow> update_client fd (\<lambda>c. c\<lparr>read_buffer := drop len (read_buffer c)\<rparr>) n;
                           Some (g\<lparr>net := n\<rparr>) }
                  | Some m \<Rightarrow> Some (g\<lparr>net := n, next_sequence := seq, net_at := Net_push fd len m\<rparr>)
                }) = Some g'"
    by (auto simp: net_step_def bind_eq_Some_conv)
  show ?thesis
  proof (cases "next_line (read_buffer client)")
    case None
    with * quiet [where n = "net g" and pc = Net_poll] Net_lines show ?thesis by simp
  next
    case (Some l)
    obtain line len where l: "l = (line, len)" by (cases l)
    obtain n seq msg where p: "process_client_line os fd line (net g) (next_sequence g) = Some (n, seq, msg)"
      and r: "(case msg of
                None \<Rightarrow>
                  do { n \<leftarrow> update_client fd (\<lambda>c. c\<lparr>read_buffer := drop len (read_buffer c)\<rparr>) n;
                       Some (g\<lparr>net := n\<rparr>) }
              | Some m \<Rightarrow> Some (g\<lparr>net := n, next_sequence := seq, net_at := Net_push fd len m\<rparr>)) = Some g'"
      using * Some l by (auto simp: bind_eq_Some_conv)
    show ?thesis
    proof (cases msg)
      case None
      with r obtain n' where "g' = g\<lparr>net := n'\<rparr>" by (auto simp: bind_eq_Some_conv)
      then have "g' = g\<lparr>net := n', net_at := net_at g\<rparr>" by simp
      then show ?thesis by (rule quiet) simp
    next
      case (Some m)
      with r p parsed [where m = m and n = n and fd = fd and len = len] Net_lines show ?thesis
        by (auto elim: process_line_cases)
    qed
  qed
next
  case (Net_push fd len msg)
  show ?thesis
  proof (cases "push msg (ingress_queue g)")
    case (Pair ok q)
    show ?thesis
    proof (cases ok)
      case True
      with assms Net_push Pair pushed [where fd = fd and len = len and m = msg and q = q] show ?thesis
        by (auto simp: net_step_def bind_eq_Some_conv)
    next
      case False
      with assms Net_push Pair have "g' = g\<lparr>net := net g, net_at := net_at g\<rparr>" by (simp add: net_step_def)
      then show ?thesis by (rule quiet) simp
    qed
  qed
next
  case Net_join
  show ?thesis
  proof (cases "match_at g = Match_done")
    case True
    with assms Net_join obtain g1 where d: "drain_response_queue os v g = Some g1"
      and g': "g' = g1\<lparr>net := fold (close_connection os) (map fst (clients (net g1))) (net g1),
                         net_at := Net_stopped\<rparr>"
      by (auto simp: net_step_def bind_eq_Some_conv)
    from d obtain n rs q where "pop_batch (min 64 v) (response_queue g) = (rs, q)"
      "g1 = g\<lparr>net := n, response_queue := q, drained := drained g @ rs\<rparr>"
      by (rule drain_cases)
    with g' Net_join show ?thesis 
      by (intro drain [where rs = rs and q = q and pc = Net_stopped
            and n = "fold (close_connection os) (map fst (clients n)) n"]) simp_all
  next
    case False
    with assms Net_join have "g' = g\<lparr>net := net g, net_at := net_at g\<rparr>" by (simp add: net_step_def)
    then show ?thesis by (rule quiet) simp
  qed
next
  case Net_stopped
  with assms have "g' = g\<lparr>net := net g, net_at := net_at g\<rparr>" by (simp add: net_step_def)
  then show ?thesis by (rule quiet) simp
qed

lemma net_step_inv:
  assumes inv: "gateway_inv g" and step: "net_step os v ev g = Some g'"
  shows "gateway_inv g'"
  using step
proof (cases rule: net_step_cases)
  case (quiet n pc)
  with inv show ?thesis by (simp add: gateway_inv_def numbered_def served_def)
next
  case (drain n pc rs q)
  with inv have law: "spsc_inv q" "rs @ contents q = contents (response_queue g)"
    using spsc.pop_law [of "response_queue g" "min 64 v" rs q] by (simp_all add: gateway_inv_def)
  with inv drain show ?thesis by (simp add: gateway_inv_def numbered_def served_def)
next
  case (parsed n fd len m)
  with inv numbered_log_snoc [of "accepted g" "next_sequence g" m] show ?thesis
    by (simp add: gateway_inv_def numbered_def served_def)
next
  case (pushed n fd len m q)
  with inv have law: "spsc_inv q" "contents q = contents (ingress_queue g) @ [m]"
    using spsc.push_law [of "ingress_queue g" m True q] by (simp_all add: gateway_inv_def)
  with inv pushed show ?thesis by (simp add: gateway_inv_def numbered_def served_def)
qed

lemma net_step_accepted:
  assumes "net_step os v ev g = Some g'"
  shows "length (accepted g) \<le> length (accepted g')"
  using assms by (cases rule: net_step_cases) simp_all

section \<open>The matching thread keeps it\<close>

text \<open>
  The bound is on the length of the history: with at most \<open>2 ^ 31\<close> commands accepted the
  book holds fewer orders than its slots can name.
\<close>

lemma match_step_inv:
  assumes inv: "gateway_inv g" and room: "length (accepted g) \<le> 2 ^ 31"
  shows "\<exists>g'. match_step v g = Some g' \<and> gateway_inv g' \<and> accepted g' = accepted g"
proof (cases "match_at g")
  case Match_poll
  show ?thesis
  proof (cases "running g \<or> \<not> spsc_empty (ingress_queue g)")
    case True
    obtain batch q where p: "pop_batch (min 64 v) (ingress_queue g) = (batch, q)"
      by (cases "pop_batch (min 64 v) (ingress_queue g)")
    have law: "spsc_inv q" "batch @ contents q = contents (ingress_queue g)"
      using inv spsc.pop_law [OF _ p] by (simp_all add: gateway_inv_def)
    with inv True Match_poll p show ?thesis
      by (cases batch) (simp_all add: match_step_def gateway_inv_def numbered_def served_def)
  next
    case False
    with inv Match_poll show ?thesis
      by (simp add: match_step_def gateway_inv_def numbered_def served_def)
  qed
next
  case (Match_batch batch)
  show ?thesis
  proof (cases batch)
    case Nil
    with inv Match_batch show ?thesis
      by (simp add: match_step_def gateway_inv_def numbered_def served_def)
  next
    case (Cons msg rest)
    obtain reply bk' where spec: "spec_execute (im_command msg) (pool_abs (order_book g)) = (reply, bk')"
      by (cases "spec_execute (im_command msg) (pool_abs (order_book g))")
    have log: "accepted g = executed g @ msg # rest @ contents (ingress_queue g)"
      using inv Match_batch Cons by (simp add: gateway_inv_def)
    have ok: "pool_inv (order_book g)" "pool_total_orders (order_book g) < 2 ^ 31"
      using inv room log by (simp_all add: gateway_inv_def served_def)
    have "command_type (im_command msg) \<noteq> Unknown"
      using inv log by (simp add: gateway_inv_def numbered_def numbered_log_def)
    with reply_nonempty spec have reply: "reply \<noteq> []" by (metis fst_conv)
    from execute_refines [OF ok spec] obtain b' where "execute_command msg (order_book g) = Some (reply, b')"
      "pool_inv b'" "pool_abs b' = bk'" "pool_total_orders b' \<le> Suc (pool_total_orders (order_book g))"
      by blast
    with inv Match_batch Cons reply spec show ?thesis
      by (simp add: match_step_def gateway_inv_def numbered_def served_def spec_serve_snoc)
  qed
next
  case (Match_push resp batch)
  obtain ok q where p: "push resp (response_queue g) = (ok, q)"
    by (cases "push resp (response_queue g)")
  show ?thesis
  proof (cases ok)
    case True
    with inv p have "spsc_inv q" "contents q = contents (response_queue g) @ [resp]"
      using spsc.push_law [of "response_queue g" resp True q] by (simp_all add: gateway_inv_def)
    with inv Match_push p True show ?thesis
      by (simp add: match_step_def gateway_inv_def numbered_def served_def)
  next
    case False
    with inv Match_push p show ?thesis by (simp add: match_step_def)
  qed
next
  case Match_done
  with inv show ?thesis by (simp add: match_step_def)
qed

section \<open>Every reachable state\<close>

lemma stop_inv: "gateway_inv g \<Longrightarrow> gateway_inv (stop g)"
  by (simp add: stop_def gateway_inv_def numbered_def served_def)

lemma gateway_step_inv:
  assumes "gateway_step os g g'" "length (accepted g') \<le> 2 ^ 31"
    and inv: "length (accepted g) \<le> 2 ^ 31 \<Longrightarrow> gateway_inv g"
  shows "gateway_inv g'"
  using assms(1)
proof (cases rule: gateway_step.cases)
  case (network ev)
  have "length (accepted g) \<le> 2 ^ 31" using net_step_accepted [OF network] assms(2) by simp
  then show ?thesis using net_step_inv [OF inv network] by simp
next
  case (matching v)
  show ?thesis
  proof (cases "length (accepted g) \<le> 2 ^ 31")
    case True
    then show ?thesis using match_step_inv [OF inv True, of v] matching by auto
  next
    case False
    have "accepted g' = accepted g"
      using matching by (auto simp: match_step_def bind_eq_Some_conv Let_def
          split: match_pc.splits list.splits if_splits prod.splits bool.splits)
    with False assms(2) show ?thesis by simp
  qed
next
  case signal
  with assms(2) inv stop_inv show ?thesis by (simp add: stop_def)
qed

lemma gateway_reachable_inv:
  assumes "(gateway_step os)\<^sup>*\<^sup>* g0 g" "gateway_inv g0" "length (accepted g) \<le> 2 ^ 31"
  shows "gateway_inv g"
proof -
  have "length (accepted g) \<le> 2 ^ 31 \<longrightarrow> gateway_inv g"
    using assms(1)
  proof (induction rule: rtranclp_induct)
    case base
    with assms(2) show ?case by simp
  next
    case (step y z)
    then show ?case using gateway_step_inv by blast
  qed
  with assms(3) show ?thesis by simp
qed

section \<open>The matching thread catches up\<close>

definition backlog :: "'e gateway \<Rightarrow> nat" where
  "backlog g = length (unsent (match_at g)) + length (in_hand (match_at g)) + fill (ingress_queue g)"

definition has_room :: "'e gateway \<Rightarrow> bool" where
  "has_room g \<longleftrightarrow> backlog g + fill (response_queue g) \<le> unat (q_capacity (response_queue g))"

definition work_left :: "'e gateway \<Rightarrow> nat" where
  "work_left g = 5 * fill (ingress_queue g) + 3 * length (in_hand (match_at g))
     + (case match_at g of Match_push _ _ \<Rightarrow> 2 | Match_batch _ \<Rightarrow> 1 | _ \<Rightarrow> 0)"

lemma match_step_progress:
  assumes inv: "gateway_inv g" and room: "has_room g" and "match_at g \<noteq> Match_done"
    and busy: "match_at g \<noteq> Match_poll \<or> contents (ingress_queue g) \<noteq> []"
    and step: "match_step v g = Some g'"
    and sees: "v \<noteq> 0"
  shows "has_room g' \<and> match_at g' \<noteq> Match_done \<and> work_left g' < work_left g"
proof (cases "match_at g")
  case Match_poll
  obtain batch q where p: "pop_batch (min 64 v) (ingress_queue g) = (batch, q)"
    by (cases "pop_batch (min 64 v) (ingress_queue g)")
  note law = spsc.pop_law [OF _ p]
  have iq: "spsc_inv (ingress_queue g)" using inv by (simp add: gateway_inv_def)
  have "min 64 v \<noteq> 0" using sees by (simp add: min_def)
  then have "0 < unat (min 64 v)" using unat_gt_0 by blast
  then have ne: "batch \<noteq> []" using law iq busy Match_poll by auto
  have len: "length batch + fill q = fill (ingress_queue g)"
    using law iq by simp (metis append_take_drop_id length_append length_contents length_take min.commute)
  have g': "g' = g\<lparr>ingress_queue := q, match_at := Match_batch batch\<rparr>"
    using step Match_poll p ne busy sees by (simp add: match_step_def spsc_empty_correct)
  from len room Match_poll ne show ?thesis
    by (cases batch) (simp_all add: g' has_room_def backlog_def work_left_def)
next
  case (Match_batch batch)
  show ?thesis
  proof (cases batch)
    case Nil
    with step Match_batch have "g' = g\<lparr>match_at := Match_poll\<rparr>" by (simp add: match_step_def)
    with room Match_batch Nil show ?thesis by (simp add: has_room_def backlog_def work_left_def)
  next
    case (Cons msg rest)
    with step Match_batch room show ?thesis
      by (auto simp: match_step_def bind_eq_Some_conv has_room_def backlog_def work_left_def split: if_splits)
  qed
next
  case (Match_push resp batch)
  have "spsc_inv (response_queue g)" "fill (response_queue g) < unat (q_capacity (response_queue g))"
    using inv room Match_push by (simp_all add: gateway_inv_def has_room_def backlog_def)
  from push_accepts [OF this, of resp] obtain q where q: "push resp (response_queue g) = (True, q)"
    "contents q = contents (response_queue g) @ [resp]" "q_capacity q = q_capacity (response_queue g)"
    by blast
  have "fill q = Suc (fill (response_queue g))" using arg_cong [OF q(2), of length] by simp
  with step Match_push q room show ?thesis
    by (auto simp: match_step_def has_room_def backlog_def work_left_def)
qed (use assms in simp)

lemma catch_up:
  assumes "gateway_inv g" "length (accepted g) \<le> 2 ^ 31" "has_room g" "match_at g \<noteq> Match_done"
  shows "\<exists>k g'. run_gateway os (replicate k Matching) g = Some g' \<and> accepted g' = accepted g
    \<and> executed g' = accepted g \<and> length (answered g') = length (accepted g) \<and> net_at g' = net_at g"
  using assms
proof (induction "work_left g" arbitrary: g rule: less_induct)
  case less
  show ?case
  proof (cases "match_at g = Match_poll \<and> contents (ingress_queue g) = []")
    case True
    then have idle: "executed g = accepted g" "spec_serve (executed g) lob_empty = (answered g, pool_abs (order_book g))"
      using less.prems(1) unfolding gateway_inv_def served_def by auto
    have "length (answered g) = length (executed g)"
      using spec_serve_sequences [OF idle(2)] by (metis length_map)
    with idle show ?thesis by (intro exI [of _ 0] exI [of _ g]) simp
  next
    case False
    obtain g1 where g1: "match_step 64 g = Some g1" "gateway_inv g1" "accepted g1 = accepted g"
      using match_step_inv [OF less.prems(1,2), of 64] by blast
    have p: "has_room g1" "match_at g1 \<noteq> Match_done" "work_left g1 < work_left g"
      using match_step_progress [OF less.prems(1,3,4) _ g1(1)] False by auto
    have net: "net_at g1 = net_at g"
      using g1(1) by (auto simp: match_step_def bind_eq_Some_conv Let_def
          split: match_pc.splits list.splits if_splits prod.splits bool.splits)
    obtain k g' where "run_gateway os (replicate k Matching) g1 = Some g'" "accepted g' = accepted g1"
      "executed g' = accepted g1" "length (answered g') = length (accepted g1)" "net_at g' = net_at g1"
      using less.hyps [OF p(3) g1(2) _ p(1,2)] less.prems(2) g1(3) by auto
    with g1(1,3) net show ?thesis by (intro exI [of _ "Suc k"] exI [of _ g']) simp
  qed
qed

end
