(* ===== verification/Gateway_Network.thy ===== *)
theory Gateway_Network
  imports Gateway_Threads
begin

text \<open>
  The network thread's own work: how a byte stream splits into lines whatever the reads deliver,
  and what reaches the sockets. What is known of the sockets is a hypothesis,
  \<open>writes_append\<close>: a write of a non-empty buffer transfers a non-empty prefix of it, which is
  appended to the bytes sent on that descriptor, or transfers nothing; no other call sends
  bytes. This is the documented behaviour of \<^verbatim>\<open>write\<close> on a stream socket.
\<close>

section \<open>Framing\<close>

text \<open>A carriage return before the line feed is dropped.\<close>

definition chomp :: "string \<Rightarrow> string" where
  "chomp line = (if line \<noteq> [] \<and> last line = CHR 0x0D then butlast line else line)"

lemma next_line_None: "next_line buffer = None \<longleftrightarrow> newline \<notin> set buffer"
  by (simp add: next_line_def Let_def)

lemma next_line_append:
  assumes "newline \<notin> set line"
  shows "next_line (line @ newline # rest) = Some (chomp line, Suc (length line))"
proof -
  have "takeWhile (\<lambda>c. c \<noteq> newline) (line @ newline # rest) = line"
    using assms by (induction line) auto
  then show ?thesis by (simp add: next_line_def Let_def chomp_def)
qed

lemma next_line_length:
  assumes "next_line buffer = Some (line, len)"
  shows "0 < len \<and> len \<le> length buffer"
proof -
  have "newline \<in> set buffer"
    by (rule ccontr) (use assms next_line_None [of buffer] in simp)
  then obtain l t where "buffer = l @ newline # t" "newline \<notin> set l" by (metis split_list_first)
  with assms show ?thesis by (auto simp: next_line_append)
qed

text \<open>The lines the loop of \<^verbatim>\<open>handle_client_read\<close> takes from a buffer, and what it leaves.\<close>

function take_lines :: "string \<Rightarrow> string list \<times> string" where
  "take_lines buffer =
     (case next_line buffer of
        None \<Rightarrow> ([], buffer)
      | Some (line, len) \<Rightarrow> let (ls, rest) = take_lines (drop len buffer) in (line # ls, rest))"
  by pat_completeness auto

termination take_lines
  by (relation "measure length") (use next_line_length in \<open>fastforce+\<close>)

declare take_lines.simps [simp del]

lemma take_lines_None: "newline \<notin> set buffer \<Longrightarrow> take_lines buffer = ([], buffer)"
  by (subst take_lines.simps) (simp add: next_line_None [THEN iffD2])

lemma take_lines_line:
  "newline \<notin> set line \<Longrightarrow>
   take_lines (line @ newline # rest) = (let (ls, left) = take_lines rest in (chomp line # ls, left))"
  by (subst take_lines.simps) (simp add: next_line_append)

lemma line_induct [case_names partial line]:
  assumes "\<And>s. newline \<notin> set s \<Longrightarrow> P s"
    and "\<And>line s. newline \<notin> set line \<Longrightarrow> P s \<Longrightarrow> P (line @ newline # s)"
  shows "P s"
proof (induction "length s" arbitrary: s rule: less_induct)
  case less
  show ?case
  proof (cases "newline \<in> set s")
    case True
    then obtain line t where "s = line @ newline # t" "newline \<notin> set line"
      by (metis split_list_first)
    with less assms(2) show ?thesis by simp
  qed (rule assms(1))
qed

text \<open>What was cut at one read is continued by the next.\<close>

lemma take_lines_append:
  "take_lines (s @ t) =
     (let (ls, left) = take_lines s; (ms, left') = take_lines (left @ t) in (ls @ ms, left'))"
  by (induction s rule: line_induct)
    (auto simp: take_lines_None take_lines_line split: prod.splits)

lemma take_lines_rest: "take_lines s = (ls, left) \<Longrightarrow> newline \<notin> set left"
  by (induction s arbitrary: ls rule: line_induct)
    (auto simp: take_lines_None take_lines_line split: prod.splits)

text \<open>Reading a stream in chunks, taking the complete lines after each.\<close>

definition feed :: "string \<Rightarrow> string list \<times> string \<Rightarrow> string list \<times> string" where
  "feed chunk = (\<lambda>(ls, left). let (ms, left') = take_lines (left @ chunk) in (ls @ ms, left'))"

lemma feed_take_lines: "feed chunk (take_lines s) = take_lines (s @ chunk)"
  by (simp add: feed_def take_lines_append [of s])

lemma fold_feed: "fold feed chunks (take_lines s) = take_lines (s @ concat chunks)"
  by (induction chunks arbitrary: s) (simp_all add: feed_take_lines)

lemma take_lines_join:
  assumes "\<forall>l \<in> set ls. newline \<notin> set l" "newline \<notin> set rest"
  shows "take_lines (concat (map (\<lambda>l. l @ [newline]) ls) @ rest) = (map chomp ls, rest)"
  using assms by (induction ls) (simp_all add: take_lines_None take_lines_line)

section \<open>Writing\<close>

definition writes_append :: "'e os \<Rightarrow> (fd \<Rightarrow> 'e \<Rightarrow> string) \<Rightarrow> bool" where
  "writes_append os sent_on \<longleftrightarrow>
     (\<forall>fd data e r e'. os_write os fd data e = (r, e') \<longrightarrow> data \<noteq> [] \<longrightarrow>
        (case r of
           Wrote k \<Rightarrow> 0 < k \<and> k \<le> length data \<and> sent_on fd e' = sent_on fd e @ take k data
         | _ \<Rightarrow> sent_on fd e' = sent_on fd e)
        \<and> (\<forall>fd'. fd' \<noteq> fd \<longrightarrow> sent_on fd' e' = sent_on fd' e))
     \<and> (\<forall>fd fd' e. sent_on fd (os_close os fd' e) = sent_on fd e)"

lemma writes_appendD:
  assumes "writes_append os sent_on" "data \<noteq> []"
  shows "os_write os fd data e = (Wrote k, e') \<Longrightarrow>
      0 < k \<and> k \<le> length data \<and> sent_on fd e' = sent_on fd e @ take k data"
    and "os_write os fd data e = (Write_again, e') \<Longrightarrow> sent_on fd e' = sent_on fd e"
    and "os_write os fd data e = (Write_error, e') \<Longrightarrow> sent_on fd e' = sent_on fd e"
    and "os_write os fd data e = (r, e') \<Longrightarrow> fd' \<noteq> fd \<Longrightarrow> sent_on fd' e' = sent_on fd' e"
  using assms unfolding writes_append_def by (fastforce split: write_result.splits)+

lemma writes_append_close: "writes_append os sent_on \<Longrightarrow> sent_on fd (os_close os fd' e) = sent_on fd e"
  by (simp add: writes_append_def)

text \<open>What is on its way to a client: the bytes sent and the bytes buffered.\<close>

definition outgoing :: "(fd \<Rightarrow> 'e \<Rightarrow> string) \<Rightarrow> fd \<Rightarrow> 'e net_state \<Rightarrow> string option" where
  "outgoing sent_on fd n =
     map_option (\<lambda>c. sent_on fd (env n) @ write_buffer c) (map_of (clients n) fd)"

definition clients_ok :: "'e net_state \<Rightarrow> bool" where
  "clients_ok n \<longleftrightarrow> (\<forall>fd c. map_of (clients n) fd = Some c \<longrightarrow> conn_fd c = fd)"

text \<open>
  What a flush may do: the connection stays with the same bytes outgoing, or it is closed; other
  connections keep theirs.
\<close>

definition flushed :: "(fd \<Rightarrow> 'e \<Rightarrow> string) \<Rightarrow> fd \<Rightarrow> 'e net_state \<Rightarrow> 'e net_state \<Rightarrow> bool" where
  "flushed sent_on fd n n' \<longleftrightarrow>
     outgoing sent_on fd n' \<in> {outgoing sent_on fd n, None}
     \<and> (\<forall>fd'. fd' \<noteq> fd \<longrightarrow> outgoing sent_on fd' n' = outgoing sent_on fd' n
          \<and> map_of (clients n') fd' = map_of (clients n) fd')"

lemma flush_correct:
  assumes os: "writes_append os sent_on" and ok: "clients_ok n" and c: "map_of (clients n) fd = Some c"
  shows "\<exists>n'. flush_client_write_buffer os fd n = Some n' \<and> clients_ok n' \<and> flushed sent_on fd n n'"
  using ok c
proof (induction "length (write_buffer c)" arbitrary: n c rule: less_induct)
  case less
  then have fd: "conn_fd c = fd" by (simp add: clients_ok_def)
  obtain r e where w: "os_write os fd (write_buffer c) (env n) = (r, e)"
    by (cases "os_write os fd (write_buffer c) (env n)")
  show ?case
  proof (cases "write_buffer c = []")
    case True
    with less show ?thesis
      by (subst flush_client_write_buffer.simps) (simp add: flushed_def)
  next
    case False
    note law = writes_appendD [OF os False]
    show ?thesis
    proof (cases r)
      case (Wrote k)
      define c1 where "c1 = c\<lparr>write_buffer := drop k (write_buffer c)\<rparr>"
      define n1 where "n1 = n\<lparr>env := e, clients := AList.update fd c1 (clients n)\<rparr>"
      have k: "0 < k" "k \<le> length (write_buffer c)" "sent_on fd e = sent_on fd (env n) @ take k (write_buffer c)"
        using law(1) w Wrote by auto
      have n1: "map_of (clients n1) fd = Some c1" "clients_ok n1"
        using less.prems fd by (simp_all add: n1_def c1_def clients_ok_def)
      have step: "flush_client_write_buffer os fd n = flush_client_write_buffer os fd n1"
        using less.prems False w Wrote fd
        by (subst flush_client_write_buffer.simps) (simp add: update_client_def n1_def c1_def)
      have same: "flushed sent_on fd n n1"
        using less.prems k law(4) w Wrote by (simp add: flushed_def outgoing_def n1_def c1_def)
      have "length (write_buffer c1) < length (write_buffer c)" using k by (simp add: c1_def)
      from less.hyps [OF this n1(2,1)] step same show ?thesis
        by (auto simp: flushed_def)
    next
      case Write_again
      with less.prems False w fd law(2,4) show ?thesis
        by (subst flush_client_write_buffer.simps)
          (simp add: flushed_def outgoing_def clients_ok_def)
    next
      case Write_error
      with less.prems False w fd law(3,4) show ?thesis
        by (subst flush_client_write_buffer.simps)
          (simp add: flushed_def outgoing_def clients_ok_def close_connection_def writes_append_close [OF os])
    qed
  qed
qed

text \<open>Delivering responses appends each payload to its own connection, in order, or finds it closed.\<close>

lemma outgoing_None: "outgoing sent_on fd n = None \<longleftrightarrow> map_of (clients n) fd = None"
  by (simp add: outgoing_def)

definition payload_for :: "fd \<Rightarrow> response_message list \<Rightarrow> string" where
  "payload_for fd rs = concat (map rm_payload (filter (\<lambda>r. rm_client_fd r = fd) rs))"

lemma deliver_correct:
  assumes os: "writes_append os sent_on" and ok: "clients_ok n"
  shows "\<exists>n'. deliver os rs n = Some n' \<and> clients_ok n'
    \<and> (\<forall>fd. outgoing sent_on fd n' \<in> {map_option (\<lambda>s. s @ payload_for fd rs) (outgoing sent_on fd n), None})"
  using ok
proof (induction rs arbitrary: n)
  case Nil
  then show ?case by (simp add: payload_for_def option.map_ident)
next
  case (Cons r rs)
  let ?fd = "rm_client_fd r"
  show ?case
  proof (cases "map_of (clients n) ?fd")
    case None
    then have none: "outgoing sent_on ?fd n = None" by (simp add: outgoing_def)
    obtain n' where n': "deliver os rs n = Some n'" "clients_ok n'"
      "\<forall>fd. outgoing sent_on fd n' \<in> {map_option (\<lambda>s. s @ payload_for fd rs) (outgoing sent_on fd n), None}"
      using Cons.IH [OF Cons.prems] by blast
    have "outgoing sent_on fd n' \<in>
        {map_option (\<lambda>s. s @ payload_for fd (r # rs)) (outgoing sent_on fd n), None}" for fd
      using n'(3) [rule_format, of fd] none by (cases "?fd = fd") (auto simp: payload_for_def)
    with n' None show ?thesis by simp
  next
    case (Some c)
    define n1 where "n1 = n\<lparr>clients := AList.update ?fd (c\<lparr>write_buffer := write_buffer c @ rm_payload r\<rparr>) (clients n)\<rparr>"
    have n1: "clients_ok n1" "\<exists>c1. map_of (clients n1) ?fd = Some c1"
      using Cons.prems Some by (simp_all add: n1_def clients_ok_def)
    have out1: "outgoing sent_on fd n1 =
        map_option (\<lambda>s. s @ (if fd = ?fd then rm_payload r else [])) (outgoing sent_on fd n)" for fd
      using Some by (cases "map_of (clients n) fd") (auto simp: outgoing_def n1_def)
    obtain n2 where n2: "flush_client_write_buffer os ?fd n1 = Some n2" "clients_ok n2" "flushed sent_on ?fd n1 n2"
      using flush_correct [OF os n1(1)] n1(2) by blast
    obtain n' where n': "deliver os rs n2 = Some n'" "clients_ok n'"
      "\<forall>fd. outgoing sent_on fd n' \<in> {map_option (\<lambda>s. s @ payload_for fd rs) (outgoing sent_on fd n2), None}"
      using Cons.IH [OF n2(2)] by blast
    have run: "deliver os (r # rs) n = Some n'"
      using Some n2(1) n'(1) by (simp add: update_client_def n1_def)
    have "outgoing sent_on fd n' \<in>
        {map_option (\<lambda>s. s @ payload_for fd (r # rs)) (outgoing sent_on fd n), None}" for fd
    proof (cases "fd = ?fd")
      case True
      then have "outgoing sent_on fd n2 \<in> {outgoing sent_on fd n1, None}"
        using n2(3) by (simp add: flushed_def)
      with n'(3) [rule_format, of fd] out1 [of fd] True show ?thesis
        by (cases "outgoing sent_on fd n") (auto simp: payload_for_def)
    next
      case False
      then have "outgoing sent_on fd n2 = outgoing sent_on fd n1"
        using n2(3) by (simp add: flushed_def)
      with n'(3) [rule_format, of fd] out1 [of fd] False show ?thesis
        by (cases "outgoing sent_on fd n") (auto simp: payload_for_def)
    qed
    with run n'(2) show ?thesis by blast
  qed
qed

section \<open>The line loop\<close>

lemma run_gateway_append:
  "run_gateway os (xs @ ys) g = do { g \<leftarrow> run_gateway os xs g; run_gateway os ys g }"
  by (induction os xs g rule: run_gateway.induct) (auto split: bind_splits)

lemma parse_line_type: "command_type (parse_line t line) = command_type (parse_line 0 line)"
  by (simp add: parse_line_def Let_def split: option.split)

text \<open>The commands pushed for some lines: one for each line that is not empty.\<close>

definition spoken :: "fd \<Rightarrow> ingress_message list \<Rightarrow> string list \<Rightarrow> bool" where
  "spoken fd ms ls \<longleftrightarrow>
     list_all2 (\<lambda>m l. im_client_fd m = fd \<and> (\<exists>t. im_command m = parse_line t l)) ms (filter (\<lambda>l. l \<noteq> []) ls)"

definition acceptable_line :: "string \<Rightarrow> bool" where
  "acceptable_line line \<longleftrightarrow> line = [] \<or> command_type (parse_line 0 line) \<noteq> Unknown"

lemma one_line:
  assumes at: "net_at g = Net_lines fd" and c: "map_of (clients (net g)) fd = Some c"
    and l: "next_line (read_buffer c) = Some (line, len)" "acceptable_line line"
    and q: "spsc_inv (ingress_queue g)" "fill (ingress_queue g) < unat (q_capacity (ingress_queue g))"
  shows "\<exists>k g' c' ms. run_gateway os (replicate k (Network Ev_leave)) g = Some g'
    \<and> net_at g' = Net_lines fd \<and> map_of (clients (net g')) fd = Some c'
    \<and> read_buffer c' = drop len (read_buffer c) \<and> conn_fd c' = conn_fd c
    \<and> spsc_inv (ingress_queue g') \<and> q_capacity (ingress_queue g') = q_capacity (ingress_queue g)
    \<and> contents (ingress_queue g') = contents (ingress_queue g) @ ms \<and> accepted g' = accepted g @ ms
    \<and> spoken (conn_fd c) ms [line]"
proof (cases "line = []")
  case True
  define c' where "c' = c\<lparr>read_buffer := drop len (read_buffer c)\<rparr>"
  define g' where "g' = g\<lparr>net := (net g)\<lparr>clients := AList.update fd c' (clients (net g))\<rparr>\<rparr>"
  have "net_step os 64 Ev_leave g = Some g'"
    using at c l True by (simp add: net_step_def process_client_line_def update_client_def g'_def c'_def)
  then have "run_gateway os (replicate 1 (Network Ev_leave)) g = Some g'" by simp
  moreover have "spoken (conn_fd c) [] [line]" by (simp add: spoken_def True)
  ultimately show ?thesis
    using at q by (intro exI [of _ 1] exI [of _ g'] exI [of _ c'] exI [of _ "[]"]) (simp add: g'_def c'_def)
next
  case False
  obtain t e where clock: "os_clock os (env (net g)) = (t, e)" by (cases "os_clock os (env (net g))")
  have known: "command_type (parse_line t line) \<noteq> Unknown"
    using l(2) False parse_line_type [of t line] by (simp add: acceptable_line_def)
  define n1 where "n1 = (if command_type (parse_line t line) = New then (net g)\<lparr>env := e\<rparr> else net g)"
  obtain t2 e2 where clock2: "os_clock os (env n1) = (t2, e2)" by (cases "os_clock os (env n1)")
  have n1: "clients n1 = clients (net g)" by (simp add: n1_def)
  define m where "m = \<lparr>im_sequence = next_sequence g, im_client_fd = conn_fd c, im_timestamp = t2,
    im_command = parse_line t line\<rparr>"
  define g1 where "g1 = g\<lparr>net := n1\<lparr>env := e2\<rparr>, next_sequence := next_sequence g + 1, net_at := Net_push fd len m\<rparr>"
  have p: "process_client_line os fd line (net g) (next_sequence g)
      = Some (n1\<lparr>env := e2\<rparr>, next_sequence g + 1, Some m)"
    using False known c n1
    by (simp add: process_client_line_def Let_def clock n1_def [symmetric] clock2 m_def)
  have s1: "net_step os 64 Ev_leave g = Some g1"
    using at c l(1) p by (simp add: net_step_def g1_def)
  obtain q1 where q1: "push m (ingress_queue g) = (True, q1)" "spsc_inv q1"
    "contents q1 = contents (ingress_queue g) @ [m]" "q_capacity q1 = q_capacity (ingress_queue g)"
    using push_accepts [OF q] by blast
  define c' where "c' = c\<lparr>read_buffer := drop len (read_buffer c)\<rparr>"
  define g' where "g' = g1\<lparr>net := (net g1)\<lparr>clients := AList.update fd c' (clients (net g1))\<rparr>,
    ingress_queue := q1, net_at := Net_lines fd, accepted := accepted g1 @ [m]\<rparr>"
  have "net_step os 64 Ev_leave g1 = Some g'"
    using c n1 q1(1) by (simp add: net_step_def update_client_def g1_def g'_def c'_def)
  with s1 have "run_gateway os (replicate 2 (Network Ev_leave)) g = Some g'"
    by (simp add: numeral_2_eq_2)
  moreover have "spoken (conn_fd c) [m] [line]" using False by (auto simp: spoken_def m_def)
  ultimately show ?thesis
    using q1 by (intro exI [of _ 2] exI [of _ g'] exI [of _ c'] exI [of _ "[m]"]) (simp add: g'_def c'_def g1_def)
qed

lemma spoken_append: "spoken fd ms ls \<Longrightarrow> spoken fd ms' ls' \<Longrightarrow> spoken fd (ms @ ms') (ls @ ls')"
  by (simp add: spoken_def list_all2_appendI)

lemma line_loop:
  assumes "net_at g = Net_lines fd" "map_of (clients (net g)) fd = Some c" "read_buffer c = s"
    and "take_lines s = (ls, rest)" "\<forall>l \<in> set ls. acceptable_line l"
    and "spsc_inv (ingress_queue g)" "fill (ingress_queue g) + length ls \<le> unat (q_capacity (ingress_queue g))"
  shows "\<exists>k g' c' ms. run_gateway os (replicate k (Network Ev_leave)) g = Some g'
    \<and> net_at g' = Net_poll \<and> map_of (clients (net g')) fd = Some c' \<and> read_buffer c' = rest
    \<and> contents (ingress_queue g') = contents (ingress_queue g) @ ms \<and> accepted g' = accepted g @ ms
    \<and> spoken (conn_fd c) ms ls"
  using assms
proof (induction s arbitrary: g c ls rule: line_induct)
  case (partial s)
  have "net_step os 64 Ev_leave g = Some (g\<lparr>net_at := Net_poll\<rparr>)"
    using partial by (simp add: net_step_def next_line_None [THEN iffD2])
  then have "run_gateway os (replicate 1 (Network Ev_leave)) g = Some (g\<lparr>net_at := Net_poll\<rparr>)" by simp
  moreover have "ls = []" "rest = s" using partial by (simp_all add: take_lines_None)
  ultimately show ?case using partial
    by (intro exI [of _ 1] exI [of _ "g\<lparr>net_at := Net_poll\<rparr>"] exI [of _ c] exI [of _ "[]"])
      (simp add: spoken_def)
next
  case (line l s)
  obtain ls1 where t: "take_lines s = (ls1, rest)" "ls = chomp l # ls1"
    using line.prems(4) line.hyps by (auto simp: take_lines_line split: prod.splits)
  have nl: "next_line (read_buffer c) = Some (chomp l, Suc (length l))"
    using line.prems(3) line.hyps by (simp add: next_line_append)
  obtain k g1 c1 ms where g1: "run_gateway os (replicate k (Network Ev_leave)) g = Some g1"
    "net_at g1 = Net_lines fd" "map_of (clients (net g1)) fd = Some c1"
    "read_buffer c1 = drop (Suc (length l)) (read_buffer c)" "conn_fd c1 = conn_fd c"
    "spsc_inv (ingress_queue g1)" "q_capacity (ingress_queue g1) = q_capacity (ingress_queue g)"
    "contents (ingress_queue g1) = contents (ingress_queue g) @ ms" "accepted g1 = accepted g @ ms"
    "spoken (conn_fd c) ms [chomp l]"
    using one_line [OF line.prems(1,2) nl _ line.prems(6), of os] line.prems(5,7) t by auto
  have "length ms \<le> 1"
    using g1(10) by (auto simp: spoken_def list_all2_conv_all_nth split: if_splits)
  then have room: "fill (ingress_queue g1) + length ls1 \<le> unat (q_capacity (ingress_queue g1))"
    using line.prems(7) t(2) arg_cong [OF g1(8), of length] g1(7) by simp
  obtain k2 g2 c2 ms2 where g2: "run_gateway os (replicate k2 (Network Ev_leave)) g1 = Some g2"
    "net_at g2 = Net_poll" "map_of (clients (net g2)) fd = Some c2" "read_buffer c2 = rest"
    "contents (ingress_queue g2) = contents (ingress_queue g1) @ ms2" "accepted g2 = accepted g1 @ ms2"
    "spoken (conn_fd c1) ms2 ls1"
    using line.IH [OF g1(2,3) _ t(1) _ g1(6) room] line.prems(3,5) g1(4) t(2) by auto
  have "run_gateway os (replicate (k + k2) (Network Ev_leave)) g = Some g2"
    using g1(1) g2(1) by (simp add: replicate_add run_gateway_append)
  moreover have "spoken (conn_fd c) (ms @ ms2) ls"
    using spoken_append [OF g1(10), of ms2 ls1] g2(7) g1(5) t(2) by simp
  ultimately show ?case
    using g2 g1(8,9) by (intro exI [of _ "k + k2"] exI [of _ g2] exI [of _ c2] exI [of _ "ms @ ms2"]) simp
qed

end
