(* ===== verification/Gateway_Script.thy ===== *)
theory Gateway_Script
  imports Gateway_Network
begin

text \<open>
  A scripted environment for the gateway's sample runs: the arguments that stand for the
  operating system, instantiated by concrete functions that satisfy \<open>writes_append\<close>.
\<close>

section \<open>The environment\<close>

text \<open>
  Connections and reads come from a script; writes transfer at most five bytes at a time and are
  recorded; the clock ticks.
\<close>

record script =
  arrivals :: "fd list"
  reads :: "read_result list"
  sent_log :: "(fd \<times> string) list"
  ticks :: timestamp

definition script_os :: "script os" where
  "script_os =
     \<lparr>os_read = (\<lambda>fd e. case reads e of [] \<Rightarrow> (Read_again, e) | r # rs \<Rightarrow> (r, e\<lparr>reads := rs\<rparr>)),
      os_write = (\<lambda>fd data e. (Wrote (min 5 (length data)), e\<lparr>sent_log := sent_log e @ [(fd, take 5 data)]\<rparr>)),
      os_close = (\<lambda>fd e. e),
      os_accept = (\<lambda>e. case arrivals e of [] \<Rightarrow> (None, e) | fd # fds \<Rightarrow> (Some fd, e\<lparr>arrivals := fds\<rparr>)),
      os_clock = (\<lambda>e. (ticks e, e\<lparr>ticks := ticks e + 1\<rparr>)),
      os_calls = no_options, os_epoll_add = (\<lambda>fd e. e)\<rparr>"

definition sent_to :: "fd \<Rightarrow> script \<Rightarrow> string" where
  "sent_to fd e = concat (map snd (filter (\<lambda>(fd', _). fd' = fd) (sent_log e)))"

text \<open>The same with a peer that has reset its connections.\<close>

definition reset_os :: "script os" where
  "reset_os = script_os\<lparr>os_write := (\<lambda>fd data e. (Write_error, e))\<rparr>"

lemma script_os_writes: "writes_append script_os sent_to"
  by (auto simp: writes_append_def script_os_def sent_to_def min_def)

definition demo_script :: "string list \<Rightarrow> script" where
  "demo_script chunks = \<lparr>arrivals = [5], reads = map Read_bytes chunks, sent_log = [], ticks = 7\<rparr>"

definition demo_run :: "string list \<Rightarrow> u64 \<Rightarrow> schedule_item list \<Rightarrow> script gateway option" where
  "demo_run chunks queue_capacity sch =
     do { g \<leftarrow> gateway_new (demo_script chunks) queue_capacity (pool_new 2);
          run_gateway script_os (Network Ev_accept # Network (Ev_readable 5) # sch) g }"

definition demo_chunks :: "string list" where
  "demo_chunks = [''NEW SELL 1 100 5'' @ [newline] @ ''NEW BU'', ''Y 2 100 3'' @ [newline]]"

definition demo_schedule :: "schedule_item list" where
  "demo_schedule = replicate 4 (Network Ev_leave) @ replicate 5 Matching @ [Network Ev_leave, Network Ev_drain]"

lemma demo_run_reaches:
  assumes "demo_run chunks queue_capacity sch = Some g"
  shows "\<exists>g0. gateway_new (demo_script chunks) queue_capacity (pool_new 2) = Some g0
    \<and> (gateway_step script_os)\<^sup>*\<^sup>* g0 g"
proof -
  obtain g0 where "gateway_new (demo_script chunks) queue_capacity (pool_new 2) = Some g0"
    "run_gateway script_os (Network Ev_accept # Network (Ev_readable 5) # sch) g0 = Some g"
    using assms unfolding demo_run_def bind_eq_Some_conv by blast
  with run_gateway_steps show ?thesis by blast
qed

lemma mapped_Some: "map_option f x = Some y \<Longrightarrow> \<exists>z. x = Some z \<and> f z = y"
  by auto

end
