(* ===== verification/Gateway_Properties.thy ===== *)
theory Gateway_Properties
  imports Gateway_Refinement Gateway_Script
begin

text \<open>
  The properties of the gateway: what its clients are promised whatever the interleaving of the
  two threads, what reaches the sockets, and the places where the code falls short.
\<close>

section \<open>What the clients are promised\<close>

text \<open>Serializability. In every state reachable from a new gateway, however the network
  thread, the matching thread and the shutdown signal interleave, the commands executed are a
  prefix of those accepted, the responses drained, queued and about to be queued are those of the
  sequential server, one for each executed command, and the pool's book is the price-time book
  that server ends with; the matching thread never runs into undefined behaviour. The bound
  of \<open>2 ^ 31\<close> accepted commands keeps the pool's 32-bit indices apart.\<close>

theorem gateway_serializable:
  assumes "gateway_new e queue_capacity (pool_new initial_capacity) = Some g0"
    and "initial_capacity < 2 ^ 32" "unat queue_capacity \<le> 2 ^ 63"
    and "(gateway_step os)\<^sup>*\<^sup>* g0 g" "length (accepted g) \<le> 2 ^ 31"
  shows "spec_serve (executed g) lob_empty
      = (drained g @ contents (response_queue g) @ unsent (match_at g), pool_abs (order_book g))
    \<and> accepted g = executed g @ in_hand (match_at g) @ contents (ingress_queue g)
    \<and> pool_inv (order_book g) \<and> match_step v g \<noteq> None"
proof -
  have "gateway_inv g"
    using gateway_reachable_inv [OF assms(4) gateway_new_inv [OF assms(1-3)] assms(5)] .
  moreover from this obtain g' where "match_step v g = Some g'"
    using match_step_inv assms(5) by blast
  ultimately show ?thesis
    unfolding gateway_inv_def served_def by (metis append_assoc option.distinct(1))
qed

theorem gateway_serializable_witness:
  "\<exists>g. demo_run demo_chunks 4 demo_schedule = Some g
    \<and> map rm_payload (fst (spec_serve (executed g) lob_empty))
      = [''ACK 1 5'' @ [newline], ''TRADE 1 2 100 3 BUY'' @ [newline]]"
proof -
  have "map_option (\<lambda>g. (map rm_payload (drained g), length (accepted g),
        contents (response_queue g), unsent (match_at g))) (demo_run demo_chunks 4 demo_schedule)
    = Some ([''ACK 1 5'' @ [newline], ''TRADE 1 2 100 3 BUY'' @ [newline]], 2, [], [])"
    by code_simp
  then obtain g where g: "demo_run demo_chunks 4 demo_schedule = Some g" "length (accepted g) = 2"
    "map rm_payload (drained g) = [''ACK 1 5'' @ [newline], ''TRADE 1 2 100 3 BUY'' @ [newline]]"
    "contents (response_queue g) = []" "unsent (match_at g) = []"
    using mapped_Some by fastforce
  obtain g0 where g0: "gateway_new (demo_script demo_chunks) 4 (pool_new 2) = Some g0"
    "(gateway_step script_os)\<^sup>*\<^sup>* g0 g"
    using demo_run_reaches [OF g(1)] by blast
  from gateway_serializable [OF g0(1) _ _ g0(2)] g show ?thesis by simp
qed

text \<open>C15. Sequence numbers. The commands accepted are numbered 1, 2, 3 and on, in the order they
  were accepted, and the responses drained carry those numbers and the descriptors of their
  commands, in the same order without a gap; the count of processed orders is that of the
  responses queued.\<close>

theorem gateway_in_order:
  assumes "gateway_new e queue_capacity (pool_new initial_capacity) = Some g0"
    and "initial_capacity < 2 ^ 32" "unat queue_capacity \<le> 2 ^ 63"
    and "(gateway_step os)\<^sup>*\<^sup>* g0 g" "length (accepted g) \<le> 2 ^ 31"
  shows "map im_sequence (accepted g) = map word_of_nat [1..<Suc (length (accepted g))]
    \<and> map rm_sequence (drained g) = map word_of_nat [1..<Suc (length (drained g))]
    \<and> map rm_client_fd (drained g) = take (length (drained g)) (map im_client_fd (accepted g))
    \<and> processed_orders g = word_of_nat (length (drained g) + fill (response_queue g))"
proof -
  have inv: "gateway_inv g"
    using gateway_reachable_inv [OF assms(4) gateway_new_inv [OF assms(1-3)] assms(5)] .
  define n where "n = length (drained g)"
  have numbers: "map im_sequence (accepted g) = map word_of_nat [1..<Suc (length (accepted g))]"
  proof -
    let ?n = "length (accepted g)" and ?p = "length (pushing (net_at g))"
    have "map im_sequence (accepted g) @ map im_sequence (pushing (net_at g))
        = map word_of_nat [1..<Suc (?n + ?p)]"
      using inv by (simp add: gateway_inv_def numbered_def numbered_log_def)
    also have "[1..<Suc (?n + ?p)] = [1..<Suc ?n] @ [Suc ?n..<Suc (?n + ?p)]"
      using upt_add_eq_append [of 1 "Suc ?n" ?p] by simp
    finally show ?thesis by (simp del: upt_Suc)
  qed
  have answered: "answered g = drained g @ contents (response_queue g)"
    using inv by (simp add: gateway_inv_def)
  have "spec_serve (executed g) lob_empty = (answered g @ unsent (match_at g), pool_abs (order_book g))"
    using inv by (simp add: gateway_inv_def served_def)
  note responses = spec_serve_sequences [OF this]
  have served: "map rm_sequence (answered g @ unsent (match_at g)) = map im_sequence (executed g)"
    "map rm_client_fd (answered g @ unsent (match_at g)) = map im_client_fd (executed g)"
    using responses by blast+
  have log: "accepted g = executed g @ in_hand (match_at g) @ contents (ingress_queue g)"
    using inv by (simp add: gateway_inv_def)
  have len: "n \<le> length (executed g)"
    using arg_cong [OF served(1), of length] answered by (simp add: n_def)
  have "map rm_sequence (drained g) = take n (map im_sequence (accepted g))"
    using arg_cong [OF served(1), of "take n"] answered log len by (simp add: n_def)
  moreover have "map rm_client_fd (drained g) = take n (map im_client_fd (accepted g))"
    using arg_cong [OF served(2), of "take n"] answered log len by (simp add: n_def)
  moreover have "take n [1..<Suc (length (accepted g))] = [1..<Suc n]"
    using len log by (subst take_upt) simp_all
  ultimately show ?thesis
    using numbers inv answered by (simp add: n_def take_map gateway_inv_def served_def)
qed

theorem gateway_in_order_witness:
  "\<exists>g. demo_run demo_chunks 4 demo_schedule = Some g \<and> map im_sequence (accepted g) = [1, 2]"
proof -
  have "map_option (\<lambda>g. length (accepted g)) (demo_run demo_chunks 4 demo_schedule) = Some 2"
    by code_simp
  then obtain g where g: "demo_run demo_chunks 4 demo_schedule = Some g" "length (accepted g) = 2"
    using mapped_Some by fastforce
  obtain g0 where g0: "gateway_new (demo_script demo_chunks) 4 (pool_new 2) = Some g0"
    "(gateway_step script_os)\<^sup>*\<^sup>* g0 g"
    using demo_run_reaches [OF g(1)] by blast
  have "map word_of_nat [1..<Suc 2] = [1, 2 :: u64]" by code_simp
  with gateway_in_order [OF g0(1) _ _ g0(2)] g show ?thesis by simp
qed

text \<open>C28. Liveness. As long as the response queue has room for what is accepted and not yet
  answered, the matching thread alone catches up in finitely many steps: every accepted command
  is executed and answered.\<close>

theorem gateway_catches_up:
  assumes "gateway_new e queue_capacity (pool_new initial_capacity) = Some g0"
    and "initial_capacity < 2 ^ 32" "unat queue_capacity \<le> 2 ^ 63"
    and "(gateway_step os)\<^sup>*\<^sup>* g0 g" "length (accepted g) \<le> 2 ^ 31" "match_at g \<noteq> Match_done"
    and "length (accepted g) - length (drained g) \<le> unat (q_capacity (response_queue g))"
  shows "\<exists>k g'. run_gateway os (replicate k Matching) g = Some g' \<and> accepted g' = accepted g
    \<and> executed g' = accepted g \<and> length (answered g') = length (accepted g)"
proof -
  have inv: "gateway_inv g"
    using gateway_reachable_inv [OF assms(4) gateway_new_inv [OF assms(1-3)] assms(5)] .
  have "length (answered g) + length (unsent (match_at g)) = length (executed g)"
    using inv spec_serve_sequences [of "executed g" lob_empty] map_eq_imp_length_eq
    by (fastforce simp: gateway_inv_def served_def)
  moreover have "length (accepted g) = length (executed g) + length (in_hand (match_at g)) + fill (ingress_queue g)"
    "length (answered g) = length (drained g) + fill (response_queue g)"
    using inv by (auto simp: gateway_inv_def dest!: arg_cong [of _ _ length])
  ultimately have "has_room g" using assms(7) by (simp add: has_room_def backlog_def)
  from catch_up [OF inv assms(5) this assms(6)] show ?thesis by blast
qed

theorem gateway_catches_up_witness:
  "\<exists>g k g'. demo_run demo_chunks 4 (replicate 4 (Network Ev_leave)) = Some g \<and> length (accepted g) = 2
    \<and> executed g = [] \<and> run_gateway script_os (replicate k Matching) g = Some g' \<and> length (executed g') = 2"
proof -
  have "map_option (\<lambda>g. (length (accepted g), executed g, match_at g = Match_done, q_capacity (response_queue g)))
      (demo_run demo_chunks 4 (replicate 4 (Network Ev_leave))) = Some (2, [], False, 4)"
    by code_simp
  then obtain g where g: "demo_run demo_chunks 4 (replicate 4 (Network Ev_leave)) = Some g"
    "length (accepted g) = 2" "executed g = []" "match_at g \<noteq> Match_done" "q_capacity (response_queue g) = 4"
    using mapped_Some by fastforce
  obtain g0 where g0: "gateway_new (demo_script demo_chunks) 4 (pool_new 2) = Some g0"
    "(gateway_step script_os)\<^sup>*\<^sup>* g0 g"
    using demo_run_reaches [OF g(1)] by blast
  from gateway_catches_up [OF g0(1) _ _ g0(2)] g show ?thesis by fastforce
qed

section \<open>Commands\<close>

text \<open>One command. On a well-formed book with room for one more order, executing a parsed
  command returns, and never with an empty reply; the reply and the new book are the ones the
  price-time specification gives.\<close>

theorem execute_command_correct:
  assumes "pool_inv b" "pool_total_orders b < 2 ^ 31" "command_type (im_command msg) \<noteq> Unknown"
  shows "case execute_command msg b of
      None \<Rightarrow> False
    | Some (reply, b') \<Rightarrow> reply \<noteq> [] \<and> pool_inv b' \<and> spec_execute (im_command msg) (pool_abs b) = (reply, pool_abs b')"
proof -
  obtain reply bk' where spec: "spec_execute (im_command msg) (pool_abs b) = (reply, bk')"
    by (cases "spec_execute (im_command msg) (pool_abs b)")
  have "reply \<noteq> []" using reply_nonempty [OF assms(3), of "pool_abs b"] spec by simp
  with execute_refines [OF assms(1,2) spec] spec show ?thesis by auto
qed

theorem execute_command_correct_witness:
  "\<exists>b'. execute_command (default_ingress\<lparr>im_command := parse_line 0 ''CANCEL 9''\<rparr>) (pool_new 2)
      = Some (''REJECT 9 ORDER_NOT_FOUND'' @ [newline], b') \<and> pool_inv b'"
proof -
  let ?msg = "default_ingress\<lparr>im_command := parse_line 0 ''CANCEL 9''\<rparr>"
  have "command_type (im_command ?msg) \<noteq> Unknown"
    "map_option fst (execute_command ?msg (pool_new 2)) = Some (''REJECT 9 ORDER_NOT_FOUND'' @ [newline])"
    by code_simp+
  moreover have "pool_total_orders (pool_new 2) = 0" by (simp add: pool_total_orders_def pool_new_def)
  moreover have "pool_inv (pool_new 2)" by (rule pool_new_correct) simp
  ultimately show ?thesis
    using execute_command_correct [of "pool_new 2" ?msg] by (auto split: option.splits prod.splits)
qed

section \<open>Bytes in, bytes out\<close>



text \<open>C30. Every well-formed line is accepted. When the ingress queue has room for the complete lines
  of a connection's buffer and each is empty or a valid command, the network thread's line loop
  ends by itself: the commands spelled by the non-empty lines are appended to the ingress queue in
  order, with the connection's descriptor, and the incomplete rest stays in the buffer.\<close>

theorem line_loop_accepts:
  assumes "net_at g = Net_lines fd" "map_of (clients (net g)) fd = Some c"
    and "take_lines (read_buffer c) = (ls, rest)" "\<forall>l \<in> set ls. acceptable_line l"
    and "spsc_inv (ingress_queue g)"
    and "length (contents (ingress_queue g)) + length ls \<le> unat (q_capacity (ingress_queue g))"
  shows "\<exists>k g' c' ms. run_gateway os (replicate k (Network Ev_leave)) g = Some g' \<and> net_at g' = Net_poll
    \<and> map_of (clients (net g')) fd = Some c' \<and> read_buffer c' = rest
    \<and> contents (ingress_queue g') = contents (ingress_queue g) @ ms \<and> accepted g' = accepted g @ ms
    \<and> spoken (conn_fd c) ms ls"
  using line_loop [OF assms(1,2) refl assms(3-5), of os] assms(6) by simp

theorem line_loop_accepts_witness:
  "\<exists>g k g'. demo_run demo_chunks 4 [] = Some g \<and> net_at g = Net_lines 5
    \<and> run_gateway script_os (replicate k (Network Ev_leave)) g = Some g' \<and> net_at g' = Net_poll
    \<and> length (accepted g') = 2"
proof -
  have "map_option (\<lambda>g. (net_at g, map_of (clients (net g)) 5, q_capacity (ingress_queue g),
        contents (ingress_queue g), accepted g)) (demo_run demo_chunks 4 [])
    = Some (Net_lines 5, Some \<lparr>conn_fd = 5, read_buffer = concat demo_chunks, write_buffer = ''''\<rparr>, 4, [], [])"
    by code_simp
  then obtain g where g: "demo_run demo_chunks 4 [] = Some g" "net_at g = Net_lines 5"
    "map_of (clients (net g)) 5 = Some \<lparr>conn_fd = 5, read_buffer = concat demo_chunks, write_buffer = ''''\<rparr>"
    "q_capacity (ingress_queue g) = 4" "contents (ingress_queue g) = []" "accepted g = []"
    using mapped_Some by fastforce
  obtain g0 where g0: "gateway_new (demo_script demo_chunks) 4 (pool_new 2) = Some g0"
    "(gateway_step script_os)\<^sup>*\<^sup>* g0 g"
    using demo_run_reaches [OF g(1)] by blast
  have "gateway_inv g0" by (rule gateway_new_inv [OF g0(1)]) simp_all
  then have inv: "spsc_inv (ingress_queue g)"
    using gateway_reachable_inv [OF g0(2)] g(6) by (simp add: gateway_inv_def)
  have t: "take_lines (concat demo_chunks) = ([''NEW SELL 1 100 5'', ''NEW BUY 2 100 3''], [])"
    by code_simp
  have l: "acceptable_line ''NEW SELL 1 100 5''" "acceptable_line ''NEW BUY 2 100 3''"
    by code_simp+
  have spoken2: "length ms = 2" if "spoken fd ms [''NEW SELL 1 100 5'', ''NEW BUY 2 100 3'']" for fd ms
    using list_all2_lengthD [OF that [unfolded spoken_def]] by simp
  from line_loop_accepts [OF g(2,3) _ _ inv, of _ _ script_os] t l g show ?thesis
    by (fastforce dest: spoken2)
qed

text \<open>Responses reach their sockets in order. On sockets that send what they say they send,
  delivering a batch always returns, and for each descriptor whose connection is still open
  afterwards, the bytes sent and the bytes buffered are those there were before followed by the
  payloads for that descriptor, in the order of the batch; nothing is dropped, repeated or
  sent to another connection.\<close>

theorem deliver_in_order:
  assumes "writes_append os sent_on" "clients_ok n"
  shows "case deliver os responses n of
      None \<Rightarrow> False
    | Some n' \<Rightarrow> clients_ok n' \<and> (case outgoing sent_on fd n' of
        None \<Rightarrow> True
      | Some bytes \<Rightarrow> Some bytes = map_option (\<lambda>s. s @ payload_for fd responses) (outgoing sent_on fd n))"
proof -
  obtain n' where n': "deliver os responses n = Some n'" "clients_ok n'"
    "outgoing sent_on fd n' \<in> {map_option (\<lambda>s. s @ payload_for fd responses) (outgoing sent_on fd n), None}"
    using deliver_correct [OF assms, of responses] by blast
  then show ?thesis by (auto split: option.split)
qed

definition two_clients :: "script net_state" where
  "two_clients = \<lparr>env = demo_script [],
     clients = [(5, \<lparr>conn_fd = 5, read_buffer = '''', write_buffer = ''''\<rparr>),
                (6, \<lparr>conn_fd = 6, read_buffer = '''', write_buffer = ''''\<rparr>)]\<rparr>"

definition three_responses :: "response_message list" where
  "three_responses = [\<lparr>rm_client_fd = 5, rm_sequence = 1, rm_payload = ''ACK 1 5''\<rparr>,
     \<lparr>rm_client_fd = 6, rm_sequence = 2, rm_payload = ''ACK 2 7''\<rparr>,
     \<lparr>rm_client_fd = 5, rm_sequence = 3, rm_payload = ''CANCELED 1''\<rparr>]"

theorem deliver_in_order_witness:
  "case deliver script_os three_responses two_clients of
      None \<Rightarrow> False
    | Some n' \<Rightarrow> sent_to 5 (env n') = ''ACK 1 5CANCELED 1'' \<and> clients_ok n'"
proof -
  have ok: "clients_ok two_clients" by (auto simp: clients_ok_def two_clients_def split: if_splits)
  have "map_option (\<lambda>n. sent_to 5 (env n)) (deliver script_os three_responses two_clients)
    = Some ''ACK 1 5CANCELED 1''" by code_simp
  with deliver_in_order [OF script_os_writes ok, where responses = three_responses and fd = 5] show ?thesis
    by (auto split: option.splits)
qed

end
