(* ===== verification/Gateway_Hazards.thy ===== *)
theory Gateway_Hazards
  imports Gateway_Refinement Gateway_Script
begin

text \<open>
  Where the gateway falls short of its promises: two threads that wait for each other's queue,
  a reference used after its connection was closed, lines dropped at the end of a stream,
  commands accepted after the matching thread has left, and replies that reach a stranger.
\<close>

section \<open>Two full queues\<close>

text \<open>C31. Deadlock. The network thread pushes a command without draining responses, and the
  matching thread pushes a response without taking commands. Once each waits on a full queue no
  step of either thread changes the state again, for any events: the only thing that can
  still happen is the stop request, and it does not release them.\<close>

theorem full_queues_deadlock:
  assumes "net_at g = Net_push fd len msg" "match_at g = Match_push resp batch"
    and "\<not> fst (push msg (ingress_queue g))" "\<not> fst (push resp (response_queue g))"
    and "(gateway_step os)\<^sup>*\<^sup>* g g'"
  shows "g' = g \<or> g' = stop g"
  using assms(5)
proof (induction rule: rtranclp_induct)
  case (step y z)
  have net: "net_step os v ev x = Some x'" if "x \<in> {g, stop g}" "x' = x" for v ev x x'
    using that assms(1,3) by (cases "push msg (ingress_queue g)") (auto simp: net_step_def stop_def)
  have match: "match_step v x = Some x'" if "x \<in> {g, stop g}" "x' = x" for v x x'
    using that assms(2,4) by (cases "push resp (response_queue g)") (auto simp: match_step_def stop_def)
  have "stop (stop g) = stop g" by (simp add: stop_def)
  with step net match show ?case by (auto elim!: gateway_stepE)
qed simp

definition flushes :: "nat \<Rightarrow> string" where
  "flushes n = concat (replicate n (''FLUSH'' @ [newline]))"

definition flood_schedule :: "schedule_item list" where
  "flood_schedule = concat (replicate 4 [Network Ev_leave, Network Ev_leave, Matching, Matching, Matching])"

text \<open>Four commands in one read are enough when both queues have one place.\<close>

theorem full_queues_deadlock_witness:
  "\<exists>g0 g. gateway_new (demo_script [flushes 4]) 1 (pool_new 2) = Some g0
    \<and> (gateway_step script_os)\<^sup>*\<^sup>* g0 g \<and> length (accepted g) = 3 \<and> length (drained g) = 0
    \<and> (\<forall>g'. (gateway_step script_os)\<^sup>*\<^sup>* g g' \<longrightarrow> g' = g \<or> g' = stop g)"
proof -
  have "map_option (\<lambda>g. (length (accepted g), length (drained g),
      case net_at g of Net_push fd len msg \<Rightarrow> \<not> fst (push msg (ingress_queue g)) | _ \<Rightarrow> False,
      case match_at g of Match_push resp batch \<Rightarrow> \<not> fst (push resp (response_queue g)) | _ \<Rightarrow> False))
    (demo_run [flushes 4] 1 flood_schedule) = Some (3, 0, True, True)"
    by code_simp
  then obtain g where g: "demo_run [flushes 4] 1 flood_schedule = Some g"
    "length (accepted g) = 3" "length (drained g) = 0"
    "case net_at g of Net_push fd len msg \<Rightarrow> \<not> fst (push msg (ingress_queue g)) | _ \<Rightarrow> False"
    "case match_at g of Match_push resp batch \<Rightarrow> \<not> fst (push resp (response_queue g)) | _ \<Rightarrow> False"
    using mapped_Some by fastforce
  then obtain fd len msg resp batch where at: "net_at g = Net_push fd len msg"
    "match_at g = Match_push resp batch" "\<not> fst (push msg (ingress_queue g))"
    "\<not> fst (push resp (response_queue g))"
    by (auto split: net_pc.splits match_pc.splits)
  show ?thesis
    using demo_run_reaches [OF g(1)] full_queues_deadlock [OF at] g(2,3) by blast
qed

section \<open>A reference outlives its connection\<close>

text \<open>C32. Use after free. When a line is rejected and the write of the rejection fails (the peer has
  reset the connection), the flush closes the connection and erases its entry, and the line loop
  goes on with the reference to it: the step has no defined behaviour.\<close>

theorem failed_reject_is_undefined:
  assumes "net_at g = Net_lines fd" "map_of (clients (net g)) fd = Some c" "conn_fd c = fd"
    and "next_line (read_buffer c) = Some (line, len)" "line \<noteq> []"
    and "command_type (parse_line 0 line) = Unknown"
    and "\<And>data e. os_write os fd data e = (Write_error, e)"
  shows "net_step os v ev g = None"
proof -
  obtain t e where clock: "os_clock os (env (net g)) = (t, e)" by (cases "os_clock os (env (net g))")
  define c' where
    "c' = c\<lparr>write_buffer := format_reject 0 (error_msg (parse_line t line)) (write_buffer c)\<rparr>"
  define n where "n = (net g)\<lparr>clients := AList.update fd c' (clients (net g))\<rparr>"
  have "write_buffer c' \<noteq> []" by (simp add: c'_def format_reject_def)
  then have flush: "flush_client_write_buffer os fd n = Some (close_connection os fd n)"
    using assms(3,7) by (subst flush_client_write_buffer.simps) (simp add: n_def c'_def)
  have unknown: "command_type (parse_line t line) = Unknown"
    using assms(6) parse_line_type [of t line] by simp
  have "process_client_line os fd line (net g) (next_sequence g)
      = Some (close_connection os fd n, next_sequence g, None)"
    using assms(2,5) unknown flush
    by (simp add: process_client_line_def Let_def clock update_client_def n_def c'_def)
  moreover have "update_client fd f (close_connection os fd n) = None" for f
    by (simp add: update_client_def close_connection_def n_def)
  ultimately show ?thesis
    using assms(1,2,4) by (simp add: net_step_def)
qed

definition reset_gateway :: "script gateway option" where
  "reset_gateway =
     do { g \<leftarrow> gateway_new (demo_script [''HELLO'' @ [newline]]) 4 (pool_new 2);
          run_gateway reset_os [Network Ev_accept, Network (Ev_readable 5)] g }"

theorem failed_reject_is_undefined_witness:
  "\<exists>g. reset_gateway = Some g \<and> net_step reset_os 64 Ev_leave g = None"
proof -
  have "map_option (\<lambda>g. (net_at g, map_of (clients (net g)) 5)) reset_gateway
    = Some (Net_lines 5, Some \<lparr>conn_fd = 5, read_buffer = ''HELLO'' @ [newline], write_buffer = ''''\<rparr>)"
    by code_simp
  then obtain g where g: "reset_gateway = Some g" "net_at g = Net_lines 5"
    "map_of (clients (net g)) 5 = Some \<lparr>conn_fd = 5, read_buffer = ''HELLO'' @ [newline], write_buffer = ''''\<rparr>"
    using mapped_Some by fastforce
  have l: "next_line (''HELLO'' @ [newline]) = Some (''HELLO'', 6)"
    "command_type (parse_line 0 ''HELLO'') = Unknown" by code_simp+
  have "net_step reset_os 64 Ev_leave g = None"
    by (rule failed_reject_is_undefined [OF g(2,3)]) (use l in \<open>simp_all add: reset_os_def\<close>)
  with g(1) show ?thesis by blast
qed

section \<open>Lines before the end of a stream\<close>

text \<open>Lines before end of file. When a client's last bytes and its end of file are found in the
  same pass of the read loop, the connection is closed before any line is taken: whatever complete
  commands the bytes held, none is accepted, and the outcome is the same for all of them.\<close>

theorem eof_discards_lines:
  assumes "map_of (clients (net g)) fd = Some c"
    and "os_read os fd (env (net g)) = (Read_bytes bytes, e)" "os_read os fd e = (Read_eof, e')"
  shows "map_option (\<lambda>g'. (clients (net g'), env (net g'), accepted g', net_at g'))
      (handle_event os v (Ev_readable fd) g)
    = Some (AList.delete fd (clients (net g)), os_close os fd e', accepted g, Net_poll)"
proof -
  let ?c = "c\<lparr>read_buffer := read_buffer c @ bytes\<rparr>"
  have "AList.delete fd (AList.update fd ?c xs) = AList.delete fd xs"
    for xs :: "(fd \<times> client_connection) list"
    by (induction xs) auto
  then have "read_available os fd (net g) =
      Some ((net g)\<lparr>env := os_close os fd e', clients := AList.delete fd (clients (net g))\<rparr>, False)"
    using assms
    by (subst read_available.simps)
      (simp add: update_client_def close_connection_def read_available.simps)
  then show ?thesis using assms(1) by simp
qed

definition eof_gateway :: "script gateway option" where
  "eof_gateway =
     do { g \<leftarrow> gateway_new ((demo_script [])\<lparr>reads := [Read_bytes (flushes 2), Read_eof]\<rparr>) 4 (pool_new 2);
          run_gateway script_os [Network Ev_accept] g }"

theorem eof_discards_lines_witness:
  "\<exists>g g'. eof_gateway = Some g \<and> handle_event script_os 64 (Ev_readable 5) g = Some g'
    \<and> clients (net g') = [] \<and> accepted g' = []"
proof -
  let ?c = "\<lparr>conn_fd = 5, read_buffer = '''', write_buffer = ''''\<rparr>"
  let ?e = "\<lparr>arrivals = [], reads = [Read_bytes (flushes 2), Read_eof], sent_log = [], ticks = 7\<rparr>"
  have "map_option (\<lambda>g. (net g, accepted g)) eof_gateway = Some (\<lparr>env = ?e, clients = [(5, ?c)]\<rparr>, [])"
    by code_simp
  then obtain g where g: "eof_gateway = Some g" "net g = \<lparr>env = ?e, clients = [(5, ?c)]\<rparr>" "accepted g = []"
    using mapped_Some by fastforce
  have "map_of (clients (net g)) 5 = Some ?c"
    "os_read script_os 5 (env (net g)) = (Read_bytes (flushes 2), ?e\<lparr>reads := [Read_eof]\<rparr>)"
    "os_read script_os 5 (?e\<lparr>reads := [Read_eof]\<rparr>) = (Read_eof, ?e\<lparr>reads := []\<rparr>)"
    by (simp_all add: g script_os_def)
  from eof_discards_lines [OF this] g show ?thesis by auto
qed

section \<open>Shutdown\<close>



section \<open>A reused descriptor\<close>







end
