(* ===== verification/Pipeline_Benchmark.thy ===== *)
theory Pipeline_Benchmark
  imports Gateway Matching_Engine
begin

text \<open>
  The two-thread benchmarks of \<^verbatim>\<open>benchmarks/benchmark_spsc.cpp\<close>: an ingest thread that
  feeds the actions of a workload through the ring buffer to a matching thread. In the open loop
  the ingest thread only pushes; in the closed loop it keeps at most \<open>window\<close> commands
  unacknowledged and takes the completions from a second ring buffer. The threads interleave at
  their loop tests and queue calls; the clock reads of a step are its arguments, and so is the
  number \<open>v\<close> of elements that its load of tail, which may be stale, lets a pop see. The test of
  \<^verbatim>\<open>producer_done\<close> acquires, so the \<^verbatim>\<open>empty()\<close> after it is exact. Three
  ghost logs record the commands pushed and matched and the completions taken.
\<close>

section \<open>Messages\<close>

record completion =
  ingress_ts :: timestamp

definition default_completion :: completion where
  "default_completion = \<lparr>ingress_ts = 0\<rparr>"

definition action_command :: "order_action \<Rightarrow> parsed_command" where
  "action_command act =
     (if action_type act = NewOrder
      then default_command\<lparr>command_type := New, cmd_order := act_order act\<rparr>
      else default_command\<lparr>command_type := Cancel, cancel_id := act_cancel_id act\<rparr>)"

definition make_message :: "nat \<Rightarrow> order_action \<Rightarrow> timestamp \<Rightarrow> ingress_message" where
  "make_message index act ts =
     \<lparr>im_sequence = word_of_nat index + 1, im_client_fd = 1, im_timestamp = ts,
      im_command = action_command act\<rparr>"

text \<open>The benchmark drops the trades and the results.\<close>

definition bench_execute_command :: "pool_book \<Rightarrow> ingress_message \<Rightarrow> pool_book option" where
  "bench_execute_command book msg =
     (if command_type (im_command msg) = New then
        map_option (\<lambda>(_, _, b). b) (pool_submit_order (cmd_order (im_command msg)) [] book)
      else if command_type (im_command msg) = Cancel then
        map_option snd (pool_cancel_order (cancel_id (im_command msg)) book)
      else Some book)"

section \<open>State\<close>

datatype ingest_pc =
    Ingest_credit
  | Ingest_push ingress_message
  | Ingest_full
  | Ingest_drain
  | Ingest_done

datatype matcher_pc =
    Matcher_loop
  | Matcher_check
  | Matcher_pop
  | Matcher_batch "ingress_message list"
  | Matcher_push completion "ingress_message list"
  | Matcher_done

record pipeline =
  ring :: "ingress_message spsc_queue"
  completions :: "completion spsc_queue"
  producer_done :: bool
  bench_book :: pool_book
  index :: nat
  in_flight :: u64
  latencies_ns :: "u64 list"
  ingest_at :: ingest_pc
  matcher_at :: matcher_pc
  pushed :: "ingress_message list"
  matched :: "ingress_message list"
  acked :: "completion list"

definition bench_start :: "u64 \<Rightarrow> nat \<Rightarrow> pipeline option" where
  "bench_start queue_capacity initial_capacity =
     do {
       iq \<leftarrow> spsc_new default_ingress queue_capacity;
       cq \<leftarrow> spsc_new default_completion queue_capacity;
       Some \<lparr>ring = iq, completions = cq, producer_done = False, bench_book = pool_new initial_capacity,
         index = 0, in_flight = 0, latencies_ns = [], ingest_at = Ingest_credit,
         matcher_at = Matcher_loop, pushed = [], matched = [], acked = []\<rparr>
     }"

section \<open>The ingest threads\<close>

text \<open>\<^verbatim>\<open>drain_completions\<close> with the subtraction its callers make; \<open>t1\<close> is its clock read.\<close>

definition drain_completions :: "u64 \<Rightarrow> timestamp \<Rightarrow> pipeline \<Rightarrow> pipeline" where
  "drain_completions v t1 s =
     (let (batch, q) = pop_batch (min 64 v) (completions s)
      in s\<lparr>completions := q,
           latencies_ns := latencies_ns s @ map (\<lambda>c. t1 - ingress_ts c) (filter (\<lambda>c. t1 \<ge> ingress_ts c) batch),
           in_flight := in_flight s - word_of_nat (length batch),
           acked := acked s @ batch\<rparr>)"

definition ingest_push :: "ingress_message \<Rightarrow> pipeline \<Rightarrow> pipeline" where
  "ingest_push msg s =
     (case push msg (ring s) of
        (True, q) \<Rightarrow> s\<lparr>ring := q, in_flight := in_flight s + 1, index := index s + 1,
                       ingest_at := Ingest_credit, pushed := pushed s @ [msg]\<rparr>
      | (False, _) \<Rightarrow> s\<lparr>ingest_at := Ingest_full\<rparr>)"

text \<open>The closed loop; \<open>t1\<close> and \<open>t2\<close> are the clock reads of draining and of the message.\<close>

definition closed_ingest_step ::
    "order_action list \<Rightarrow> u64 \<Rightarrow> u64 \<Rightarrow> timestamp \<Rightarrow> timestamp \<Rightarrow> pipeline \<Rightarrow> pipeline" where
  "closed_ingest_step acts window v t1 t2 s =
     (case ingest_at s of
        Ingest_credit \<Rightarrow>
          if \<not> index s < length acts then s\<lparr>ingest_at := Ingest_drain\<rparr>
          else if in_flight s \<ge> window then drain_completions v t1 s
          else s\<lparr>ingest_at := Ingest_push (make_message (index s) (acts ! index s) t2)\<rparr>
      | Ingest_push msg \<Rightarrow> ingest_push msg s
      | Ingest_full \<Rightarrow>
          (drain_completions v t1 s)\<lparr>ingest_at := Ingest_push (make_message (index s) (acts ! index s) t2)\<rparr>
      | Ingest_drain \<Rightarrow>
          if in_flight s > 0 then drain_completions v t1 s
          else s\<lparr>producer_done := True, ingest_at := Ingest_done\<rparr>
      | Ingest_done \<Rightarrow> s)"

text \<open>The open loop keeps its message while the queue is full; nothing is counted in flight.\<close>

definition open_ingest_step :: "order_action list \<Rightarrow> pipeline \<Rightarrow> pipeline" where
  "open_ingest_step acts s =
     (case ingest_at s of
        Ingest_credit \<Rightarrow>
          if \<not> index s < length acts then s\<lparr>producer_done := True, ingest_at := Ingest_done\<rparr>
          else s\<lparr>ingest_at := Ingest_push (make_message (index s) (acts ! index s) 0)\<rparr>
      | Ingest_push msg \<Rightarrow>
          (case push msg (ring s) of
             (True, q) \<Rightarrow> s\<lparr>ring := q, index := index s + 1, ingest_at := Ingest_credit,
                            pushed := pushed s @ [msg]\<rparr>
           | (False, _) \<Rightarrow> s)
      | _ \<Rightarrow> s)"

section \<open>The matching thread\<close>

text \<open>Without completions in the open loop.\<close>

definition matcher_step :: "u64 \<Rightarrow> bool \<Rightarrow> u64 \<Rightarrow> pipeline \<Rightarrow> pipeline option" where
  "matcher_step v acks batch_size s =
     (case matcher_at s of
        Matcher_loop \<Rightarrow> Some (s\<lparr>matcher_at := (if producer_done s then Matcher_check else Matcher_pop)\<rparr>)
      | Matcher_check \<Rightarrow>
          Some (s\<lparr>matcher_at := (if spsc_empty (ring s) then Matcher_done else Matcher_pop)\<rparr>)
      | Matcher_pop \<Rightarrow>
          let (batch, q) = pop_batch (min batch_size v) (ring s)
          in Some (s\<lparr>ring := q, matcher_at := (if batch = [] then Matcher_loop else Matcher_batch batch)\<rparr>)
      | Matcher_batch [] \<Rightarrow> Some (s\<lparr>matcher_at := Matcher_loop\<rparr>)
      | Matcher_batch (msg # batch) \<Rightarrow>
          do {
            b \<leftarrow> bench_execute_command (bench_book s) msg;
            Some (s\<lparr>bench_book := b, matched := matched s @ [msg],
                    matcher_at := (if acks then Matcher_push \<lparr>ingress_ts = im_timestamp msg\<rparr> batch
                                   else Matcher_batch batch)\<rparr>)
          }
      | Matcher_push c batch \<Rightarrow>
          (case push c (completions s) of
             (True, q) \<Rightarrow> Some (s\<lparr>completions := q, matcher_at := Matcher_batch batch\<rparr>)
           | (False, _) \<Rightarrow> Some s)
      | Matcher_done \<Rightarrow> Some s)"

section \<open>The system\<close>

text \<open>
  A push of the closed loop may also find the ring full because its load of head is stale
  (\<open>ingest_stale\<close>); in the open loop that changes nothing.
\<close>

inductive bench_step :: "bool \<Rightarrow> order_action list \<Rightarrow> u64 \<Rightarrow> u64 \<Rightarrow> pipeline \<Rightarrow> pipeline \<Rightarrow> bool"
  for acks acts batch_size window where
  ingest_closed: "acks \<Longrightarrow> bench_step acks acts batch_size window s (closed_ingest_step acts window v t1 t2 s)"
| ingest_stale: "acks \<Longrightarrow> ingest_at s = Ingest_push msg \<Longrightarrow>
    bench_step acks acts batch_size window s (s\<lparr>ingest_at := Ingest_full\<rparr>)"
| ingest_open: "\<not> acks \<Longrightarrow> bench_step acks acts batch_size window s (open_ingest_step acts s)"
| match: "matcher_step v acks batch_size s = Some s' \<Longrightarrow> bench_step acks acts batch_size window s s'"

text \<open>A run of the closed loop as data: a clock value for the ingest thread, or a matching step.\<close>

fun run_closed :: "order_action list \<Rightarrow> u64 \<Rightarrow> u64 \<Rightarrow> timestamp option list \<Rightarrow> pipeline \<Rightarrow> pipeline option" where
  "run_closed acts batch_size window [] s = Some s"
| "run_closed acts batch_size window (Some t # sch) s =
     run_closed acts batch_size window sch (closed_ingest_step acts window 64 t t s)"
| "run_closed acts batch_size window (None # sch) s =
     do { s \<leftarrow> matcher_step batch_size True batch_size s; run_closed acts batch_size window sch s }"

lemma run_closed_steps:
  "run_closed acts batch_size window sch s = Some s' \<Longrightarrow>
   (bench_step True acts batch_size window)\<^sup>*\<^sup>* s s'"
proof (induction acts batch_size window sch s rule: run_closed.induct)
  case (2 acts batch_size window t sch s)
  then show ?case
    by (auto intro: converse_rtranclp_into_rtranclp ingest_closed)
next
  case (3 acts batch_size window sch s)
  then show ?case
    by (auto simp: bind_eq_Some_conv intro: converse_rtranclp_into_rtranclp match)
qed simp

end
