(* ===== verification/Pipeline_Refinement.thy ===== *)
theory Pipeline_Refinement
  imports Pipeline_Benchmark Pool_Refinement
begin

text \<open>
  What the pipeline benchmarks compute: whatever the interleaving, the matching thread applies the
  actions in order, and when both threads have left, all of them. \<open>pipe_inv\<close> holds of both
  loops; \<open>credit_inv\<close> is the window accounting of the closed loop.
\<close>

section \<open>Executing actions one by one\<close>

definition lob_act :: "order_action \<Rightarrow> lob \<Rightarrow> lob" where
  "lob_act act bk = (if action_type act = NewOrder then snd (snd (lob_submit (act_order act) bk))
     else snd (lob_cancel (act_cancel_id act) bk))"

lemma lob_run_book: "snd (snd (lob_run acts bk)) = fold lob_act acts bk"
  by (induction acts bk rule: lob_run.induct) (auto simp: lob_act_def split: prod.splits)

lemma bench_execute_refines:
  assumes inv: "pool_inv b" and room: "pool_total_orders b < 2 ^ 31" and cmd: "im_command msg = action_command act"
  shows "\<exists>b'. bench_execute_command b msg = Some b' \<and> pool_inv b' \<and> pool_abs b' = lob_act act (pool_abs b)
    \<and> pool_total_orders b' \<le> Suc (pool_total_orders b)"
proof (cases "action_type act = NewOrder")
  case True
  obtain ok ts bk' where lob: "lob_submit (act_order act) (pool_abs b) = (ok, ts, bk')"
    by (cases "lob_submit (act_order act) (pool_abs b)")
  from pool_submit_step [OF inv room lob, of "[]"]
  obtain b' where b': "pool_submit_order (act_order act) [] b = Some (ok, ts, b')" "pool_inv b'" "pool_abs b' = bk'"
    "pool_total_orders b' \<le> Suc (pool_total_orders b)"
    by auto
  with True cmd lob b' show ?thesis
    by (simp add: bench_execute_command_def action_command_def lob_act_def)
next
  case False
  obtain ok bk' where lob: "lob_cancel (act_cancel_id act) (pool_abs b) = (ok, bk')"
    by (cases "lob_cancel (act_cancel_id act) (pool_abs b)")
  from pool_cancel_step [OF inv room lob]
  obtain b' where b': "pool_cancel_order (act_cancel_id act) b = Some (ok, b')" "pool_inv b'" "pool_abs b' = bk'"
    "pool_total_orders b' \<le> Suc (pool_total_orders b)"
    by blast
  with False cmd lob b' show ?thesis
    by (simp add: bench_execute_command_def action_command_def lob_act_def)
qed

section \<open>The invariant of both loops\<close>

fun batch_left :: "matcher_pc \<Rightarrow> ingress_message list" where
  "batch_left (Matcher_batch batch) = batch"
| "batch_left (Matcher_push c batch) = batch"
| "batch_left _ = []"

fun to_push :: "matcher_pc \<Rightarrow> completion list" where
  "to_push (Matcher_push c batch) = [c]"
| "to_push _ = []"

fun ingest_at_ok :: "order_action list \<Rightarrow> nat \<Rightarrow> ingest_pc \<Rightarrow> bool" where
  "ingest_at_ok acts i Ingest_credit = True"
| "ingest_at_ok acts i (Ingest_push msg) = (i < length acts \<and> im_command msg = action_command (acts ! i))"
| "ingest_at_ok acts i Ingest_full = (i < length acts)"
| "ingest_at_ok acts i Ingest_drain = (i = length acts)"
| "ingest_at_ok acts i Ingest_done = (i = length acts)"

definition ingest_ok :: "order_action list \<Rightarrow> pipeline \<Rightarrow> bool" where
  "ingest_ok acts s \<longleftrightarrow>
     ingest_at_ok acts (index s) (ingest_at s) \<and> producer_done s = (ingest_at s = Ingest_done)"

fun matcher_at_ok :: "bool \<Rightarrow> bool \<Rightarrow> matcher_pc \<Rightarrow> bool" where
  "matcher_at_ok finished drained_ring Matcher_check = finished"
| "matcher_at_ok finished drained_ring Matcher_done = (finished \<and> drained_ring)"
| "matcher_at_ok finished drained_ring _ = True"

lemma matcher_at_ok_True: "matcher_at_ok False e pc \<Longrightarrow> matcher_at_ok f e' pc"
  by (cases pc) simp_all

definition matcher_ok :: "pipeline \<Rightarrow> bool" where
  "matcher_ok s \<longleftrightarrow> matcher_at_ok (producer_done s) (contents (ring s) = []) (matcher_at s)"

definition book_ok :: "order_action list \<Rightarrow> pipeline \<Rightarrow> bool" where
  "book_ok acts s \<longleftrightarrow>
     pool_inv (bench_book s) \<and> pool_total_orders (bench_book s) \<le> length (matched s)
     \<and> pool_abs (bench_book s) = fold lob_act (take (length (matched s)) acts) lob_empty"

definition pipe_inv :: "order_action list \<Rightarrow> pipeline \<Rightarrow> bool" where
  "pipe_inv acts s \<longleftrightarrow>
     spsc_inv (ring s) \<and> spsc_inv (completions s)
     \<and> matched s @ batch_left (matcher_at s) @ contents (ring s) = pushed s
     \<and> map im_command (pushed s) = map action_command (take (index s) acts) \<and> index s \<le> length acts
     \<and> ingest_ok acts s \<and> matcher_ok s \<and> book_ok acts s"

lemma bench_start_inv:
  assumes "bench_start queue_capacity initial_capacity = Some s" "unat queue_capacity \<le> 2 ^ 63"
    and "initial_capacity < 2 ^ 32"
  shows "pipe_inv acts s"
proof -
  obtain iq where iq: "spsc_new default_ingress queue_capacity = Some iq" "spsc_inv iq" "contents iq = []"
    using spsc_new_correct [OF assms(2), of default_ingress] by (elim exE conjE)
  obtain cq where cq: "spsc_new default_completion queue_capacity = Some cq" "spsc_inv cq" "contents cq = []"
    using spsc_new_correct [OF assms(2), of default_completion] by (elim exE conjE)
  have "pool_total_orders (pool_new initial_capacity) = 0" by (simp add: pool_total_orders_def pool_new_def)
  moreover have "s = \<lparr>ring = iq, completions = cq, producer_done = False, bench_book = pool_new initial_capacity,
         index = 0, in_flight = 0, latencies_ns = [], ingest_at = Ingest_credit,
         matcher_at = Matcher_loop, pushed = [], matched = [], acked = []\<rparr>"
    using assms(1) iq(1) cq(1) by (simp add: bench_start_def)
  ultimately show ?thesis
    using iq cq pool_new_correct [OF assms(3)]
    by (simp add: pipe_inv_def ingest_ok_def matcher_ok_def book_ok_def)
qed

lemma make_message_command [simp]: "im_command (make_message i act t) = action_command act"
  by (simp add: make_message_def)

lemma drain_frame [simp]:
  "ring (drain_completions v t s) = ring s" "producer_done (drain_completions v t s) = producer_done s"
  "bench_book (drain_completions v t s) = bench_book s" "index (drain_completions v t s) = index s"
  "ingest_at (drain_completions v t s) = ingest_at s" "matcher_at (drain_completions v t s) = matcher_at s"
  "pushed (drain_completions v t s) = pushed s" "matched (drain_completions v t s) = matched s"
  by (simp_all add: drain_completions_def split: prod.split)

lemma drain_queue:
  assumes "spsc_inv (completions s)"
  shows "spsc_inv (completions (drain_completions v t s))"
    "acked (drain_completions v t s) @ contents (completions (drain_completions v t s)) = acked s @ contents (completions s)"
    "\<exists>k. length (acked (drain_completions v t s)) = length (acked s) + k
      \<and> in_flight (drain_completions v t s) = in_flight s - word_of_nat k"
proof -
  obtain batch q where p: "pop_batch (min 64 v) (completions s) = (batch, q)" by (cases "pop_batch (min 64 v) (completions s)")
  from spsc.pop_law [OF assms p] p
  show "spsc_inv (completions (drain_completions v t s))"
    "acked (drain_completions v t s) @ contents (completions (drain_completions v t s)) = acked s @ contents (completions s)"
    "\<exists>k. length (acked (drain_completions v t s)) = length (acked s) + k
      \<and> in_flight (drain_completions v t s) = in_flight s - word_of_nat k"
    by (auto simp: drain_completions_def)
qed

lemma drain_inv: "pipe_inv acts s \<Longrightarrow> pipe_inv acts (drain_completions v t s)"
  by (auto simp: pipe_inv_def ingest_ok_def matcher_ok_def book_ok_def drain_queue(1))

lemma pipe_inv_pc:
  assumes "pipe_inv acts s" "ingest_ok acts (s\<lparr>ingest_at := pc\<rparr>)"
  shows "pipe_inv acts (s\<lparr>ingest_at := pc\<rparr>)"
  using assms by (simp add: pipe_inv_def matcher_ok_def book_ok_def)

lemma pushed_inv:
  assumes inv: "pipe_inv acts s" and at: "ingest_at s = Ingest_push msg" and p: "push msg (ring s) = (True, q)"
  shows "pipe_inv acts (s\<lparr>ring := q, in_flight := w, index := index s + 1,
    ingest_at := Ingest_credit, pushed := pushed s @ [msg]\<rparr>)"
proof -
  have law: "spsc_inv q" "contents q = contents (ring s) @ [msg]"
    using inv p spsc.push_law [of "ring s" msg True q] by (simp_all add: pipe_inv_def)
  have busy: "index s < length acts" "im_command msg = action_command (acts ! index s)" "\<not> producer_done s"
    using inv at by (simp_all add: pipe_inv_def ingest_ok_def)
  have "matcher_at_ok False (contents (ring s) = []) (matcher_at s)"
    using inv busy(3) by (simp add: pipe_inv_def matcher_ok_def)
  then have "matcher_at_ok False False (matcher_at s)" by (rule matcher_at_ok_True)
  with inv law busy show ?thesis
    by (simp add: pipe_inv_def ingest_ok_def book_ok_def matcher_ok_def take_Suc_conv_app_nth)
qed

text \<open>The ingest thread leaves.\<close>

lemma finish_inv:
  assumes inv: "pipe_inv acts s" and "index s = length acts" "\<not> producer_done s"
  shows "pipe_inv acts (s\<lparr>producer_done := True, ingest_at := Ingest_done\<rparr>)"
proof -
  have "matcher_at_ok False (contents (ring s) = []) (matcher_at s)"
    using inv assms(3) by (simp add: pipe_inv_def matcher_ok_def)
  then have "matcher_at_ok True (contents (ring s) = []) (matcher_at s)" by (rule matcher_at_ok_True)
  with inv assms(2) show ?thesis
    by (simp add: pipe_inv_def ingest_ok_def book_ok_def matcher_ok_def)
qed

lemma closed_ingest_inv:
  assumes inv: "pipe_inv acts s"
  shows "pipe_inv acts (closed_ingest_step acts window v t1 t2 s)"
proof (cases "ingest_at s")
  case Ingest_credit
  have "index s \<le> length acts" "\<not> producer_done s"
    using inv Ingest_credit by (simp_all add: pipe_inv_def ingest_ok_def)
  with Ingest_credit inv show ?thesis
    by (auto simp: closed_ingest_step_def ingest_ok_def intro!: pipe_inv_pc drain_inv)
next
  case (Ingest_push msg)
  show ?thesis
  proof (cases "push msg (ring s)")
    case (Pair ok q)
    have "\<not> producer_done s" "index s < length acts"
      using inv Ingest_push by (simp_all add: pipe_inv_def ingest_ok_def)
    then show ?thesis
      using Pair Ingest_push inv pushed_inv [OF inv Ingest_push, of q "in_flight s + 1"]
      by (cases ok) (auto simp: closed_ingest_step_def ingest_push_def ingest_ok_def intro!: pipe_inv_pc)
  qed
next
  case Ingest_full
  have "\<not> producer_done s" "index s < length acts"
    using inv Ingest_full by (simp_all add: pipe_inv_def ingest_ok_def)
  with Ingest_full inv show ?thesis
    by (auto simp: closed_ingest_step_def ingest_ok_def intro!: pipe_inv_pc drain_inv)
next
  case Ingest_drain
  have "index s = length acts" "\<not> producer_done s"
    using inv Ingest_drain by (simp_all add: pipe_inv_def ingest_ok_def)
  with Ingest_drain inv show ?thesis
    by (simp add: closed_ingest_step_def drain_inv finish_inv)
next
  case Ingest_done
  with inv show ?thesis by (simp add: closed_ingest_step_def)
qed

lemma open_ingest_inv:
  assumes inv: "pipe_inv acts s"
  shows "pipe_inv acts (open_ingest_step acts s)"
proof (cases "ingest_at s")
  case Ingest_credit
  have i: "index s \<le> length acts" "\<not> producer_done s"
    using inv Ingest_credit by (simp_all add: pipe_inv_def ingest_ok_def)
  show ?thesis
  proof (cases "index s < length acts")
    case True
    with i(2) Ingest_credit inv show ?thesis
      by (auto simp: open_ingest_step_def ingest_ok_def intro!: pipe_inv_pc)
  next
    case False
    with i Ingest_credit finish_inv [OF inv] show ?thesis by (simp add: open_ingest_step_def)
  qed
next
  case (Ingest_push msg)
  show ?thesis
  proof (cases "push msg (ring s)")
    case (Pair ok q)
    then show ?thesis
      using Ingest_push inv pushed_inv [OF inv Ingest_push, of q "in_flight s"]
      by (cases ok) (auto simp: open_ingest_step_def)
  qed
qed (use inv in \<open>simp_all add: open_ingest_step_def\<close>)

lemma matcher_inv:
  assumes inv: "pipe_inv acts s" and room: "length acts \<le> 2 ^ 31"
  shows "\<exists>s'. matcher_step v acks batch_size s = Some s' \<and> pipe_inv acts s'"
proof (cases "matcher_at s")
  case Matcher_loop
  with inv show ?thesis
    by (simp add: matcher_step_def pipe_inv_def ingest_ok_def matcher_ok_def book_ok_def)
next
  case Matcher_check
  with inv show ?thesis
    by (auto simp: matcher_step_def pipe_inv_def ingest_ok_def matcher_ok_def book_ok_def spsc_empty_correct)
next
  case Matcher_pop
  obtain batch q where p: "pop_batch (min batch_size v) (ring s) = (batch, q)" by (cases "pop_batch (min batch_size v) (ring s)")
  have "spsc_inv q" "batch @ contents q = contents (ring s)"
    using inv spsc.pop_law [OF _ p] by (simp_all add: pipe_inv_def)
  with inv Matcher_pop p show ?thesis
    by (cases batch) (simp_all add: matcher_step_def pipe_inv_def ingest_ok_def matcher_ok_def book_ok_def)
next
  case (Matcher_batch batch)
  show ?thesis
  proof (cases batch)
    case Nil
    with Matcher_batch inv show ?thesis
      by (simp add: matcher_step_def pipe_inv_def ingest_ok_def matcher_ok_def book_ok_def)
  next
    case (Cons msg rest)
    let ?n = "length (matched s)"
    have log: "pushed s = matched s @ msg # rest @ contents (ring s)"
      using inv Matcher_batch Cons by (simp add: pipe_inv_def)
    have cmds: "map im_command (pushed s) = map action_command (take (index s) acts)" "index s \<le> length acts"
      using inv by (simp_all add: pipe_inv_def)
    have n: "?n < index s"
      using arg_cong [OF cmds(1), of length] cmds(2) log by simp
    have "im_command msg = map im_command (pushed s) ! ?n" by (simp add: log nth_append)
    also have "\<dots> = action_command (acts ! ?n)"
      unfolding cmds(1) using n cmds(2) by simp
    finally have msg: "im_command msg = action_command (acts ! ?n)" .
    have book: "pool_inv (bench_book s)" "pool_total_orders (bench_book s) < 2 ^ 31"
      "pool_abs (bench_book s) = fold lob_act (take ?n acts) lob_empty"
      "pool_total_orders (bench_book s) \<le> ?n"
      using inv n cmds(2) room by (simp_all add: pipe_inv_def book_ok_def)
    from bench_execute_refines [OF book(1,2) msg] obtain b' where b': "bench_execute_command (bench_book s) msg = Some b'"
      "pool_inv b'" "pool_abs b' = lob_act (acts ! ?n) (pool_abs (bench_book s))"
      "pool_total_orders b' \<le> Suc (pool_total_orders (bench_book s))"
      by blast
    have "take (Suc ?n) acts = take ?n acts @ [acts ! ?n]"
      using n cmds(2) by (simp add: take_Suc_conv_app_nth)
    with inv Matcher_batch Cons b' book show ?thesis
      by (simp add: matcher_step_def pipe_inv_def ingest_ok_def matcher_ok_def book_ok_def)
  qed
next
  case (Matcher_push c batch)
  show ?thesis
  proof (cases "push c (completions s)")
    case (Pair ok q)
    then show ?thesis
      using inv Matcher_push spsc.push_law [of "completions s" c ok q]
      by (cases ok) (simp_all add: matcher_step_def pipe_inv_def ingest_ok_def matcher_ok_def book_ok_def)
  qed
next
  case Matcher_done
  with inv show ?thesis by (simp add: matcher_step_def)
qed

lemma stale_push_inv:
  assumes inv: "pipe_inv acts s" and pc: "ingest_at s = Ingest_push msg"
  shows "pipe_inv acts (s\<lparr>ingest_at := Ingest_full\<rparr>)"
proof -
  have "\<not> producer_done s" "index s < length acts"
    using inv pc by (simp_all add: pipe_inv_def ingest_ok_def)
  with inv show ?thesis by (auto simp: ingest_ok_def intro!: pipe_inv_pc)
qed

lemma bench_reachable_inv:
  assumes "(bench_step acks acts batch_size window)\<^sup>*\<^sup>* s0 s" "pipe_inv acts s0" "length acts \<le> 2 ^ 31"
  shows "pipe_inv acts s"
  using assms(1)
proof (induction rule: rtranclp_induct)
  case (step y z)
  from step.hyps(2) show ?case
  proof cases
    case (match v)
    with matcher_inv [OF step.IH assms(3), of v acks batch_size] show ?thesis by auto
  next
    case (ingest_stale msg)
    with stale_push_inv [OF step.IH] show ?thesis by simp
  qed (use step.IH closed_ingest_inv open_ingest_inv in simp_all)
qed (use assms(2) in simp)

section \<open>The window\<close>

definition unacked :: "pipeline \<Rightarrow> nat" where
  "unacked s = length (pushed s) - length (acked s)"

fun credit_at_ok :: "nat \<Rightarrow> nat \<Rightarrow> ingest_pc \<Rightarrow> bool" where
  "credit_at_ok window n (Ingest_push msg) = (n < window)"
| "credit_at_ok window n Ingest_full = (n < window)"
| "credit_at_ok window n Ingest_done = (n = 0)"
| "credit_at_ok window n _ = (n \<le> window)"

lemma credit_at_ok_less: "credit_at_ok window n pc \<Longrightarrow> m \<le> n \<Longrightarrow> credit_at_ok window m pc"
  by (cases pc) simp_all

lemma credit_at_ok_le: "credit_at_ok window n pc \<Longrightarrow> n \<le> window"
  by (cases pc) simp_all

definition credit_inv :: "u64 \<Rightarrow> pipeline \<Rightarrow> bool" where
  "credit_inv window s \<longleftrightarrow>
     spsc_inv (completions s)
     \<and> length (acked s) + fill (completions s) + length (to_push (matcher_at s)) = length (matched s)
     \<and> length (matched s) \<le> length (pushed s)
     \<and> unat (in_flight s) = unacked s
     \<and> credit_at_ok (unat window) (unacked s) (ingest_at s)"

lemma drain_credit:
  assumes inv: "credit_inv window s"
  shows "credit_inv window (drain_completions v t s)"
proof -
  let ?s = "drain_completions v t s"
  have q0: "spsc_inv (completions s)" using inv by (simp add: credit_inv_def)
  obtain k where k: "length (acked ?s) = length (acked s) + k" "in_flight ?s = in_flight s - word_of_nat k"
    using drain_queue(3) [OF q0] by blast
  have len: "length (acked ?s) + fill (completions ?s) = length (acked s) + fill (completions s)"
    using arg_cong [OF drain_queue(2) [OF q0], of length] by simp
  have le: "k \<le> unat (in_flight s)"
    using len k(1) inv by (auto simp: credit_inv_def unacked_def)
  then have "unat (word_of_nat k :: u64) = k"
    using unat_less_64 [of "in_flight s"] by (simp add: unat_of_nat take_bit_nat_eq_self)
  then have "unat (in_flight ?s) = unat (in_flight s) - k"
    using le k(2) by (simp add: unat_sub word_le_nat_alt)
  moreover have "unacked ?s = unacked s - k" by (simp add: unacked_def k(1))
  moreover from this have "credit_at_ok (unat window) (unacked ?s) (ingest_at s)"
    using inv credit_at_ok_less [of _ "unacked s" _ "unacked ?s"] by (simp add: credit_inv_def)
  ultimately show ?thesis
    using inv len drain_queue(1) [OF q0] by (simp add: credit_inv_def)
qed

lemma credit_inv_pc:
  assumes "credit_inv window s" "credit_at_ok (unat window) (unacked s) pc"
  shows "credit_inv window (s\<lparr>ingest_at := pc\<rparr>)"
  using assms by (simp add: credit_inv_def unacked_def)

lemma closed_ingest_credit:
  assumes inv: "credit_inv window s" and pipe: "pipe_inv acts s"
  shows "credit_inv window (closed_ingest_step acts window v t1 t2 s)"
proof (cases "ingest_at s")
  case Ingest_credit
  have "unat (in_flight s) = unacked s" "unacked s \<le> unat window"
    using inv credit_at_ok_le by (auto simp: credit_inv_def)
  with Ingest_credit inv show ?thesis
    by (auto simp: closed_ingest_step_def word_le_nat_alt intro!: credit_inv_pc drain_credit)
next
  case (Ingest_push msg)
  have room: "unacked s < unat window" and val: "unat (in_flight s) = unacked s"
    using inv Ingest_push by (simp_all add: credit_inv_def)
  show ?thesis
  proof (cases "push msg (ring s)")
    case (Pair ok q)
    have "unat (in_flight s + 1) = Suc (unacked s)"
      using room val unat_less_64 [of window] by (simp add: unat_word_ariths)
    moreover have "Suc (length (pushed s)) - length (acked s) = Suc (unacked s)"
      using inv by (simp add: unacked_def credit_inv_def Suc_diff_le)
    ultimately show ?thesis
      using Pair Ingest_push inv room
      by (cases ok) (auto simp: closed_ingest_step_def ingest_push_def credit_inv_def unacked_def)
  qed
next
  case Ingest_full
  have "unacked (drain_completions v t1 s) < unat window"
    using drain_credit [OF inv, of v t1] Ingest_full by (simp add: credit_inv_def)
  with Ingest_full inv show ?thesis
    by (auto simp: closed_ingest_step_def intro!: credit_inv_pc drain_credit)
next
  case Ingest_drain
  have "credit_inv window (s\<lparr>producer_done := True, ingest_at := Ingest_done\<rparr>)" if "in_flight s = 0"
    using inv that by (simp add: credit_inv_def unacked_def)
  with Ingest_drain inv drain_credit show ?thesis
    by (simp add: closed_ingest_step_def word_pos_iff)
next
  case Ingest_done
  with inv show ?thesis by (simp add: closed_ingest_step_def)
qed

lemma matcher_credit:
  assumes inv: "credit_inv window s" and pipe: "pipe_inv acts s" and step: "matcher_step v True batch_size s = Some s'"
  shows "credit_inv window s'"
proof (cases "matcher_at s")
  case Matcher_pop
  with inv step show ?thesis
    by (auto simp: matcher_step_def credit_inv_def unacked_def split: prod.splits if_splits)
next
  case (Matcher_batch batch)
  show ?thesis
  proof (cases batch)
    case (Cons msg rest)
    have "length (matched s) < length (pushed s)"
      using pipe Matcher_batch Cons by (auto simp: pipe_inv_def dest!: arg_cong [of _ _ length])
    with Matcher_batch Cons inv step show ?thesis
      by (auto simp: matcher_step_def bind_eq_Some_conv credit_inv_def unacked_def)
  qed (use Matcher_batch inv step in \<open>auto simp: matcher_step_def credit_inv_def unacked_def\<close>)
next
  case (Matcher_push c batch)
  show ?thesis
  proof (cases "push c (completions s)")
    case (Pair ok q)
    have "spsc_inv q \<and> (ok \<longrightarrow> fill q = Suc (fill (completions s)))"
      using spsc.push_law [OF _ Pair] inv length_contents [of q] by (auto simp: credit_inv_def)
    with Pair Matcher_push inv step show ?thesis
      by (cases ok) (auto simp: matcher_step_def credit_inv_def unacked_def)
  qed
qed (use inv step in \<open>auto simp: matcher_step_def credit_inv_def unacked_def\<close>)

lemma bench_start_credit:
  assumes "bench_start queue_capacity initial_capacity = Some s" "unat queue_capacity \<le> 2 ^ 63"
  shows "credit_inv window s"
proof -
  obtain cq where cq: "spsc_new default_completion queue_capacity = Some cq" "spsc_inv cq" "contents cq = []"
    using spsc_new_correct [OF assms(2), of default_completion] by (elim exE conjE)
  then have "fill cq = 0" by (metis length_contents list.size(3))
  with cq assms(1) show ?thesis
    by (auto simp: bench_start_def bind_eq_Some_conv credit_inv_def unacked_def)
qed

lemma closed_reachable:
  assumes "(bench_step True acts batch_size window)\<^sup>*\<^sup>* s0 s" "pipe_inv acts s0" "credit_inv window s0"
    and "length acts \<le> 2 ^ 31"
  shows "pipe_inv acts s \<and> credit_inv window s"
  using assms(1)
proof (induction rule: rtranclp_induct)
  case (step y z)
  have "pipe_inv acts z"
    using bench_reachable_inv [OF r_into_rtranclp [of "bench_step True acts batch_size window", OF step.hyps(2)] _ assms(4)]
      step.IH by blast
  moreover from step.hyps(2) have "credit_inv window z"
  proof cases
    case (ingest_closed v t1 t2)
    with step.IH closed_ingest_credit show ?thesis by blast
  next
    case (ingest_stale msg)
    have "credit_at_ok (unat window) (unacked y) Ingest_full"
      using step.IH ingest_stale by (simp add: credit_inv_def)
    with credit_inv_pc step.IH ingest_stale show ?thesis by blast
  next
    case (match v)
    with step.IH matcher_credit show ?thesis by blast
  next
    case ingest_open
    then show ?thesis by simp
  qed
  ultimately show ?case ..
qed (use assms(2,3) in simp)

text \<open>When the matching thread has left, everything was matched.\<close>

lemma finished_book:
  assumes inv: "pipe_inv acts s" and "matcher_at s = Matcher_done"
  shows "pool_abs (bench_book s) = snd (snd (lob_run acts lob_empty)) \<and> length (matched s) = length acts"
proof -
  have d: "producer_done s" "contents (ring s) = []"
    using assms by (simp_all add: pipe_inv_def matcher_ok_def)
  then have "index s = length acts" using inv by (auto simp: pipe_inv_def ingest_ok_def)
  then have "length (matched s) = length acts"
    using inv d(2) assms(2) by (auto simp: pipe_inv_def dest!: arg_cong [of "map im_command _" _ length])
  with inv show ?thesis by (simp add: pipe_inv_def book_ok_def lob_run_book)
qed

end
