(* ===== verification/Progress.thy ===== *)
theory Progress
  imports Titan_Prelude
begin

text \<open>
  How a step relation is shown to be able to finish: from every state of the invariant that is
  not finished some step leads to a state of the invariant with a smaller measure. The two
  pipeline benchmarks and the producer and consumer of the queue test are instances.
\<close>

locale progress =
  fixes step :: "'s \<Rightarrow> 's \<Rightarrow> bool"
    and inv :: "'s \<Rightarrow> bool"
    and finished :: "'s \<Rightarrow> bool"
    and left :: "'s \<Rightarrow> nat"
  assumes preserved: "inv s \<Longrightarrow> step s s' \<Longrightarrow> inv s'"
    and advances: "inv s \<Longrightarrow> \<not> finished s \<Longrightarrow> \<exists>s'. step s s' \<and> left s' < left s"
begin

lemma reachable_inv: "step\<^sup>*\<^sup>* s s' \<Longrightarrow> inv s \<Longrightarrow> inv s'"
  by (induction rule: rtranclp_induct) (auto intro: preserved)

text \<open>As many steps as the measure says are enough.\<close>

lemma finishes_within: "inv s \<Longrightarrow> \<exists>n s'. n \<le> left s \<and> (step ^^ n) s s' \<and> finished s'"
proof (induction "left s" arbitrary: s rule: less_induct)
  case less
  show ?case
  proof (cases "finished s")
    case True
    then have "(step ^^ 0) s s \<and> finished s" by simp
    then show ?thesis by blast
  next
    case False
    then obtain t where t: "step s t" "left t < left s"
      using advances less.prems by blast
    with less.hyps preserved [OF less.prems] obtain n s'
      where s': "n \<le> left t" "(step ^^ n) t s'" "finished s'" by blast
    have "(step ^^ Suc n) s s'" using t(1) s'(2) by (rule relpowp_Suc_I2)
    moreover have "Suc n \<le> left s" using t(2) s'(1) by simp
    ultimately show ?thesis using s'(3) by blast
  qed
qed

lemma can_finish: "step\<^sup>*\<^sup>* s0 s \<Longrightarrow> inv s0 \<Longrightarrow> \<exists>s'. step\<^sup>*\<^sup>* s s' \<and> finished s'"
  using finishes_within [OF reachable_inv] by (blast intro: relpowp_imp_rtranclp)

end

end
