(* ===== verification/Pipeline_Liveness.thy ===== *)
theory Pipeline_Liveness
  imports Pipeline_Refinement Progress
begin

text \<open>
  The pipeline benchmarks come to their end. Every element of work moves through the stages
  not yet pushed, in the ring, in the batch, to be acknowledged, acknowledged and not yet taken;
  from every state in which the matching thread has not left, one of the threads has a step that
  moves an element on or brings the thread nearer to such a step. The loads of that step are
  not stale. With an empty window or a batch size of zero the loops spin for ever.
\<close>

section \<open>The work that is left\<close>

definition elements_left :: "order_action list \<Rightarrow> pipeline \<Rightarrow> nat" where
  "elements_left acts s =
     6 * (length acts - index s) + 5 * fill (ring s) + 4 * length (batch_left (matcher_at s))
     + 3 * length (to_push (matcher_at s)) + 2 * fill (completions s)"

fun ingest_left :: "bool \<Rightarrow> ingest_pc \<Rightarrow> nat" where
  "ingest_left ring_empty Ingest_credit = 3"
| "ingest_left ring_empty (Ingest_push msg) = 2"
| "ingest_left ring_empty Ingest_full = (if ring_empty then 3 else 1)"
| "ingest_left ring_empty Ingest_drain = 1"
| "ingest_left ring_empty Ingest_done = 0"

fun matcher_left :: "bool \<Rightarrow> matcher_pc \<Rightarrow> nat" where
  "matcher_left ring_empty Matcher_loop = 3"
| "matcher_left ring_empty Matcher_check = 2"
| "matcher_left ring_empty Matcher_pop = (if ring_empty then 4 else 1)"
| "matcher_left ring_empty (Matcher_batch batch) = 5"
| "matcher_left ring_empty (Matcher_push c batch) = 5"
| "matcher_left ring_empty Matcher_done = 0"

definition work_left :: "order_action list \<Rightarrow> pipeline \<Rightarrow> nat" where
  "work_left acts s =
     10 * elements_left acts s + ingest_left (contents (ring s) = []) (ingest_at s)
     + matcher_left (contents (ring s) = []) (matcher_at s)"

lemmas work_defs = work_left_def elements_left_def

lemma ingest_left_bound: "ingest_left e pc \<le> 3" "ingest_left e pc \<le> Suc (Suc (ingest_left e' pc))"
  by (cases pc; simp)+

lemma matcher_left_bound: "matcher_left e pc \<le> 5" "matcher_left e pc \<le> 3 + matcher_left e' pc"
  by (cases pc; simp)+

section \<open>The matching thread\<close>

text \<open>Where the matching thread need not wait for the other.\<close>

fun matcher_ready :: "pipeline \<Rightarrow> matcher_pc \<Rightarrow> bool" where
  "matcher_ready s (Matcher_batch batch) = True"
| "matcher_ready s (Matcher_push c batch) = (fill (completions s) < unat (q_capacity (completions s)))"
| "matcher_ready s Matcher_done = False"
| "matcher_ready s _ = (contents (ring s) \<noteq> [] \<or> producer_done s)"

lemma matcher_advances:
  assumes inv: "pipe_inv acts s" and room: "length acts \<le> 2 ^ 31" and size: "acts = [] \<or> 0 < batch_size"
    and ready: "matcher_ready s (matcher_at s)"
  shows "\<exists>s'. matcher_step batch_size acks batch_size s = Some s' \<and> work_left acts s' < work_left acts s"
proof (cases "matcher_at s")
  case Matcher_loop
  with ready show ?thesis
    by (auto simp: matcher_step_def work_defs)
next
  case Matcher_check
  then show ?thesis
    by (auto simp: matcher_step_def work_defs spsc_empty_correct)
next
  case Matcher_pop
  obtain batch q where p: "pop_batch batch_size (ring s) = (batch, q)" by (cases "pop_batch batch_size (ring s)")
  have law: "batch = take (unat batch_size) (contents (ring s))" "batch @ contents q = contents (ring s)"
    using inv spsc.pop_law [OF _ p] by (simp_all add: pipe_inv_def)
  have sizes: "length batch + fill q = fill (ring s)"
    using arg_cong [OF law(2), of length] by simp
  show ?thesis
  proof (cases batch)
    case Nil
    have "contents (ring s) = []"
    proof (cases "acts = []")
      case True
      with inv show ?thesis by (auto simp: pipe_inv_def)
    next
      case False
      with size have "unat batch_size \<noteq> 0" by (simp add: word_less_nat_alt)
      with Nil law(1) show ?thesis by simp
    qed
    moreover from this law(2) have "contents q = []" by simp
    ultimately show ?thesis
      using Nil Matcher_pop p sizes by (simp add: matcher_step_def work_defs)
  next
    case (Cons msg rest)
    have "ingest_left (contents q = []) (ingest_at s) \<le> Suc (Suc (ingest_left (contents (ring s) = []) (ingest_at s)))"
      by (rule ingest_left_bound(2))
    with Cons Matcher_pop p sizes show ?thesis
      by (simp add: matcher_step_def work_defs)
  qed
next
  case (Matcher_batch batch)
  show ?thesis
  proof (cases batch)
    case Nil
    with Matcher_batch show ?thesis by (simp add: matcher_step_def work_defs)
  next
    case (Cons msg rest)
    obtain b where "bench_execute_command (bench_book s) msg = Some b"
      using matcher_inv [OF inv room, of batch_size acks batch_size] Matcher_batch Cons
      by (auto simp: matcher_step_def bind_eq_Some_conv)
    with Matcher_batch Cons show ?thesis by (simp add: matcher_step_def work_defs)
  qed
next
  case (Matcher_push c batch)
  obtain ok q where p: "push c (completions s) = (ok, q)" by (cases "push c (completions s)")
  have "ok" "contents q = contents (completions s) @ [c]"
    using inv ready Matcher_push spsc.push_law [OF _ p] by (simp_all add: pipe_inv_def)
  moreover from this have "fill q = Suc (fill (completions s))"
    by (metis length_append_singleton length_contents)
  ultimately show ?thesis
    using Matcher_push p by (simp add: matcher_step_def work_defs)
qed (use ready in simp)

section \<open>The ingest threads\<close>

lemma drain_advances:
  assumes "spsc_inv (completions s)" "fill (completions s) \<noteq> 0"
  shows "elements_left acts (drain_completions 64 t s) < elements_left acts s"
proof -
  obtain batch q where p: "pop_batch 64 (completions s) = (batch, q)" by (cases "pop_batch 64 (completions s)")
  from spsc.pop_law [OF assms(1) p] have "contents q = drop 64 (contents (completions s))" by simp
  then have "fill q = fill (completions s) - 64" by (metis length_contents length_drop)
  with assms(2) p show ?thesis by (simp add: drain_completions_def elements_left_def)
qed

lemma push_advances:
  assumes inv: "pipe_inv acts s" and at: "ingest_at s = Ingest_push msg" and p: "push msg (ring s) = (True, q)"
  shows "work_left acts (s\<lparr>ring := q, in_flight := w, index := index s + 1,
    ingest_at := Ingest_credit, pushed := pushed s @ [msg]\<rparr>) < work_left acts s"
proof -
  have "contents q = contents (ring s) @ [msg]" "index s < length acts"
    using inv at spsc.push_law [OF _ p] by (simp_all add: pipe_inv_def ingest_ok_def)
  moreover from this have "fill q = Suc (fill (ring s))" by (metis length_append_singleton length_contents)
  moreover note matcher_left_bound(2) [of "contents q = []" "matcher_at s" "contents (ring s) = []"]
  ultimately show ?thesis using at by (simp add: work_defs)
qed

lemma ingest_pc_advances:
  assumes "ingest_left (contents (ring s) = []) pc < ingest_left (contents (ring s) = []) (ingest_at s)"
  shows "work_left acts (s\<lparr>ingest_at := pc\<rparr>) < work_left acts s"
  using assms by (simp add: work_defs)

text \<open>When the matching thread waits, the closed loop has a completion to take or a command to push.\<close>

lemma closed_ingest_advances:
  assumes inv: "pipe_inv acts s" "credit_inv window s" and window: "acts = [] \<or> 0 < window"
    and waiting: "\<not> matcher_ready s (matcher_at s)" "matcher_at s \<noteq> Matcher_done"
  shows "work_left acts (closed_ingest_step acts window 64 t t s) < work_left acts s"
proof -
  have queues: "spsc_inv (ring s)" "spsc_inv (completions s)" using inv(1) by (simp_all add: pipe_inv_def)
  note drains = drain_advances [OF queues(2), of acts t]
  have pop_frame: "work_left acts (drain_completions 64 t s) < work_left acts s" if "fill (completions s) \<noteq> 0"
    using drains [OF that] by (simp add: work_left_def)
  have full_drain: "work_left acts ((drain_completions 64 t s)\<lparr>ingest_at := pc\<rparr>) < work_left acts s"
    if "fill (completions s) \<noteq> 0" for pc
    using drains [OF that] ingest_left_bound(1) [of "contents (ring s) = []" pc]
    by (simp add: work_left_def elements_left_def)
  have credit: "unat (in_flight s) = unacked s" "length (matched s) \<le> length (pushed s)"
    "length (acked s) + fill (completions s) + length (to_push (matcher_at s)) = length (matched s)"
    using inv(2) by (simp_all add: credit_inv_def)
  consider (full) "fill (completions s) \<noteq> 0" "fill (completions s) \<ge> unat (q_capacity (completions s))"
    | (idle) "contents (ring s) = []" "\<not> producer_done s" "unacked s = fill (completions s)"
  proof (cases "matcher_at s")
    case (Matcher_push c batch)
    with waiting(1) capacity_pos [OF queues(2)] full show thesis by simp
  next
    case (Matcher_batch batch)
    with waiting(1) show thesis by simp
  next
    case Matcher_done
    with waiting(2) show thesis by simp
  next
    case Matcher_loop
    with waiting(1) inv(1) credit idle show thesis by (simp add: pipe_inv_def unacked_def)
  next
    case Matcher_check
    with waiting(1) inv(1) credit idle show thesis by (simp add: pipe_inv_def unacked_def)
  next
    case Matcher_pop
    with waiting(1) inv(1) credit idle show thesis by (simp add: pipe_inv_def unacked_def)
  qed
  then show ?thesis
  proof cases
    case full
    show ?thesis
    proof (cases "ingest_at s")
      case (Ingest_push msg)
      obtain ok q where p: "push msg (ring s) = (ok, q)" by (cases "push msg (ring s)")
      show ?thesis
      proof (cases ok)
        case True
        with p Ingest_push push_advances [OF inv(1) Ingest_push] show ?thesis
          by (simp add: closed_ingest_step_def ingest_push_def)
      next
        case False
        have "contents (ring s) \<noteq> []"
          using spsc.push_law [OF queues(1) p] False capacity_pos [OF queues(1)]
          by (auto simp: contents_empty_fill)
        with False p Ingest_push ingest_pc_advances [of s Ingest_full acts] show ?thesis
          by (simp add: closed_ingest_step_def ingest_push_def)
      qed
    next
      case Ingest_done
      have "unacked s = 0" using inv(2) Ingest_done by (simp add: credit_inv_def)
      with credit full(1) show ?thesis by (simp add: unacked_def)
    qed (use full(1) pop_frame full_drain in
        \<open>auto simp: closed_ingest_step_def intro: ingest_pc_advances\<close>, simp_all add: work_defs)
  next
    case idle
    have unacked: "fill (completions s) \<noteq> 0" if "in_flight s > 0"
      using that idle(3) credit(1) by (auto simp: word_less_nat_alt)
    show ?thesis
    proof (cases "ingest_at s")
      case Ingest_credit
      have "in_flight s > 0" if "in_flight s \<ge> window" "index s < length acts"
        using that window by (auto intro: order_less_le_trans)
      with Ingest_credit unacked pop_frame show ?thesis
        by (auto simp: closed_ingest_step_def intro!: ingest_pc_advances)
    next
      case (Ingest_push msg)
      obtain ok q where p: "push msg (ring s) = (ok, q)" by (cases "push msg (ring s)")
      have "ok" using spsc.push_law [OF queues(1) p] idle(1) capacity_pos [OF queues(1)]
        by (simp add: contents_empty_fill)
      with p Ingest_push push_advances [OF inv(1) Ingest_push] show ?thesis
        by (simp add: closed_ingest_step_def ingest_push_def)
    next
      case Ingest_full
      show ?thesis
      proof (cases "fill (completions s) = 0")
        case True
        then have "contents (completions s) = []" by (simp add: contents_empty_fill)
        then have "elements_left acts (drain_completions 64 t s) = elements_left acts s"
          using spsc.pop_law [OF queues(2)] True
          by (auto simp: drain_completions_def elements_left_def contents_empty_fill split: prod.split)
        with Ingest_full idle(1) show ?thesis
          by (simp add: closed_ingest_step_def work_left_def elements_left_def)
      next
        case False
        with Ingest_full full_drain show ?thesis by (simp add: closed_ingest_step_def)
      qed
    next
      case Ingest_drain
      with unacked pop_frame show ?thesis
        by (simp add: closed_ingest_step_def work_defs)
    next
      case Ingest_done
      with idle(2) inv(1) show ?thesis by (simp add: pipe_inv_def ingest_ok_def)
    qed
  qed
qed

section \<open>The open loop\<close>

text \<open>It acknowledges nothing and knows only three of the places of the ingest thread.\<close>

fun open_at :: "ingest_pc \<Rightarrow> bool" where
  "open_at Ingest_full = False"
| "open_at Ingest_drain = False"
| "open_at _ = True"

definition open_inv :: "pipeline \<Rightarrow> bool" where
  "open_inv s \<longleftrightarrow>
     to_push (matcher_at s) = [] \<and> fill (completions s) = 0 \<and> open_at (ingest_at s)"

lemma open_step_inv:
  assumes "bench_step False acts batch_size window s s'" "open_inv s"
  shows "open_inv s'"
  using assms(1)
proof cases
  case ingest_open
  with assms(2) show ?thesis
    by (cases "ingest_at s") (auto simp: open_ingest_step_def open_inv_def split: prod.split bool.split)
next
  case (match v)
  with assms(2) show ?thesis
    by (cases "matcher_at s" rule: matcher_pc.exhaust)
      (auto simp: matcher_step_def open_inv_def bind_eq_Some_conv
        split: prod.splits list.splits if_splits)
qed auto

lemma open_ingest_advances:
  assumes inv: "pipe_inv acts s" "open_inv s"
    and waiting: "\<not> matcher_ready s (matcher_at s)" "matcher_at s \<noteq> Matcher_done"
  shows "work_left acts (open_ingest_step acts s) < work_left acts s"
proof -
  have ring: "spsc_inv (ring s)" using inv(1) by (simp add: pipe_inv_def)
  have idle: "contents (ring s) = []" "\<not> producer_done s"
    using waiting inv(2) by (cases "matcher_at s"; simp add: open_inv_def)+
  show ?thesis
  proof (cases "ingest_at s")
    case Ingest_credit
    then show ?thesis by (simp add: open_ingest_step_def work_defs)
  next
    case (Ingest_push msg)
    obtain ok q where p: "push msg (ring s) = (ok, q)" by (cases "push msg (ring s)")
    have "ok" using spsc.push_law [OF ring p] idle(1) capacity_pos [OF ring]
      by (simp add: contents_empty_fill)
    with p Ingest_push push_advances [OF inv(1) Ingest_push, of q "in_flight s"] show ?thesis
      by (simp add: open_ingest_step_def)
  next
    case Ingest_done
    with idle(2) inv(1) show ?thesis by (simp add: pipe_inv_def ingest_ok_def)
  qed (use inv(2) in \<open>simp_all add: open_inv_def\<close>)
qed

section \<open>Both loops can finish\<close>

definition live_inv :: "bool \<Rightarrow> order_action list \<Rightarrow> u64 \<Rightarrow> u64 \<Rightarrow> pipeline \<Rightarrow> bool" where
  "live_inv acks acts batch_size window s \<longleftrightarrow>
     length acts \<le> 2 ^ 31 \<and> pipe_inv acts s \<and> (if acks then credit_inv window s else open_inv s)
     \<and> (acts = [] \<or> 0 < batch_size \<and> (acks \<longrightarrow> 0 < window))"

lemma live_step:
  assumes inv: "live_inv acks acts batch_size window s" and step: "bench_step acks acts batch_size window s s'"
  shows "live_inv acks acts batch_size window s'"
proof -
  have room: "length acts \<le> 2 ^ 31" and pipe: "pipe_inv acts s" using inv by (simp_all add: live_inv_def)
  have pipe': "pipe_inv acts s'" by (rule bench_reachable_inv [OF r_into_rtranclp [of "bench_step acks acts batch_size window", OF step] pipe room])
  show ?thesis
  proof (cases acks)
    case True
    with inv closed_reachable [OF _ pipe _ room, of batch_size window s'] step
    show ?thesis by (auto simp: live_inv_def)
  next
    case False
    with inv step pipe' open_step_inv show ?thesis by (auto simp: live_inv_def)
  qed
qed

interpretation bench: progress "bench_step acks acts batch_size window"
    "live_inv acks acts batch_size window" "\<lambda>s. matcher_at s = Matcher_done" "work_left acts"
  for acks acts batch_size window
proof
  fix s s'
  assume "live_inv acks acts batch_size window s" "bench_step acks acts batch_size window s s'"
  then show "live_inv acks acts batch_size window s'" by (rule live_step)
next
  fix s
  assume inv: "live_inv acks acts batch_size window s" and busy: "matcher_at s \<noteq> Matcher_done"
  have live: "length acts \<le> 2 ^ 31" "pipe_inv acts s" "acts = [] \<or> 0 < batch_size"
    using inv by (auto simp: live_inv_def)
  show "\<exists>s'. bench_step acks acts batch_size window s s' \<and> work_left acts s' < work_left acts s"
  proof (cases "matcher_ready s (matcher_at s)")
    case True
    from matcher_advances [OF live(2,1,3) True, of acks] show ?thesis by (blast intro: match)
  next
    case waiting: False
    show ?thesis
    proof (cases acks)
      case True
      with inv have "credit_inv window s" "acts = [] \<or> 0 < window" by (auto simp: live_inv_def)
      from closed_ingest_advances [OF live(2) this waiting busy] True show ?thesis
        by (blast intro: ingest_closed)
    next
      case False
      with inv have "open_inv s" by (simp add: live_inv_def)
      from open_ingest_advances [OF live(2) this waiting busy] False show ?thesis
        by (blast intro: ingest_open)
    qed
  qed
qed

lemma bench_start_live:
  assumes "bench_start queue_capacity initial_capacity = Some s" "unat queue_capacity \<le> 2 ^ 63"
    and "initial_capacity < 2 ^ 32" "length acts \<le> 2 ^ 31"
    and "acts = [] \<or> 0 < batch_size \<and> (acks \<longrightarrow> 0 < window)"
  shows "live_inv acks acts batch_size window s"
proof -
  have "open_inv s"
    using assms(1) bench_start_credit [OF assms(1,2), of 0]
    by (auto simp: bench_start_def bind_eq_Some_conv open_inv_def credit_inv_def)
  with assms bench_start_inv [OF assms(1-3)] bench_start_credit [OF assms(1,2)] show ?thesis
    by (simp add: live_inv_def)
qed

lemma work_left_bound:
  assumes "live_inv acks acts batch_size window s"
  shows "work_left acts s \<le> 60 * length acts + 8"
proof -
  have "length (matched s @ batch_left (matcher_at s) @ contents (ring s)) = index s" "index s \<le> length acts"
    using assms by (auto simp: live_inv_def pipe_inv_def dest!: arg_cong [of "map im_command _" _ length])
  moreover have "fill (completions s) + length (to_push (matcher_at s)) \<le> length (matched s)"
    using assms by (auto simp: live_inv_def credit_inv_def open_inv_def split: if_splits)
  ultimately have "elements_left acts s \<le> 6 * length acts"
    by (simp add: elements_left_def)
  with ingest_left_bound(1) [of "contents (ring s) = []" "ingest_at s"]
    matcher_left_bound(1) [of "contents (ring s) = []" "matcher_at s"]
  show ?thesis unfolding work_left_def by linarith
qed

section \<open>Loops that spin\<close>

text \<open>A batch of size zero is always empty.\<close>

lemma zero_batch_stuck:
  assumes "(bench_step acks acts 0 window)\<^sup>*\<^sup>* s s'" "matched s = []" "batch_left (matcher_at s) = []"
  shows "matched s' = [] \<and> batch_left (matcher_at s') = []"
  using assms(1)
proof (induction rule: rtranclp_induct)
  case (step y z)
  have none: "fst (pop_batch 0 q) = []" for q :: "'a spsc_queue"
    by (simp add: pop_batch_def Let_def)
  from step.hyps(2) show ?case
  proof cases
    case (ingest_closed v t1 t2)
    with step.IH show ?thesis
      by (auto simp: closed_ingest_step_def ingest_push_def split: ingest_pc.split prod.split bool.split)
  next
    case ingest_open
    with step.IH show ?thesis
      by (auto simp: open_ingest_step_def split: ingest_pc.split prod.split bool.split)
  next
    case (match v)
    show ?thesis
    proof (cases "matcher_at y")
      case Matcher_pop
      with match step.IH none [of "ring y"] show ?thesis
        by (auto simp: matcher_step_def split: prod.splits if_splits)
    qed (use match step.IH in \<open>auto simp: matcher_step_def split: prod.splits bool.splits\<close>)
  qed (use step.IH in simp)
qed (use assms in simp)

lemma matcher_frame:
  assumes "matcher_step v acks batch_size s = Some s'"
  shows "index s' = index s" "ingest_at s' = ingest_at s"
proof -
  have "index s' = index s \<and> ingest_at s' = ingest_at s"
  proof (cases "matcher_at s")
    case (Matcher_batch batch)
    with assms show ?thesis by (cases batch) (auto simp: matcher_step_def bind_eq_Some_conv)
  qed (use assms in \<open>auto simp: matcher_step_def split: prod.splits bool.splits\<close>)
  then show "index s' = index s" "ingest_at s' = ingest_at s" by simp_all
qed

text \<open>Without a window the closed loop waits for credit before its first command.\<close>

lemma zero_window_stuck:
  assumes "(bench_step True acts batch_size 0)\<^sup>*\<^sup>* s s'" "acts \<noteq> []" "index s = 0" "ingest_at s = Ingest_credit"
  shows "index s' = 0 \<and> ingest_at s' = Ingest_credit"
  using assms(1)
proof (induction rule: rtranclp_induct)
  case (step y z)
  from step.hyps(2) show ?case
  proof cases
    case (ingest_closed v t1 t2)
    with step.IH assms(2) show ?thesis by (simp add: closed_ingest_step_def)
  next
    case (match v)
    with step.IH matcher_frame show ?thesis by metis
  qed (use step.IH in simp_all)
qed (use assms in simp)

end
