(* ===== verification/Workload.thy ===== *)
theory Workload
  imports Matching_Engine
begin

text \<open>
  The workload generator of \<^verbatim>\<open>include/workload.hpp\<close>. The random engine with its
  distributions is a parameter: a record of the draws the code makes, each a function of the
  engine's state; the standard fixes their ranges, not their values, and \<open>sampler_ok\<close> states
  the ranges. The draw of a price offset is the sample of the normal distribution as rounded by
  \<^verbatim>\<open>std::round\<close>. A conversion or sum that leaves \<^verbatim>\<open>int64_t\<close>, and an index past
  the end of a vector, have no defined behaviour and are \<open>None\<close>.
\<close>

section \<open>Draws\<close>

record 'r sampler =
  seed_engine :: "u64 \<Rightarrow> 'r"
  draw_percent :: "'r \<Rightarrow> int \<times> 'r"
  draw_side :: "'r \<Rightarrow> int \<times> 'r"
  draw_offset :: "price \<Rightarrow> 'r \<Rightarrow> int \<times> 'r"
  draw_quantity :: "'r \<Rightarrow> quantity \<times> 'r"
  draw_index :: "u64 \<Rightarrow> 'r \<Rightarrow> u64 \<times> 'r"

definition sampler_ok :: "price \<Rightarrow> 'r sampler \<Rightarrow> bool" where
  "sampler_ok spread_half S \<longleftrightarrow>
     (\<forall>r. 0 \<le> fst (draw_percent S r) \<and> fst (draw_percent S r) \<le> 99
        \<and> fst (draw_side S r) \<in> {0, 1}
        \<and> \<bar>fst (draw_offset S spread_half r)\<bar> < 2 ^ 62
        \<and> 10 \<le> fst (draw_quantity S r) \<and> fst (draw_quantity S r) \<le> 500
        \<and> (\<forall>n. fst (draw_index S n r) \<le> n))"

section \<open>The generator\<close>

datatype workload_type = Balanced | InsertHeavy | CancelHeavy

record 'r gen_state =
  gen_rng :: 'r
  gen_actions :: "order_action list"
  active_order_ids :: "order_id list"
  next_id :: order_id

text \<open>The percentages of new orders and of cancels.\<close>

definition percentages :: "workload_type \<Rightarrow> int \<times> int" where
  "percentages type =
     (case type of Balanced \<Rightarrow> (50, 25) | InsertHeavy \<Rightarrow> (80, 10) | CancelHeavy \<Rightarrow> (40, 50))"

definition int64 :: "int \<Rightarrow> int option" where
  "int64 x = (if - (2 ^ 63) \<le> x \<and> x < 2 ^ 63 then Some x else None)"

definition new_order :: "order_id \<Rightarrow> price \<Rightarrow> quantity \<Rightarrow> u64 \<Rightarrow> side \<Rightarrow> order_type \<Rightarrow> order_action" where
  "new_order oid pr qty i sd t =
     \<lparr>action_type = NewOrder,
      act_order = \<lparr>order_id = oid, price = pr, initial_quantity = qty, remaining_quantity = qty,
        timestamp = i * 100, side = sd, otype = t\<rparr>,
      act_cancel_id = 0\<rparr>"

definition gen_limit :: "'r sampler \<Rightarrow> price \<Rightarrow> price \<Rightarrow> u64 \<Rightarrow> 'r gen_state \<Rightarrow> 'r gen_state option" where
  "gen_limit S mid_price spread_half i st =
     (let (side_roll, r) = draw_side S (gen_rng st);
          sd = (if side_roll = 0 then Buy else Sell);
          (offset, r) = draw_offset S spread_half r
      in do {
        offset \<leftarrow> int64 offset;
        raw_price \<leftarrow> int64 (sint mid_price + offset);
        let raw_price = (if raw_price < 100 then 100 else raw_price);
        let (qty, r) = draw_quantity S r;
        let oid = next_id st;
        Some (st\<lparr>gen_rng := r, next_id := oid + 1,
                 gen_actions := gen_actions st @ [new_order oid (word_of_int raw_price) qty i sd Limit],
                 active_order_ids := active_order_ids st @ [oid]\<rparr>)
      })"

definition gen_cancel :: "'r sampler \<Rightarrow> 'r gen_state \<Rightarrow> 'r gen_state option" where
  "gen_cancel S st =
     (let ids = active_order_ids st;
          (rand_idx, r) = draw_index S (word_of_nat (length ids) - 1) (gen_rng st)
      in if unat rand_idx < length ids then
           Some (st\<lparr>gen_rng := r,
                    active_order_ids := butlast (ids[unat rand_idx := last ids]),
                    gen_actions := gen_actions st @ [\<lparr>action_type = CancelOrder, act_order = default_order,
                      act_cancel_id = ids ! unat rand_idx\<rparr>]\<rparr>)
         else None)"

definition gen_market :: "'r sampler \<Rightarrow> u64 \<Rightarrow> 'r gen_state \<Rightarrow> 'r gen_state" where
  "gen_market S i st =
     (let (side_roll, r) = draw_side S (gen_rng st);
          sd = (if side_roll = 0 then Buy else Sell);
          (qty, r) = draw_quantity S r;
          qty = qty div 2;
          qty = (if qty = 0 then 10 else qty);
          oid = next_id st
      in st\<lparr>gen_rng := r, next_id := oid + 1,
            gen_actions := gen_actions st @ [new_order oid 0 qty i sd Market]\<rparr>)"

text \<open>One round of the loop.\<close>

definition gen_action ::
    "'r sampler \<Rightarrow> workload_type \<Rightarrow> price \<Rightarrow> price \<Rightarrow> u64 \<Rightarrow> 'r gen_state \<Rightarrow> 'r gen_state option" where
  "gen_action S type mid_price spread_half i st =
     (let (new_pct, cancel_pct) = percentages type;
          (roll, r) = draw_percent S (gen_rng st);
          st = st\<lparr>gen_rng := r\<rparr>
      in if roll < new_pct \<or> active_order_ids st = [] then gen_limit S mid_price spread_half i st
         else if roll < new_pct + cancel_pct then gen_cancel S st
         else Some (gen_market S i st))"

text \<open>The loop; the first argument is how many rounds are left.\<close>

fun gen_loop ::
    "nat \<Rightarrow> 'r sampler \<Rightarrow> workload_type \<Rightarrow> price \<Rightarrow> price \<Rightarrow> u64 \<Rightarrow> 'r gen_state \<Rightarrow> 'r gen_state option" where
  "gen_loop 0 S type mid_price spread_half i st = Some st"
| "gen_loop (Suc n) S type mid_price spread_half i st =
     do { st \<leftarrow> gen_action S type mid_price spread_half i st;
          gen_loop n S type mid_price spread_half (i + 1) st }"

definition generate ::
    "'r sampler \<Rightarrow> workload_type \<Rightarrow> u64 \<Rightarrow> u64 \<Rightarrow> price \<Rightarrow> price \<Rightarrow> order_action list option" where
  "generate S type action_count seed mid_price spread_half =
     map_option gen_actions (gen_loop (unat action_count) S type mid_price spread_half 0
       \<lparr>gen_rng = seed_engine S seed, gen_actions = [], active_order_ids = [], next_id = 1\<rparr>)"

section \<open>Well-formed workloads\<close>

text \<open>
  An action is well formed after those before it: a new order carries the next id and can be
  accepted, a limit order has a price of at least 100; a cancel names a limit order of the
  workload, each at most once.
\<close>

definition new_orders :: "order_action list \<Rightarrow> order list" where
  "new_orders acts = map act_order (filter (\<lambda>a. action_type a = NewOrder) acts)"

definition limit_ids :: "order_action list \<Rightarrow> order_id set" where
  "limit_ids acts = order_id ` {ord \<in> set (new_orders acts). otype ord = Limit}"

definition cancelled :: "order_action list \<Rightarrow> order_id set" where
  "cancelled acts = act_cancel_id ` {a \<in> set acts. action_type a = CancelOrder}"

definition action_ok :: "order_action list \<Rightarrow> order_action \<Rightarrow> bool" where
  "action_ok prev a \<longleftrightarrow>
     (case action_type a of
        NewOrder \<Rightarrow>
          order_id (act_order a) = word_of_nat (Suc (length (new_orders prev)))
          \<and> acceptable (act_order a) \<and> remaining_quantity (act_order a) = initial_quantity (act_order a)
          \<and> initial_quantity (act_order a) \<le> 500
          \<and> (otype (act_order a) = Limit \<longrightarrow> 100 \<le> price (act_order a) \<and> 10 \<le> initial_quantity (act_order a))
      | CancelOrder \<Rightarrow> act_cancel_id a \<in> limit_ids prev - cancelled prev)"

fun workload_ok :: "order_action list \<Rightarrow> order_action list \<Rightarrow> bool" where
  "workload_ok prev [] = True"
| "workload_ok prev (a # acts) = (action_ok prev a \<and> workload_ok (prev @ [a]) acts)"

lemma workload_ok_append:
  "workload_ok prev (xs @ ys) \<longleftrightarrow> workload_ok prev xs \<and> workload_ok (prev @ xs) ys"
  by (induction xs arbitrary: prev) simp_all

lemma new_orders_append [simp]: "new_orders (xs @ ys) = new_orders xs @ new_orders ys"
  by (simp add: new_orders_def)

lemma new_orders_single [simp]:
  "new_orders [] = []" "new_orders [a] = (if action_type a = NewOrder then [act_order a] else [])"
  by (simp_all add: new_orders_def)

lemma limit_ids_append [simp]: "limit_ids (xs @ ys) = limit_ids xs \<union> limit_ids ys"
  by (auto simp: limit_ids_def)

lemma cancelled_append [simp]: "cancelled (xs @ ys) = cancelled xs \<union> cancelled ys"
  by (auto simp: cancelled_def)

lemma length_new_orders: "length (new_orders acts) \<le> length acts"
  by (simp add: new_orders_def)

section \<open>The generator's invariant\<close>

definition ids_upto :: "nat \<Rightarrow> order_id set" where
  "ids_upto n = word_of_nat ` {1..n}"

definition gen_inv :: "'r gen_state \<Rightarrow> bool" where
  "gen_inv st \<longleftrightarrow>
     workload_ok [] (gen_actions st)
     \<and> next_id st = word_of_nat (Suc (length (new_orders (gen_actions st))))
     \<and> distinct (active_order_ids st)
     \<and> set (active_order_ids st) \<subseteq> limit_ids (gen_actions st) - cancelled (gen_actions st)
     \<and> limit_ids (gen_actions st) \<subseteq> ids_upto (length (new_orders (gen_actions st)))
     \<and> cancelled (gen_actions st) \<subseteq> limit_ids (gen_actions st)"

lemma next_id_fresh: "n < 2 ^ 64 - 1 \<Longrightarrow> word_of_nat (Suc n) \<notin> ids_upto n"
proof
  assume n: "n < 2 ^ 64 - 1" and "word_of_nat (Suc n) \<in> ids_upto n"
  then obtain k where k: "1 \<le> k" "k \<le> n" "(word_of_nat (Suc n) :: u64) = word_of_nat k"
    by (auto simp: ids_upto_def)
  have val: "unat (word_of_nat m :: u64) = m" if "m < 2 ^ 64" for m
    using that by (simp add: unat_of_nat take_bit_nat_eq_self)
  have "Suc n < 2 ^ 64" "k < 2 ^ 64" using n k by simp_all
  then have "Suc n = k" using val [of "Suc n"] val [of k] k(3) by metis
  with k show False by simp
qed

lemma ids_upto_Suc: "ids_upto (Suc n) = insert (word_of_nat (Suc n)) (ids_upto n)"
  by (simp add: ids_upto_def atLeastAtMostSuc_conv)

text \<open>Removing an element by overwriting it with the last one and shortening the vector.\<close>

lemma swap_and_pop:
  assumes "r < length xs"
  shows "mset (butlast (xs[r := last xs])) = mset xs - {#xs ! r#}"
proof -
  let ?ys = "xs[r := last xs]"
  have ne: "xs \<noteq> []" "?ys \<noteq> []" using assms by auto
  have "last ?ys = last xs"
    using ne assms by (simp add: last_conv_nth nth_list_update)
  then have "mset ?ys = add_mset (last xs) (mset (butlast ?ys))"
    using ne(2) by (metis append_butlast_last_id mset.simps(2) mset_append add_mset_add_single mset.simps(1))
  moreover have "mset ?ys = add_mset (last xs) (mset xs - {#xs ! r#})"
    using assms by (rule mset_update)
  ultimately show ?thesis by simp
qed

lemma swap_and_pop_distinct:
  assumes "r < length xs" "distinct xs"
  shows "distinct (butlast (xs[r := last xs]))" "set (butlast (xs[r := last xs])) = set xs - {xs ! r}"
proof -
  have m: "mset (butlast (xs[r := last xs])) = mset (remove1 (xs ! r) xs)"
    using swap_and_pop [OF assms(1)] by simp
  show "distinct (butlast (xs[r := last xs]))"
    using mset_eq_imp_distinct_iff [OF m] assms(2) by simp
  show "set (butlast (xs[r := last xs])) = set xs - {xs ! r}"
    using mset_eq_setD [OF m] assms(2) by simp
qed

section \<open>Every round keeps it\<close>

lemma new_order_sel [simp]:
  "action_type (new_order oid pr qty i sd t) = NewOrder"
  "order_id (act_order (new_order oid pr qty i sd t)) = oid"
  "price (act_order (new_order oid pr qty i sd t)) = pr"
  "initial_quantity (act_order (new_order oid pr qty i sd t)) = qty"
  "remaining_quantity (act_order (new_order oid pr qty i sd t)) = qty"
  "otype (act_order (new_order oid pr qty i sd t)) = t"
  by (simp_all add: new_order_def)

lemma limit_ids_single [simp]:
  "limit_ids [new_order oid pr qty i sd t] = (if t = Limit then {oid} else {})"
  by (auto simp: limit_ids_def)

lemma cancelled_new [simp]: "cancelled [new_order oid pr qty i sd t] = {}"
  by (simp add: cancelled_def)

text \<open>Appending a new order with the next id.\<close>

lemma gen_inv_new:
  assumes inv: "gen_inv st" and len: "length (gen_actions st) < 2 ^ 62"
    and a: "a = new_order (next_id st) pr qty i sd t"
    and qty: "qty \<noteq> 0" "qty \<le> 500" and limit: "t = Limit \<Longrightarrow> 100 \<le> pr \<and> 10 \<le> qty"
    and st': "gen_actions st' = gen_actions st @ [a]" "next_id st' = next_id st + 1"
      "active_order_ids st' = active_order_ids st @ (if t = Limit then [next_id st] else [])"
  shows "gen_inv st'"
proof -
  let ?acts = "gen_actions st"
  let ?n = "length (new_orders ?acts)"
  have n: "next_id st = word_of_nat (Suc ?n)" using inv by (simp add: gen_inv_def)
  have "?n < 2 ^ 64 - 1" using len length_new_orders [of ?acts] by simp
  then have fresh: "next_id st \<notin> ids_upto ?n" using next_id_fresh n by metis
  then have unused: "next_id st \<notin> limit_ids ?acts" "next_id st \<notin> cancelled ?acts"
    "next_id st \<notin> set (active_order_ids st)"
    using inv by (auto simp: gen_inv_def)
  have "\<not> (t = Limit \<and> pr = 0)"
  proof
    assume z: "t = Limit \<and> pr = 0"
    then have "(100 :: u64) \<le> 0" using limit by simp
    then show False by simp
  qed
  then have "action_ok ?acts a"
    using qty limit n by (simp add: action_ok_def a acceptable_def new_order_def)
  moreover have "next_id st' = word_of_nat (Suc (length (new_orders (gen_actions st'))))"
    using n by (simp add: st' a)
  ultimately show ?thesis
    using inv unused n
    by (auto simp: gen_inv_def st' workload_ok_append a ids_upto_Suc subset_iff)
qed

lemma gen_limit_inv:
  assumes inv: "gen_inv st" and len: "length (gen_actions st) < 2 ^ 62"
    and S: "sampler_ok spread_half S" and mid: "mid_price < 2 ^ 62"
  shows "\<exists>st'. gen_limit S mid_price spread_half i st = Some st' \<and> gen_inv st'
    \<and> length (gen_actions st') = Suc (length (gen_actions st))"
proof -
  obtain side_roll r1 where d1: "draw_side S (gen_rng st) = (side_roll, r1)"
    by (cases "draw_side S (gen_rng st)")
  obtain offset r2 where d2: "draw_offset S spread_half r1 = (offset, r2)"
    by (cases "draw_offset S spread_half r1")
  obtain qty r3 where d3: "draw_quantity S r2 = (qty, r3)" by (cases "draw_quantity S r2")
  have off: "\<bar>offset\<bar> < 2 ^ 62" and qty: "10 \<le> qty" "qty \<le> 500"
    using S d2 d3 unfolding sampler_ok_def by (metis fst_conv)+
  have "uint mid_price < 2 ^ 62" using mid by (simp add: word_less_def)
  then have sint: "sint mid_price = uint mid_price"
  proof -
    have "- (2 ^ 63) \<le> uint mid_price" by (rule order_trans [OF _ uint_ge_0]) simp
    with \<open>uint mid_price < 2 ^ 62\<close> show ?thesis
      by (simp add: sint_uint signed_take_bit_int_eq_self)
  qed
  define raw where "raw = uint mid_price + offset"
  have raw: "- (2 ^ 63) \<le> raw" "raw < 2 ^ 63"
  proof -
    have "0 \<le> uint mid_price" by simp
    then obtain u where u: "u = uint mid_price" "0 \<le> u" by blast
    with off \<open>uint mid_price < 2 ^ 62\<close> show "- (2 ^ 63) \<le> raw" "raw < 2 ^ 63"
      unfolding raw_def u(1) [symmetric] by simp_all
  qed
  define pr where "pr = (if raw < 100 then 100 else raw)"
  have pr: "100 \<le> pr" "pr < 2 ^ 64" using raw(2) by (simp_all add: pr_def)
  have "uint (word_of_int pr :: u64) = pr"
    using pr by (intro word_of_int_inverse) simp_all
  then have price: "100 \<le> (word_of_int pr :: u64)" using pr(1) by (simp add: word_le_def)
  let ?a = "new_order (next_id st) (word_of_int pr) qty i (if side_roll = 0 then Buy else Sell) Limit"
  let ?st = "st\<lparr>gen_rng := r3, next_id := next_id st + 1, gen_actions := gen_actions st @ [?a],
    active_order_ids := active_order_ids st @ [next_id st]\<rparr>"
  have off_range: "- (2 ^ 63) \<le> offset" "offset < 2 ^ 63"
    using off unfolding abs_less_iff by simp_all
  have "gen_limit S mid_price spread_half i st = Some ?st"
    using off_range raw sint by (simp add: gen_limit_def d1 d2 d3 int64_def Let_def pr_def raw_def)
  moreover have "qty \<noteq> 0" using qty(1) by (auto simp: word_le_nat_alt)
  then have "gen_inv ?st"
    by (intro gen_inv_new [OF inv len, of ?a "word_of_int pr" qty i _ Limit])
      (use qty price in simp_all)
  ultimately show ?thesis by simp
qed

lemma gen_market_inv:
  assumes inv: "gen_inv st" and len: "length (gen_actions st) < 2 ^ 62" and S: "sampler_ok spread_half S"
  shows "gen_inv (gen_market S i st) \<and> length (gen_actions (gen_market S i st)) = Suc (length (gen_actions st))"
proof -
  obtain side_roll r1 where d1: "draw_side S (gen_rng st) = (side_roll, r1)"
    by (cases "draw_side S (gen_rng st)")
  obtain q r2 where d2: "draw_quantity S r1 = (q, r2)" by (cases "draw_quantity S r1")
  have q: "q \<le> 500" using S d2 unfolding sampler_ok_def by (metis fst_conv)
  define qty where "qty = (if q div 2 = 0 then 10 else q div 2)"
  have qty: "qty \<noteq> 0" "qty \<le> 500"
    using q by (auto simp: qty_def word_le_nat_alt unat_div)
  let ?a = "new_order (next_id st) 0 qty i (if side_roll = 0 then Buy else Sell) Market"
  have run: "gen_market S i st = st\<lparr>gen_rng := r2, next_id := next_id st + 1, gen_actions := gen_actions st @ [?a]\<rparr>"
    by (simp add: gen_market_def d1 d2 qty_def Let_def)
  have "gen_inv (gen_market S i st)"
    by (rule gen_inv_new [OF inv len, of ?a 0 qty i _ Market]) (use qty in \<open>simp_all add: run\<close>)
  with run show ?thesis by simp
qed

lemma gen_cancel_inv:
  assumes inv: "gen_inv st" and len: "length (gen_actions st) < 2 ^ 62" and S: "sampler_ok spread_half S"
    and ne: "active_order_ids st \<noteq> []" and short: "length (active_order_ids st) \<le> length (gen_actions st)"
  shows "\<exists>st'. gen_cancel S st = Some st' \<and> gen_inv st'
    \<and> length (gen_actions st') = Suc (length (gen_actions st))"
proof -
  let ?ids = "active_order_ids st"
  obtain k r where d: "draw_index S (word_of_nat (length ?ids) - 1) (gen_rng st) = (k, r)"
    by (cases "draw_index S (word_of_nat (length ?ids) - 1) (gen_rng st)")
  have l: "length ?ids < 2 ^ 64" "0 < length ?ids" using short len ne by simp_all
  have bound: "k \<le> word_of_nat (length ?ids) - 1" using S d unfolding sampler_ok_def by (metis fst_conv)
  have pred: "(word_of_nat (length ?ids) - 1 :: u64) = word_of_nat (length ?ids - 1)"
    using l(2) by (cases "length ?ids") simp_all
  have val: "unat (word_of_nat (length ?ids - 1) :: u64) = length ?ids - 1"
    using l by (simp add: unat_of_nat take_bit_nat_eq_self)
  have "unat k \<le> length ?ids - 1"
    using bound unfolding word_le_nat_alt pred val .
  then have k: "unat k < length ?ids" using l(2) by linarith
  define a where "a = \<lparr>action_type = CancelOrder, act_order = default_order, act_cancel_id = ?ids ! unat k\<rparr>"
  let ?st = "st\<lparr>gen_rng := r, active_order_ids := butlast (?ids[unat k := last ?ids]),
    gen_actions := gen_actions st @ [a]\<rparr>"
  have run: "gen_cancel S st = Some ?st" using k by (simp add: gen_cancel_def d a_def Let_def)
  have a: "new_orders [a] = []" "limit_ids [a] = {}" "cancelled [a] = {?ids ! unat k}"
    by (auto simp: a_def limit_ids_def cancelled_def)
  have named: "?ids ! unat k \<in> limit_ids (gen_actions st) - cancelled (gen_actions st)"
  proof -
    have "?ids ! unat k \<in> set ?ids" using k by simp
    then show ?thesis using inv unfolding gen_inv_def by blast
  qed
  then have "action_ok (gen_actions st) a" by (simp add: action_ok_def a_def)
  then have acts: "workload_ok [] (gen_actions st @ [a])"
    using inv by (simp add: gen_inv_def workload_ok_append)
  note popped = swap_and_pop_distinct [OF k]
  have "set ?ids - {?ids ! unat k} \<subseteq> limit_ids (gen_actions st) - insert (?ids ! unat k) (cancelled (gen_actions st))"
    using inv by (auto simp: gen_inv_def)
  then have "gen_inv ?st"
    using inv named popped acts a by (simp add: gen_inv_def)
  with run show ?thesis by simp
qed

lemma active_short:
  assumes "gen_inv st"
  shows "length (active_order_ids st) \<le> length (gen_actions st)"
proof -
  have "length (active_order_ids st) = card (set (active_order_ids st))"
    using assms by (simp add: gen_inv_def distinct_card)
  also have "\<dots> \<le> card (limit_ids (gen_actions st))"
    using assms by (intro card_mono) (auto simp: gen_inv_def limit_ids_def)
  also have "\<dots> \<le> card (set (new_orders (gen_actions st)))"
    unfolding limit_ids_def by (rule order_trans [OF card_image_le card_mono]) auto
  also have "\<dots> \<le> length (gen_actions st)"
    using card_length length_new_orders order_trans by blast
  finally show ?thesis .
qed

lemma gen_action_inv:
  assumes inv: "gen_inv st" and len: "length (gen_actions st) < 2 ^ 62"
    and S: "sampler_ok spread_half S" and mid: "mid_price < 2 ^ 62"
  shows "\<exists>st'. gen_action S type mid_price spread_half i st = Some st' \<and> gen_inv st'
    \<and> length (gen_actions st') = Suc (length (gen_actions st))"
proof -
  obtain new_pct cancel_pct where p: "percentages type = (new_pct, cancel_pct)" by (cases "percentages type")
  obtain roll r where d: "draw_percent S (gen_rng st) = (roll, r)" by (cases "draw_percent S (gen_rng st)")
  let ?st = "st\<lparr>gen_rng := r\<rparr>"
  have inv': "gen_inv ?st" using inv by (simp add: gen_inv_def)
  have len': "length (gen_actions ?st) < 2 ^ 62" using len by simp
  have run: "gen_action S type mid_price spread_half i st =
      (if roll < new_pct \<or> active_order_ids ?st = [] then gen_limit S mid_price spread_half i ?st
       else if roll < new_pct + cancel_pct then gen_cancel S ?st else Some (gen_market S i ?st))"
    by (simp add: gen_action_def p d)
  show ?thesis
    using gen_limit_inv [OF inv' len' S mid, of i] gen_cancel_inv [OF inv' len' S _ active_short [OF inv']]
      gen_market_inv [OF inv' len' S, of i]
    unfolding run by (simp split: if_splits)
qed

lemma gen_loop_inv:
  assumes "gen_inv st" "length (gen_actions st) + n < 2 ^ 62" "sampler_ok spread_half S" "mid_price < 2 ^ 62"
  shows "\<exists>st'. gen_loop n S type mid_price spread_half i st = Some st' \<and> gen_inv st'
    \<and> length (gen_actions st') = length (gen_actions st) + n"
  using assms(1,2)
proof (induction n arbitrary: i st)
  case (Suc n)
  obtain st1 where st1: "gen_action S type mid_price spread_half i st = Some st1" "gen_inv st1"
    "length (gen_actions st1) = Suc (length (gen_actions st))"
    using gen_action_inv [OF Suc.prems(1) _ assms(3,4), of type i] Suc.prems(2) by auto
  have "length (gen_actions st1) + n < 2 ^ 62" using Suc.prems(2) st1(3) by simp
  from Suc.IH [OF st1(2) this, of "i + 1"] st1 show ?case by auto
qed simp

lemma generate_ok:
  assumes "sampler_ok spread_half S" "mid_price < 2 ^ 62" "unat action_count < 2 ^ 62"
  shows "\<exists>acts. generate S type action_count seed mid_price spread_half = Some acts
    \<and> length acts = unat action_count \<and> workload_ok [] acts"
proof -
  let ?st = "\<lparr>gen_rng = seed_engine S seed, gen_actions = [], active_order_ids = [], next_id = 1\<rparr>"
  have "gen_inv ?st" by (simp add: gen_inv_def limit_ids_def cancelled_def)
  from gen_loop_inv [OF this _ assms(1,2), of "unat action_count" type 0] assms(3)
  show ?thesis by (auto simp: generate_def gen_inv_def)
qed

section \<open>What an engine answers\<close>

lemma lob_submit_ids:
  assumes "lob_submit ord bk = (ok, ts, bk')"
  shows "lob_ids bk' \<subseteq> insert (order_id ord) (lob_ids bk)"
proof (cases "acceptable ord \<and> order_id ord \<notin> lob_ids bk")
  case False
  with assms show ?thesis by (auto simp: lob_submit_def)
next
  case True
  let ?opp = "opposite (side ord)"
  obtain ord' rest where m: "lob_match (normalise ord) (bk ?opp) = (ts, ord', rest)"
    and bk': "bk' = lob_settle ord' (bk(?opp := rest))"
    using assms True by (auto simp: lob_submit_def Let_def split: prod.splits)
  have "order_id ` set rest \<subseteq> order_id ` set (bk ?opp)"
    by (rule lob_match_rest [OF m]) (metis list.set_map set_mono_suffix)
  then have sub: "lob_ids (bk(?opp := rest)) \<subseteq> lob_ids bk"
    by (auto simp: lob_ids_side [of _ "side ord"])
  have "order_id ord' = order_id ord" using lob_match_frame_sel(1) [OF m] by simp
  then have "lob_ids (lob_settle ord' b) \<subseteq> insert (order_id ord) (lob_ids b)" for b
    by (auto simp: lob_settle_def lob_ids_side [of _ "side ord'"])
  with sub bk' show ?thesis by blast
qed

lemma lob_cancel_ids: "lob_cancel i bk = (ok, bk') \<Longrightarrow> lob_ids bk' \<subseteq> lob_ids bk"
  by (auto simp: lob_cancel_def lob_ids_def lob_orders_def)

text \<open>Every new order of a well-formed workload is accepted.\<close>

lemma workload_accepted:
  assumes "workload_ok prev acts" "length prev + length acts < 2 ^ 62"
    and "lob_ids bk \<subseteq> ids_upto (length (new_orders prev))"
    and "lob_run acts bk = (rs, ts, bk')"
  shows "list_all2 (\<lambda>a ok. action_type a = NewOrder \<longrightarrow> ok) acts rs"
  using assms
proof (induction acts arbitrary: prev bk rs ts)
  case Nil
  then show ?case by simp
next
  case (Cons a acts)
  have ok: "action_ok prev a" "workload_ok (prev @ [a]) acts" using Cons.prems(1) by simp_all
  let ?n = "length (new_orders prev)"
  show ?case
  proof (cases "action_type a = NewOrder")
    case True
    obtain res ts1 bk1 where s: "lob_submit (act_order a) bk = (res, ts1, bk1)"
      by (cases "lob_submit (act_order a) bk")
    obtain rs2 ts2 where r: "lob_run acts bk1 = (rs2, ts2, bk')" "rs = res # rs2"
      using Cons.prems(4) True s by (auto split: prod.splits)
    have a: "order_id (act_order a) = word_of_nat (Suc ?n)" "acceptable (act_order a)"
      using ok(1) True by (simp_all add: action_ok_def)
    have "?n < 2 ^ 64 - 1" using Cons.prems(2) length_new_orders [of prev] by simp
    then have "order_id (act_order a) \<notin> lob_ids bk" using next_id_fresh a(1) Cons.prems(3) by (metis subsetD)
    then have "res" using s a(2) by (auto simp: lob_submit_def Let_def split: prod.splits)
    have "lob_ids bk1 \<subseteq> ids_upto (length (new_orders (prev @ [a])))"
      using lob_submit_ids [OF s] Cons.prems(3) a(1) True by (auto simp: ids_upto_Suc)
    from Cons.IH [OF ok(2) _ this r(1)] Cons.prems(2) \<open>res\<close> r(2) show ?thesis by simp
  next
    case False
    obtain res bk1 where s: "lob_cancel (act_cancel_id a) bk = (res, bk1)"
      by (cases "lob_cancel (act_cancel_id a) bk")
    obtain rs2 where r: "lob_run acts bk1 = (rs2, ts, bk')" "rs = res # rs2"
      using Cons.prems(4) False s by (auto split: prod.splits)
    have "lob_ids bk1 \<subseteq> ids_upto (length (new_orders (prev @ [a])))"
      using lob_cancel_ids [OF s] Cons.prems(3) False by auto
    from Cons.IH [OF ok(2) _ this r(1)] Cons.prems(2) False r(2) show ?thesis by simp
  qed
qed

end
