(* ===== verification/Latency_Stats.thy ===== *)
theory Latency_Stats
  imports Complex_Main Titan_Prelude "HOL-Library.Monad_Syntax"
begin

text \<open>
  The latency statistics of the two benchmarks: \<^verbatim>\<open>calculate_stats\<close> of
  \<^verbatim>\<open>include/workload.hpp\<close> and \<^verbatim>\<open>compute_latency_stats\<close> of
  \<^verbatim>\<open>benchmarks/benchmark_spsc.cpp\<close>. A \<^verbatim>\<open>double\<close> is a real number and each
  operation on doubles rounds its exact result by the argument \<open>rnd\<close>, of which
  \<open>ieee_rounding\<close> states what IEEE 754 binary64 guarantees in the range used here. A quotient by zero is not
  a real number; the one field where it can occur is \<open>None\<close> then. An index past the end of the
  vector has no defined behaviour and makes the result \<open>None\<close>.
\<close>

section \<open>Rounding\<close>

definition ieee_rounding :: "(real \<Rightarrow> real) \<Rightarrow> bool" where
  "ieee_rounding rnd \<longleftrightarrow>
     (\<forall>x y. x \<le> y \<longrightarrow> rnd x \<le> rnd y) \<and> (\<forall>x. rnd (- x) = - rnd x)
     \<and> (\<forall>k :: nat. k \<le> 2 ^ 53 \<longrightarrow> rnd (real k) = real k)
     \<and> (\<forall>x. 1 / 2 ^ 10 \<le> x \<and> x \<le> 2 ^ 64 \<longrightarrow> \<bar>rnd x - x\<bar> \<le> x / 2 ^ 53)"

definition double_of :: "(real \<Rightarrow> real) \<Rightarrow> u64 \<Rightarrow> real" where
  "double_of rnd w = rnd (real (unat w))"

definition elem :: "'a list \<Rightarrow> nat \<Rightarrow> 'a option" where
  "elem xs i = (if i < length xs then Some (xs ! i) else None)"

section \<open>The engine benchmark\<close>

record benchmark_stats =
  total_time_ms :: real
  ops_per_sec :: "real option"
  p50_ns :: real
  p95_ns :: real
  p99_ns :: real
  p99_9_ns :: real
  max_ns :: real
  mean_ns :: real
  total_trades :: u64
  total_orders_in_book :: u64

text \<open>\<^verbatim>\<open>latencies_ns[static_cast<size_t>(n * fraction)]\<close>\<close>

definition percentile :: "(real \<Rightarrow> real) \<Rightarrow> real \<Rightarrow> u64 list \<Rightarrow> real option" where
  "percentile rnd fraction latencies_ns =
     (let x = rnd (rnd (real (length latencies_ns)) * rnd fraction)
      in if 0 \<le> x \<and> x < 2 ^ 64 then map_option (double_of rnd) (elem latencies_ns (nat \<lfloor>x\<rfloor>))
         else None)"

definition calculate_stats ::
    "(real \<Rightarrow> real) \<Rightarrow> u64 list \<Rightarrow> real \<Rightarrow> u64 \<Rightarrow> u64 \<Rightarrow> (benchmark_stats \<times> u64 list) option" where
  "calculate_stats rnd latencies_ns total_ms trade_count final_book_orders =
     (let stats = \<lparr>total_time_ms = total_ms, ops_per_sec = Some 0, p50_ns = 0, p95_ns = 0, p99_ns = 0,
        p99_9_ns = 0, max_ns = 0, mean_ns = 0, total_trades = trade_count,
        total_orders_in_book = final_book_orders\<rparr>
      in if latencies_ns = [] then Some (stats, latencies_ns)
         else
           let latencies_ns = sort latencies_ns; n = length latencies_ns; seconds = rnd (total_ms / 1000)
           in do {
             p50 \<leftarrow> percentile rnd (1 / 2) latencies_ns;
             p95 \<leftarrow> percentile rnd (95 / 100) latencies_ns;
             p99 \<leftarrow> percentile rnd (99 / 100) latencies_ns;
             p99_9 \<leftarrow> percentile rnd (999 / 1000) latencies_ns;
             Some (stats\<lparr>ops_per_sec := (if seconds = 0 then None else Some (rnd (rnd (real n) / seconds))),
                p50_ns := p50, p95_ns := p95, p99_ns := p99, p99_9_ns := p99_9,
                max_ns := double_of rnd (last latencies_ns),
                mean_ns := rnd (double_of rnd (sum_list latencies_ns) / rnd (real n))\<rparr>, latencies_ns)
           })"

section \<open>The queue benchmark\<close>

record latency_stats =
  samples :: u64
  mean_latency :: real
  p50_latency :: real
  p95_latency :: real
  p99_latency :: real
  max_latency :: real

text \<open>\<^verbatim>\<open>latencies_ns[n * pct / 100]\<close>, in 64-bit arithmetic.\<close>

definition rank :: "(real \<Rightarrow> real) \<Rightarrow> u64 \<Rightarrow> u64 list \<Rightarrow> real option" where
  "rank rnd pct latencies_ns =
     map_option (double_of rnd) (elem latencies_ns (unat (word_of_nat (length latencies_ns) * pct div 100)))"

definition compute_latency_stats ::
    "(real \<Rightarrow> real) \<Rightarrow> u64 list \<Rightarrow> nat \<Rightarrow> (latency_stats \<times> u64 list) option" where
  "compute_latency_stats rnd latencies_ns warmup =
     (let stats = \<lparr>samples = 0, mean_latency = 0, p50_latency = 0, p95_latency = 0, p99_latency = 0,
        max_latency = 0\<rparr>
      in if length latencies_ns \<le> warmup then Some (stats, latencies_ns)
         else
           let latencies_ns = sort (drop warmup latencies_ns); n = length latencies_ns
           in do {
             p50 \<leftarrow> rank rnd 50 latencies_ns;
             p95 \<leftarrow> rank rnd 95 latencies_ns;
             p99 \<leftarrow> rank rnd 99 latencies_ns;
             Some (stats\<lparr>samples := word_of_nat n, p50_latency := p50, p95_latency := p95,
                p99_latency := p99, max_latency := double_of rnd (last latencies_ns),
                mean_latency := rnd (double_of rnd (sum_list latencies_ns) / rnd (real n))\<rparr>, latencies_ns)
           })"

section \<open>The ranks are in range and in order\<close>

lemma ieee_roundingD:
  assumes "ieee_rounding rnd"
  shows "x \<le> y \<Longrightarrow> rnd x \<le> rnd y" "k \<le> 2 ^ 53 \<Longrightarrow> rnd (real k) = real k"
    "1 / 2 ^ 10 \<le> z \<Longrightarrow> z \<le> 2 ^ 64 \<Longrightarrow> \<bar>rnd z - z\<bar> \<le> z / 2 ^ 53" "rnd (- x) = - rnd x"
  using assms unfolding ieee_rounding_def by blast+

lemma double_of_mono:
  assumes "ieee_rounding rnd" "v \<le> w"
  shows "double_of rnd v \<le> double_of rnd w"
  unfolding double_of_def
  by (rule ieee_roundingD(1) [OF assms(1)]) (use assms(2) in \<open>simp only: word_le_nat_alt of_nat_le_iff\<close>)

lemma sorted_last: "sorted xs \<Longrightarrow> i < length xs \<Longrightarrow> xs ! i \<le> last xs"
  by (cases "xs = []") (auto simp: last_conv_nth intro!: sorted_nth_mono)

definition position :: "(real \<Rightarrow> real) \<Rightarrow> real \<Rightarrow> nat \<Rightarrow> nat" where
  "position rnd fraction n = nat \<lfloor>rnd (rnd (real n) * rnd fraction)\<rfloor>"

lemma position_bounds:
  assumes rnd: "ieee_rounding rnd" and n: "0 < n" "n < 2 ^ 53" and q: "1 / 2 \<le> q" "q \<le> 999 / 1000"
  shows "0 \<le> rnd (rnd (real n) * rnd q)" "rnd (rnd (real n) * rnd q) < real n" "position rnd q n < n"
proof -
  have exact: "rnd (real n) = real n"
    using n by (intro ieee_roundingD(2) [OF rnd]) simp
  have close: "x - x / 1000000 \<le> rnd x \<and> rnd x \<le> x + x / 1000000" if "1 / 2 ^ 10 \<le> x" "x \<le> 2 ^ 64" for x
  proof -
    have "\<bar>rnd x - x\<bar> \<le> x / 2 ^ 53" by (rule ieee_roundingD(3) [OF rnd that])
    also have "x / 2 ^ 53 \<le> x / 1000000"
      using that(1) by (intro divide_left_mono) simp_all
    finally show ?thesis unfolding abs_le_iff by auto
  qed
  have q': "49 / 100 \<le> rnd q" "rnd q \<le> 9991 / 10000"
    using close [of q] q by simp_all
  define y where "y = real n * rnd q"
  have size: "1 \<le> real n" "real n \<le> 9007199254740992" using n by simp_all
  have "real n * (49 / 100) \<le> y" "y \<le> real n * (9991 / 10000)"
    using q' size(1) unfolding y_def by (intro mult_left_mono; simp)+
  with size have y: "49 / 100 \<le> y" "y \<le> real n * (9991 / 10000)" "y \<le> 9007199254740992"
    by simp_all
  then have "y - y / 1000000 \<le> rnd y \<and> rnd y \<le> y + y / 1000000"
    by (intro close) simp_all
  with y size have "0 \<le> rnd y" "rnd y < real n" by simp_all
  then show r: "0 \<le> rnd (rnd (real n) * rnd q)" "rnd (rnd (real n) * rnd q) < real n"
    by (simp_all add: exact y_def)
  then show "position rnd q n < n"
    unfolding position_def by linarith
qed

lemma percentile_at:
  assumes rnd: "ieee_rounding rnd" and n: "xs \<noteq> []" "length xs < 2 ^ 53"
    and q: "1 / 2 \<le> q" "q \<le> 999 / 1000"
  shows "percentile rnd q xs = Some (double_of rnd (xs ! position rnd q (length xs)))"
    "position rnd q (length xs) < length xs"
proof -
  have "0 < length xs" using n(1) by simp
  note b = position_bounds [OF rnd this n(2) q]
  have "real (length xs) < 9007199254740992" using n(2) by simp
  then have "rnd (rnd (real (length xs)) * rnd q) < 2 ^ 64" using b(2) by simp
  with b show "percentile rnd q xs = Some (double_of rnd (xs ! position rnd q (length xs)))"
    "position rnd q (length xs) < length xs"
    by (simp_all add: percentile_def elem_def position_def)
qed

lemma position_mono:
  assumes rnd: "ieee_rounding rnd" and "n < 2 ^ 53" "p \<le> q"
  shows "position rnd p n \<le> position rnd q n"
proof -
  note mono = ieee_roundingD(1) [OF rnd]
  have "rnd (real n) = real n" using assms(2) by (intro ieee_roundingD(2) [OF rnd]) simp
  then have "rnd (real n) * rnd p \<le> rnd (real n) * rnd q"
    using mono [OF assms(3)] by (simp add: mult_left_mono)
  from mono [OF this] show ?thesis
    unfolding position_def by (intro nat_mono floor_mono)
qed

lemma rank_at:
  assumes "xs \<noteq> []" "length xs < 2 ^ 53" "pct < 100"
  shows "rank rnd pct xs = Some (double_of rnd (xs ! (length xs * unat pct div 100)))"
    "length xs * unat pct div 100 < length xs"
proof -
  have pct: "unat pct < 100" using assms(3) by (simp add: word_less_nat_alt)
  then have "length xs * unat pct \<le> 2 ^ 53 * 100"
    using assms(2) by (intro mult_le_mono) simp_all
  then have small: "length xs * unat pct < 2 ^ 64" by simp
  have len: "unat (word_of_nat (length xs) :: u64) = length xs"
    using assms(2) by (simp add: unat_of_nat take_bit_nat_eq_self)
  have "unat (word_of_nat (length xs) * pct div 100) = length xs * unat pct div 100"
    using small by (simp add: unat_div unat_word_ariths len)
  moreover show "length xs * unat pct div 100 < length xs"
  proof -
    have "length xs * unat pct < length xs * 100" using assms(1) pct by simp
    then show ?thesis by (simp add: less_mult_imp_div_less)
  qed
  ultimately show "rank rnd pct xs = Some (double_of rnd (xs ! (length xs * unat pct div 100)))"
    by (simp add: rank_def elem_def)
qed

end
