(* ===== verification/Differential_Test.thy ===== *)
theory Differential_Test
  imports Workload Stl_Refinement Pool_Refinement
begin

text \<open>
  The differential test of \<^verbatim>\<open>tests/test_differential.cpp\<close>: a generated workload is run
  through both engines in lockstep and after each action the verdicts, the last trades, the
  numbers of resting orders and the best prices are compared. A failed assertion ends the
  program; it is the result \<^verbatim>\<open>False\<close> here.
\<close>

section \<open>The test\<close>

definition last_trades_match :: "trade list \<Rightarrow> trade list \<Rightarrow> bool" where
  "last_trades_match stl_trades pool_trades \<longleftrightarrow>
     length stl_trades = length pool_trades
     \<and> (stl_trades \<noteq> [] \<longrightarrow>
          (let t_stl = last stl_trades; t_pool = last pool_trades in
           maker_order_id t_stl = maker_order_id t_pool \<and> taker_order_id t_stl = taker_order_id t_pool
           \<and> trade_price t_stl = trade_price t_pool \<and> trade_quantity t_stl = trade_quantity t_pool
           \<and> aggressor_side t_stl = aggressor_side t_pool))"

definition books_match :: "stl_book \<Rightarrow> pool_book \<Rightarrow> bool" where
  "books_match stl_book pool_book \<longleftrightarrow>
     stl_total_orders stl_book = pool_total_orders pool_book
     \<and> stl_best_bid stl_book = pool_best_bid pool_book \<and> stl_best_ask stl_book = pool_best_ask pool_book"

definition apply_action ::
    "(order \<Rightarrow> trade list \<Rightarrow> 'b \<Rightarrow> (bool \<times> trade list \<times> 'b) option)
      \<Rightarrow> (order_id \<Rightarrow> 'b \<Rightarrow> (bool \<times> 'b) option)
      \<Rightarrow> order_action \<Rightarrow> trade list \<Rightarrow> 'b \<Rightarrow> (bool \<times> trade list \<times> 'b) option" where
  "apply_action submit_order cancel_order act trades book =
     (if action_type act = NewOrder then submit_order (act_order act) trades book
      else do { (res, book) \<leftarrow> cancel_order (act_cancel_id act) book; Some (res, trades, book) })"

fun differential_loop ::
    "order_action list \<Rightarrow> trade list \<Rightarrow> stl_book \<Rightarrow> trade list \<Rightarrow> pool_book \<Rightarrow> bool option" where
  "differential_loop [] stl_trades stl_book pool_trades pool_book = Some True"
| "differential_loop (act # actions) stl_trades stl_book pool_trades pool_book =
     do {
       (stl_res, stl_trades, stl_book) \<leftarrow>
         apply_action stl_submit_order stl_cancel_order act stl_trades stl_book;
       (pool_res, pool_trades, pool_book) \<leftarrow>
         apply_action pool_submit_order pool_cancel_order act pool_trades pool_book;
       if stl_res = pool_res \<and> last_trades_match stl_trades pool_trades \<and> books_match stl_book pool_book
       then differential_loop actions stl_trades stl_book pool_trades pool_book
       else Some False
     }"

definition test_differential_fuzzing :: "'r sampler \<Rightarrow> u64 \<Rightarrow> u64 \<Rightarrow> bool option" where
  "test_differential_fuzzing S test_size seed =
     do {
       actions \<leftarrow> generate S Balanced test_size seed 10000 50;
       differential_loop actions [] stl_empty [] (pool_new (unat test_size))
     }"

section \<open>It passes\<close>

definition spec_action :: "order_action \<Rightarrow> lob \<Rightarrow> bool \<times> trade list \<times> lob" where
  "spec_action act bk =
     (if action_type act = NewOrder then lob_submit (act_order act) bk
      else (case lob_cancel (act_cancel_id act) bk of (res, bk') \<Rightarrow> (res, [], bk')))"

text \<open>One action on either engine is that action on the price-time book.\<close>

lemma stl_action:
  assumes "stl_inv b" "spec_action act (stl_abs b) = (res, ts1, bk')"
  shows "\<exists>b'. apply_action stl_submit_order stl_cancel_order act ts b = Some (res, ts @ ts1, b')
    \<and> stl_inv b' \<and> stl_abs b' = bk'"
proof (cases "action_type act = NewOrder")
  case True
  with assms stl_submit_refines [OF assms(1), of "act_order act" res ts1 bk' ts] show ?thesis
    by (simp add: apply_action_def spec_action_def)
next
  case False
  obtain res' bk2 where l: "lob_cancel (act_cancel_id act) (stl_abs b) = (res', bk2)"
    by (cases "lob_cancel (act_cancel_id act) (stl_abs b)")
  with assms(2) False have "res' = res" "bk2 = bk'" "ts1 = []" by (simp_all add: spec_action_def)
  with False stl_cancel_refines [OF assms(1) l] show ?thesis by (auto simp: apply_action_def)
qed

lemma pool_action:
  assumes "pool_inv b" "pool_room (Suc n) b" "spec_action act (pool_abs b) = (res, ts1, bk')"
  shows "\<exists>b'. apply_action pool_submit_order pool_cancel_order act ts b = Some (res, ts @ ts1, b')
    \<and> pool_inv b' \<and> pool_room n b' \<and> pool_abs b' = bk'"
proof (cases "action_type act = NewOrder")
  case True
  with assms(3) have "lob_submit (act_order act) (pool_abs b) = (res, ts1, bk')"
    by (simp add: spec_action_def)
  from pool.submit_refines [OF assms(1,2) this, of ts] True show ?thesis
    by (simp add: apply_action_def)
next
  case False
  obtain res' bk2 where l: "lob_cancel (act_cancel_id act) (pool_abs b) = (res', bk2)"
    by (cases "lob_cancel (act_cancel_id act) (pool_abs b)")
  with assms(3) False have "res' = res" "bk2 = bk'" "ts1 = []" by (simp_all add: spec_action_def)
  with False pool.cancel_refines [OF assms(1) pool.room_mono [OF assms(2)] l] show ?thesis
    by (auto simp: apply_action_def)
qed

lemma books_match_abs:
  assumes "stl_inv sb" "pool_inv pb" "stl_abs sb = pool_abs pb"
  shows "books_match sb pb"
  using assms by (simp add: books_match_def stl_best_correct pool_best_correct
      stl_total_correct pool_total_correct)

lemma differential_loop_passes:
  assumes "stl_inv sb" "pool_inv pb" "stl_abs sb = pool_abs pb" "pool_room (length actions) pb"
  shows "differential_loop actions ts sb ts pb = Some True"
  using assms
proof (induction actions arbitrary: ts sb pb)
  case (Cons act actions)
  obtain res ts1 bk' where spec: "spec_action act (stl_abs sb) = (res, ts1, bk')"
    by (cases "spec_action act (stl_abs sb)")
  obtain sb' where sb': "apply_action stl_submit_order stl_cancel_order act ts sb = Some (res, ts @ ts1, sb')"
    "stl_inv sb'" "stl_abs sb' = bk'"
    using stl_action [OF Cons.prems(1) spec] by blast
  have room: "pool_room (Suc (length actions)) pb" using Cons.prems(4) by simp
  obtain pb' where pb': "apply_action pool_submit_order pool_cancel_order act ts pb = Some (res, ts @ ts1, pb')"
    "pool_inv pb'" "pool_room (length actions) pb'" "pool_abs pb' = bk'"
    using pool_action [OF Cons.prems(2) room, of act res ts1 bk' ts] spec Cons.prems(3) by auto
  have "books_match sb' pb'" using books_match_abs sb' pb' by simp
  moreover have "last_trades_match (ts @ ts1) (ts @ ts1)" by (simp add: last_trades_match_def)
  moreover have "differential_loop actions (ts @ ts1) sb' (ts @ ts1) pb' = Some True"
    using Cons.IH sb' pb' by simp
  ultimately show ?case using sb'(1) pb'(1) by simp
qed simp

end
