(* ===== verification/Benchmark_Properties.thy ===== *)
theory Benchmark_Properties
  imports Pipeline_Liveness Workload Latency_Stats Differential_Test
begin

text \<open>
  The properties of the benchmark programs: the workloads they generate, the two-thread pipeline
  they run them through, and the statistics they report.
\<close>

section \<open>Workloads\<close>

text \<open>A sampler within the ranges of the standard's distributions, driven by a congruential engine.\<close>

definition lcg :: "u64 \<Rightarrow> u64" where
  "lcg r = r * 6364136223846793005 + 1442695040888963407"

definition lcg_sampler :: "u64 sampler" where
  "lcg_sampler =
     \<lparr>seed_engine = (\<lambda>s. lcg s),
      draw_percent = (\<lambda>r. (uint r mod 100, lcg r)),
      draw_side = (\<lambda>r. (uint r mod 2, lcg r)),
      draw_offset = (\<lambda>spread r. (uint r mod 101 - 50, lcg r)),
      draw_quantity = (\<lambda>r. (word_of_int (10 + uint r mod 491), lcg r)),
      draw_index = (\<lambda>n r. (min n r, lcg r))\<rparr>"

lemma lcg_sampler_ok: "sampler_ok spread_half lcg_sampler"
proof -
  have m: "0 \<le> uint r mod k" "uint r mod k < k" if "0 < k" for r :: u64 and k
    using that by simp_all
  have side: "uint r mod 2 \<in> {0, 1}" for r :: u64 using m [of 2 r] by auto
  have off: "\<bar>uint r mod 101 - 50\<bar> < 2 ^ 62" for r :: u64
    using m [of 101 r] unfolding abs_less_iff by auto
  have q: "uint (word_of_int (10 + uint r mod 491) :: quantity) = 10 + uint r mod 491" for r :: u64
    using m [of 491 r] by (intro word_of_int_inverse) auto
  have qty: "10 \<le> (word_of_int (10 + uint r mod 491) :: quantity)"
    "(word_of_int (10 + uint r mod 491) :: quantity) \<le> 500" for r :: u64
    using m [of 491 r] unfolding word_le_def q by auto
  have pct: "uint r mod 100 \<le> 99" for r :: u64 using m [of 100 r] by auto
  show ?thesis
    unfolding sampler_ok_def lcg_sampler_def sampler.simps fst_conv
    using side off qty pct m(1) by auto
qed

text \<open>C34. Workloads. For draws within the ranges of the distributions and a mid price below \<open>2 ^ 62\<close>
  the generator returns exactly the number of actions asked for; their new orders are numbered
  1, 2, 3 and on, can be accepted, and have prices of at least 100 and quantities within the
  ranges; each cancel names a limit order generated before it and not yet cancelled. Run on a new
  pool engine, every new order of the workload is accepted.\<close>

theorem generated_workload_accepted:
  assumes "sampler_ok spread_half S" "mid_price < 2 ^ 62" "unat action_count \<le> 2 ^ 31"
    and "initial_capacity < 2 ^ 32"
  shows "case generate S type action_count seed mid_price spread_half of
      None \<Rightarrow> False
    | Some acts \<Rightarrow> length acts = unat action_count \<and> workload_ok [] acts
        \<and> (case run_actions pool_submit_order pool_cancel_order acts [] (pool_new initial_capacity) of
             None \<Rightarrow> False
           | Some (rs, _, _) \<Rightarrow> list_all2 (\<lambda>a ok. action_type a = NewOrder \<longrightarrow> ok) acts rs)"
proof -
  have "unat action_count < 2 ^ 62" using assms(3) by simp
  then obtain acts where acts: "generate S type action_count seed mid_price spread_half = Some acts"
    "length acts = unat action_count" "workload_ok [] acts"
    using generate_ok [OF assms(1,2)] by blast
  obtain rs ts bk where run: "lob_run acts lob_empty = (rs, ts, bk)" by (cases "lob_run acts lob_empty")
  have "length acts \<le> 2 ^ 31" using acts(2) assms(3) by simp
  from pool_run_new [OF assms(4) this run]
  obtain b where b: "run_actions pool_submit_order pool_cancel_order acts [] (pool_new initial_capacity)
    = Some (rs, ts, b)" by blast
  have "list_all2 (\<lambda>a ok. action_type a = NewOrder \<longrightarrow> ok) acts rs"
    by (rule workload_accepted [OF acts(3) _ _ run])
      (use \<open>length acts \<le> 2 ^ 31\<close> in \<open>simp_all add: lob_ids_def lob_orders_def lob_empty_def\<close>)
  with acts b show ?thesis by simp
qed

theorem generated_workload_accepted_witness:
  "\<exists>acts. generate lcg_sampler CancelHeavy 6 42 10000 50 = Some acts \<and> length acts = 6
    \<and> map action_type acts = [NewOrder, CancelOrder, NewOrder, CancelOrder, NewOrder, NewOrder]"
proof -
  have "map_option (map action_type) (generate lcg_sampler CancelHeavy 6 42 10000 50)
      = Some [NewOrder, CancelOrder, NewOrder, CancelOrder, NewOrder, NewOrder]"
    by code_simp
  with generated_workload_accepted [OF lcg_sampler_ok, of 10000 6 2 CancelHeavy 42 50] show ?thesis
    by (auto split: option.splits)
qed

text \<open>The differential test passes whatever the seed, for any number of operations the pool's
  indices can address: no call is undefined and after every action the engines agree on the
  verdict, the trades, the number of resting orders and the best prices.\<close>

theorem differential_test_passes:
  assumes "sampler_ok 50 S" "unat test_size \<le> 2 ^ 31"
  shows "test_differential_fuzzing S test_size seed = Some True"
proof -
  have small: "unat test_size < 2 ^ 62" using assms(2) by simp
  obtain acts where acts: "generate S Balanced test_size seed 10000 50 = Some acts"
    "length acts = unat test_size"
    using generate_ok [OF assms(1) _ small, of 10000 Balanced seed] by auto
  have "differential_loop acts [] stl_empty [] (pool_new (unat test_size)) = Some True"
    by (rule differential_loop_passes)
      (use assms(2) acts(2) in \<open>simp_all add: pool_new_correct pool_new_room stl_empty_correct\<close>)
  with acts(1) show ?thesis by (simp add: test_differential_fuzzing_def)
qed

theorem differential_test_passes_witness:
  "test_differential_fuzzing lcg_sampler 50000 1337 = Some True"
  by (rule differential_test_passes [OF lcg_sampler_ok]) simp

section \<open>The pipeline\<close>

text \<open>C35. The two-thread benchmarks. In every state either loop can reach, the matching thread is
  defined; in the closed loop the counter of unacknowledged commands is exact and never above the
  window. When the matching thread has left, every action was matched once and in order: the
  book is the one a single-threaded run ends with, and in the closed loop every command was
  acknowledged.\<close>

theorem pipeline_matches_all:
  assumes "bench_start queue_capacity initial_capacity = Some s0"
    and "unat queue_capacity \<le> 2 ^ 63" "initial_capacity < 2 ^ 32" "length acts \<le> 2 ^ 31"
    and "(bench_step acks acts batch_size window)\<^sup>*\<^sup>* s0 s"
  shows "matcher_step v acks batch_size s \<noteq> None
    \<and> (acks \<longrightarrow> unat (in_flight s) = unacked s \<and> unacked s \<le> unat window)
    \<and> (matcher_at s = Matcher_done \<longrightarrow>
         pool_abs (bench_book s) = snd (snd (lob_run acts lob_empty)) \<and> length (matched s) = length acts
         \<and> (acks \<longrightarrow> length (acked s) = length acts))"
proof -
  have start: "pipe_inv acts s0" by (rule bench_start_inv [OF assms(1-3)])
  have inv: "pipe_inv acts s" by (rule bench_reachable_inv [OF assms(5) start assms(4)])
  have credit: "credit_inv window s" if acks
    using closed_reachable [OF assms(5) [unfolded eqTrueI [OF that]] start bench_start_credit [OF assms(1,2)] assms(4)]
    by blast
  have answered: "length (acked s) = length (matched s)" if acks "matcher_at s = Matcher_done"
  proof -
    have "ingest_at s = Ingest_done" using inv that(2) by (auto simp: pipe_inv_def matcher_ok_def ingest_ok_def)
    with credit [OF that(1)] that(2) show ?thesis by (auto simp: credit_inv_def unacked_def)
  qed
  have "acks \<longrightarrow> unat (in_flight s) = unacked s \<and> unacked s \<le> unat window"
    using credit credit_at_ok_le by (auto simp: credit_inv_def)
  moreover have "matcher_step v acks batch_size s \<noteq> None"
    using matcher_inv [OF inv assms(4)] by blast
  ultimately show ?thesis using finished_book [OF inv] answered by auto
qed

definition bench_actions :: "order_action list" where
  "bench_actions = [new_order 1 100 5 0 Buy Limit, new_order 2 90 3 1 Sell Limit]"

definition bench_schedule :: "timestamp option list" where
  "bench_schedule = [Some 5, Some 6, Some 7] @ replicate 5 None @ [Some 8, Some 9, Some 10, Some 11]
     @ replicate 5 None @ [Some 12, Some 13, None, None]"

theorem pipeline_matches_all_witness:
  "\<exists>s0 s. bench_start 2 1 = Some s0 \<and> run_closed bench_actions 64 1 bench_schedule s0 = Some s
    \<and> latencies_ns s = [3, 3] \<and> pool_abs (bench_book s) = snd (snd (lob_run bench_actions lob_empty))"
proof -
  have "map_option (\<lambda>s. (latencies_ns s, matcher_at s))
      (do { s0 \<leftarrow> bench_start 2 1; run_closed bench_actions 64 1 bench_schedule s0 }) = Some ([3, 3], Matcher_done)"
    by code_simp
  then obtain s0 s where s: "bench_start 2 1 = Some s0" "run_closed bench_actions 64 1 bench_schedule s0 = Some s"
    "latencies_ns s = [3, 3]" "matcher_at s = Matcher_done"
    by (auto simp: bind_eq_Some_conv)
  from pipeline_matches_all [OF s(1) _ _ _ run_closed_steps [OF s(2)]] s show ?thesis
    by (auto simp: bench_actions_def)
qed

text \<open>C19. The two-thread benchmarks come to their end. From every state either loop can reach, at
  most \<open>60 * n + 8\<close> more steps suffice, for \<open>n\<close> actions, until both threads have left and the book
  is that of the single-threaded run, provided the batch size is positive and in the closed loop
  the window too. Otherwise, if there is any action at all, the loop never ends.\<close>

theorem pipeline_finishes:
  assumes "bench_start queue_capacity initial_capacity = Some s0"
    and "unat queue_capacity \<le> 2 ^ 63" "initial_capacity < 2 ^ 32" "length acts \<le> 2 ^ 31"
    and "(bench_step acks acts batch_size window)\<^sup>*\<^sup>* s0 s"
  shows "if acts = [] \<or> 0 < batch_size \<and> (acks \<longrightarrow> 0 < window)
    then \<exists>n s'. n \<le> 60 * length acts + 8 \<and> (bench_step acks acts batch_size window ^^ n) s s'
      \<and> matcher_at s' = Matcher_done \<and> ingest_at s' = Ingest_done
      \<and> pool_abs (bench_book s') = snd (snd (lob_run acts lob_empty))
    else \<forall>s'. (bench_step acks acts batch_size window)\<^sup>*\<^sup>* s s' \<longrightarrow> matcher_at s' \<noteq> Matcher_done"
proof (cases "acts = [] \<or> 0 < batch_size \<and> (acks \<longrightarrow> 0 < window)")
  case True
  have live: "live_inv acks acts batch_size window s"
    by (rule bench.reachable_inv [OF assms(5) bench_start_live [OF assms(1-4) True]])
  obtain n s' where n: "n \<le> work_left acts s" "(bench_step acks acts batch_size window ^^ n) s s'"
    "matcher_at s' = Matcher_done"
    using bench.finishes_within [OF live] by blast
  have "pipe_inv acts s'"
    using bench.reachable_inv [OF relpowp_imp_rtranclp [OF n(2)] live] by (simp add: live_inv_def)
  with n finished_book [OF this n(3)] work_left_bound [OF live] True show ?thesis
    by (auto simp: pipe_inv_def matcher_ok_def ingest_ok_def intro!: exI [of _ n] exI [of _ s'])
next
  case False
  have fresh: "matched s0 = []" "batch_left (matcher_at s0) = []" "index s0 = 0" "ingest_at s0 = Ingest_credit"
    using assms(1) by (auto simp: bench_start_def bind_eq_Some_conv)
  have "matcher_at s' \<noteq> Matcher_done" if "(bench_step acks acts batch_size window)\<^sup>*\<^sup>* s s'" for s'
  proof
    assume gone: "matcher_at s' = Matcher_done"
    have run: "(bench_step acks acts batch_size window)\<^sup>*\<^sup>* s0 s'" using assms(5) that by (rule rtranclp_trans)
    have inv: "pipe_inv acts s'" by (rule bench_reachable_inv [OF run bench_start_inv [OF assms(1-3)] assms(4)])
    have "length (matched s') = length acts" "ingest_at s' = Ingest_done"
      using finished_book [OF inv gone] inv gone by (auto simp: pipe_inv_def matcher_ok_def ingest_ok_def)
    moreover have "matched s' = []" if "batch_size = 0"
      using zero_batch_stuck [OF run [unfolded that] fresh(1,2)] by simp
    moreover have "ingest_at s' = Ingest_credit" if "acks" "window = 0" "acts \<noteq> []"
      using that zero_window_stuck [of acts batch_size s0 s'] run fresh(3,4) by simp
    ultimately show False using False by (auto simp: word_pos_iff)
  qed
  then show ?thesis unfolding if_not_P [OF False] by blast
qed

text \<open>Both outcomes occur: with a window of one, and with none.\<close>

theorem pipeline_finishes_witness:
  "\<exists>s0. bench_start 2 1 = Some s0
    \<and> (\<exists>n s'. n \<le> 128 \<and> (bench_step True bench_actions 64 1 ^^ n) s0 s' \<and> matcher_at s' = Matcher_done)
    \<and> (\<forall>s'. (bench_step True bench_actions 64 0)\<^sup>*\<^sup>* s0 s' \<longrightarrow> matcher_at s' \<noteq> Matcher_done)"
proof -
  have "bench_start 2 1 \<noteq> None" by code_simp
  then obtain s0 where s0: "bench_start 2 1 = Some s0" by blast
  have small: "unat (2 :: u64) \<le> 2 ^ 63" "(1 :: nat) < 2 ^ 32" "length bench_actions = 2"
    by (simp_all add: bench_actions_def)
  have acts: "bench_actions \<noteq> []" by (simp add: bench_actions_def)
  from pipeline_finishes [OF s0 small(1,2) _ rtranclp.rtrancl_refl, of bench_actions 64 True 1]
    pipeline_finishes [OF s0 small(1,2) _ rtranclp.rtrancl_refl, of bench_actions 64 True 0]
  show ?thesis using s0 small(3) acts by auto
qed

section \<open>Statistics\<close>

text \<open>C36. The reported latencies. Under IEEE rounding, for between 1 and \<open>2 ^ 53 - 1\<close> samples, both
  statistics functions index only inside the vector, and return the sorted samples with the
  percentiles in order: the median is at most the 95th, that at most the 99th, that (for the
  engine benchmark) at most the 99.9th, and all are at most the maximum.\<close>

theorem percentiles_in_order:
  assumes "ieee_rounding rnd" "warmup < length xs" "length xs < 2 ^ 53"
  shows "(case calculate_stats rnd xs total_ms trades resting of
      None \<Rightarrow> False
    | Some (st, ys) \<Rightarrow> ys = sort xs \<and> p50_ns st \<le> p95_ns st \<and> p95_ns st \<le> p99_ns st
        \<and> p99_ns st \<le> p99_9_ns st \<and> p99_9_ns st \<le> max_ns st)
    \<and> (case compute_latency_stats rnd xs warmup of
      None \<Rightarrow> False
    | Some (st, ys) \<Rightarrow> ys = sort (drop warmup xs) \<and> p50_latency st \<le> p95_latency st
        \<and> p95_latency st \<le> p99_latency st \<and> p99_latency st \<le> max_latency st)"
proof (rule conjI)
  let ?ys = "sort xs"
  have "xs \<noteq> []" using assms(2) by (cases xs) simp_all
  then have ne: "xs \<noteq> []" "?ys \<noteq> []" by (metis length_0_conv length_sort)+
  have len: "length ?ys < 2 ^ 53" using assms(3) by simp
  note at = percentile_at [OF assms(1) ne(2) len]
  have mono: "double_of rnd (?ys ! i) \<le> double_of rnd (?ys ! j)" if "i \<le> j" "j < length ?ys" for i j
    using that by (intro double_of_mono [OF assms(1)] sorted_nth_mono) simp_all
  have top: "double_of rnd (?ys ! i) \<le> double_of rnd (last ?ys)" if "i < length ?ys" for i
    using that by (intro double_of_mono [OF assms(1)] sorted_last) simp_all
  note le = position_mono [OF assms(1) len]
  show "case calculate_stats rnd xs total_ms trades resting of
      None \<Rightarrow> False
    | Some (st, ys) \<Rightarrow> ys = sort xs \<and> p50_ns st \<le> p95_ns st \<and> p95_ns st \<le> p99_ns st
        \<and> p99_ns st \<le> p99_9_ns st \<and> p99_9_ns st \<le> max_ns st"
    using ne(1) at [of "1 / 2"] at [of "95 / 100"] at [of "99 / 100"] at [of "999 / 1000"]
      mono [OF le [of "1 / 2" "95 / 100"]] mono [OF le [of "95 / 100" "99 / 100"]]
      mono [OF le [of "99 / 100" "999 / 1000"]] top [of "position rnd (999 / 1000) (length ?ys)"]
    by (simp add: calculate_stats_def Let_def)
next
  let ?ys = "sort (drop warmup xs)"
  have "drop warmup xs \<noteq> []" using assms(2) by simp
  then have ne: "?ys \<noteq> []" by (metis length_0_conv length_sort)
  have len: "length ?ys < 2 ^ 53" using assms(3) by simp
  have mono: "double_of rnd (?ys ! i) \<le> double_of rnd (?ys ! j)" if "i \<le> j" "j < length ?ys" for i j
    using that by (intro double_of_mono [OF assms(1)] sorted_nth_mono) simp_all
  have top: "double_of rnd (?ys ! i) \<le> double_of rnd (last ?ys)" if "i < length ?ys" for i
    using that by (intro double_of_mono [OF assms(1)] sorted_last) simp_all
  note r = rank_at [OF ne len]
  have r50: "rank rnd 50 ?ys = Some (double_of rnd (?ys ! (length ?ys * 50 div 100)))"
    and r95: "rank rnd 95 ?ys = Some (double_of rnd (?ys ! (length ?ys * 95 div 100)))"
    and r99: "rank rnd 99 ?ys = Some (double_of rnd (?ys ! (length ?ys * 99 div 100)))"
    and in95: "length ?ys * 95 div 100 < length ?ys" and in99: "length ?ys * 99 div 100 < length ?ys"
    using r [of 50] r [of 95] r [of 99] by simp_all
  have "length ?ys * 50 div 100 \<le> length ?ys * 95 div 100" "length ?ys * 95 div 100 \<le> length ?ys * 99 div 100"
    by (intro div_le_mono mult_le_mono; simp)+
  note order = mono [OF this(1) in95] mono [OF this(2) in99] top [OF in99]
  show "case compute_latency_stats rnd xs warmup of
      None \<Rightarrow> False
    | Some (st, ys) \<Rightarrow> ys = sort (drop warmup xs) \<and> p50_latency st \<le> p95_latency st
        \<and> p95_latency st \<le> p99_latency st \<and> p99_latency st \<le> max_latency st"
    unfolding compute_latency_stats_def Let_def r50 r95 r99
    using assms(2) order by simp
qed

text \<open>Exact arithmetic satisfies the hypothesis on rounding.\<close>

theorem percentiles_in_order_witness:
  "\<exists>st. compute_latency_stats (\<lambda>x. x) [900, 30, 10, 20] 1 = Some (st, [10, 20, 30])
    \<and> p50_latency st \<le> p95_latency st \<and> p95_latency st \<le> max_latency st"
proof -
  have "ieee_rounding (\<lambda>x. x)" by (simp add: ieee_rounding_def)
  moreover have "sort (drop 1 [900, 30, 10, 20 :: u64]) = [10, 20, 30]" by code_simp
  ultimately show ?thesis
    using percentiles_in_order [of "\<lambda>x. x" 1 "[900, 30, 10, 20]" 1 0 0]
    by (auto split: option.splits)
qed

end
