(* ===== verification/Benchmark_Suite.thy ===== *)
theory Benchmark_Suite
  imports Workload Stl_Refinement Pool_Refinement Latency_Stats Protocol
begin

text \<open>
  The rest of \<^verbatim>\<open>benchmarks/benchmark_engine.cpp\<close>: the timed run, the comparison of
  the two engines and the main function with its three workloads. The readings of the clock, in
  nanoseconds, are an argument. Of the printed table a row is its label and its last column, the
  rounded improvement in percent; the layout and the decimals of the measured values are not
  modelled.
\<close>

section \<open>The timed run\<close>

text \<open>
  Reading 0 is \<^verbatim>\<open>t_start\<close>, readings \<open>2 i + 1\<close> and \<open>2 i + 2\<close> enclose action \<open>i\<close>, and
  one more is \<^verbatim>\<open>t_end\<close>. The statistics are those of \<open>run_benchmark\<close> with the durations.
\<close>

definition op_latencies :: "(nat \<Rightarrow> u64) \<Rightarrow> nat \<Rightarrow> u64 list" where
  "op_latencies clk n = map (\<lambda>i. clk (2 * i + 2) - clk (2 * i + 1)) [0..<n]"

definition timed_benchmark ::
    "(real \<Rightarrow> real) \<Rightarrow> (nat \<Rightarrow> u64)
      \<Rightarrow> (order \<Rightarrow> trade list \<Rightarrow> 'b \<Rightarrow> (bool \<times> trade list \<times> 'b) option)
      \<Rightarrow> (order_id \<Rightarrow> 'b \<Rightarrow> (bool \<times> 'b) option) \<Rightarrow> ('b \<Rightarrow> 'b) \<Rightarrow> ('b \<Rightarrow> nat)
      \<Rightarrow> order_action list \<Rightarrow> nat \<Rightarrow> 'b \<Rightarrow> benchmark_stats option" where
  "timed_benchmark rnd clk submit_order cancel_order clear total_orders actions warmup_count engine =
     do {
       (trade_count, resting) \<leftarrow>
         run_benchmark submit_order cancel_order clear total_orders actions warmup_count engine;
       let n = length actions;
       let total_ms = rnd (double_of rnd (clk (2 * n + 1) - clk 0) / 1000000);
       (stats, _) \<leftarrow> calculate_stats rnd (op_latencies clk n) total_ms
         (word_of_nat trade_count) (word_of_nat resting);
       Some stats
     }"

section \<open>The comparison\<close>

text \<open>\<^verbatim>\<open>std::round\<close> rounds halves away from zero.\<close>

definition round_half_away :: "real \<Rightarrow> int" where
  "round_half_away x = (if 0 \<le> x then \<lfloor>x + 1 / 2\<rfloor> else - \<lfloor>1 / 2 - x\<rfloor>)"

text \<open>
  The percentage of a row. The quotient by zero is infinite or not a number, and the conversion
  of such a value, or of one out of range, to \<^verbatim>\<open>int\<close> has no defined behaviour.
\<close>

definition diff_pct :: "(real \<Rightarrow> real) \<Rightarrow> bool \<Rightarrow> real \<Rightarrow> real \<Rightarrow> real" where
  "diff_pct rnd higher_is_better a b =
     rnd (rnd (rnd (if higher_is_better then b - a else a - b) / a) * 100)"

definition improvement :: "(real \<Rightarrow> real) \<Rightarrow> bool \<Rightarrow> real \<Rightarrow> real \<Rightarrow> (bool \<times> int) option" where
  "improvement rnd higher_is_better a b =
     (if a = 0 then None
      else let d = diff_pct rnd higher_is_better a b; r = round_half_away d
        in if - (2 ^ 31) \<le> r \<and> r < 2 ^ 31 then Some (0 \<le> d, r) else None)"

definition int_to_string :: "int \<Rightarrow> string" where
  "int_to_string i = (if i < 0 then ''-'' @ to_string (nat (- i)) else to_string (nat i))"

definition print_row ::
    "(real \<Rightarrow> real) \<Rightarrow> string \<Rightarrow> real option \<Rightarrow> real option \<Rightarrow> bool \<Rightarrow> (string \<times> string) option" where
  "print_row rnd label a b higher_is_better =
     do {
       a \<leftarrow> a;
       b \<leftarrow> b;
       (up, pct) \<leftarrow> improvement rnd higher_is_better a b;
       Some (label, (if up then ''+'' else []) @ int_to_string pct @ ''%'')
     }"

definition scaled :: "(real \<Rightarrow> real) \<Rightarrow> real \<Rightarrow> real option \<Rightarrow> real option" where
  "scaled rnd k = map_option (\<lambda>x. rnd (x / k))"

definition print_comparison ::
    "(real \<Rightarrow> real) \<Rightarrow> benchmark_stats \<Rightarrow> benchmark_stats \<Rightarrow> ((string \<times> string) list \<times> string) option" where
  "print_comparison rnd stl pool =
     do {
       throughput \<leftarrow> print_row rnd ''Throughput'' (scaled rnd 1000000 (ops_per_sec stl))
         (scaled rnd 1000000 (ops_per_sec pool)) True;
       mean \<leftarrow> print_row rnd ''Mean Latency'' (Some (mean_ns stl)) (Some (mean_ns pool)) False;
       p50 \<leftarrow> print_row rnd ''p50 Latency (median)'' (Some (p50_ns stl)) (Some (p50_ns pool)) False;
       p95 \<leftarrow> print_row rnd ''p95 Latency'' (Some (p95_ns stl)) (Some (p95_ns pool)) False;
       p99 \<leftarrow> print_row rnd ''p99 Latency (tail)'' (Some (p99_ns stl)) (Some (p99_ns pool)) False;
       p99_9 \<leftarrow> print_row rnd ''p99.9 Latency'' (Some (p99_9_ns stl)) (Some (p99_9_ns pool)) False;
       mx \<leftarrow> print_row rnd ''Max Latency'' (scaled rnd 1000 (Some (max_ns stl)))
         (scaled rnd 1000 (Some (max_ns pool))) False;
       Some ([throughput, mean, p50, p95, p99, p99_9, mx],
         ''Trades Matched: '' @ to_string (unat (total_trades pool)) @ '' | Remaining Orders: ''
           @ to_string (unat (total_orders_in_book pool)) @ [newline])
     }"

section \<open>The main function\<close>

text \<open>The clock is read \<open>2 n + 2\<close> times for each engine.\<close>

definition benchmark_case ::
    "'r sampler \<Rightarrow> (real \<Rightarrow> real) \<Rightarrow> (nat \<Rightarrow> u64) \<Rightarrow> u64 \<Rightarrow> workload_type \<Rightarrow> u64
      \<Rightarrow> (benchmark_stats \<times> benchmark_stats) option" where
  "benchmark_case S rnd clk count_arg type seed =
     do {
       actions \<leftarrow> generate S type count_arg seed 10000 50;
       stl_stats \<leftarrow> timed_benchmark rnd clk stl_submit_order stl_cancel_order stl_clear stl_total_orders
         actions 10000 stl_empty;
       pool_stats \<leftarrow> timed_benchmark rnd (\<lambda>i. clk (2 * length actions + 2 + i))
         pool_submit_order pool_cancel_order pool_clear pool_total_orders
         actions 10000 (pool_new (unat count_arg));
       Some (stl_stats, pool_stats)
     }"

fun benchmark_cases ::
    "'r sampler \<Rightarrow> (real \<Rightarrow> real) \<Rightarrow> (nat \<Rightarrow> u64) \<Rightarrow> u64 \<Rightarrow> (workload_type \<times> u64) list
      \<Rightarrow> ((string \<times> string) list \<times> string) list option" where
  "benchmark_cases S rnd clk count_arg [] = Some []"
| "benchmark_cases S rnd clk count_arg ((type, seed) # cases) =
     do {
       (stl_stats, pool_stats) \<leftarrow> benchmark_case S rnd clk count_arg type seed;
       printed \<leftarrow> print_comparison rnd stl_stats pool_stats;
       others \<leftarrow> benchmark_cases S rnd (\<lambda>i. clk (4 * unat count_arg + 4 + i)) count_arg cases;
       Some (printed # others)
     }"

definition benchmark_main ::
    "'r sampler \<Rightarrow> (real \<Rightarrow> real) \<Rightarrow> (nat \<Rightarrow> u64) \<Rightarrow> u64
      \<Rightarrow> ((string \<times> string) list \<times> string) list option" where
  "benchmark_main S rnd clk count_arg =
     benchmark_cases S rnd clk count_arg [(Balanced, 42), (InsertHeavy, 100), (CancelHeavy, 999)]"

section \<open>Both engines report the same counts\<close>

text \<open>The statistics are always defined.\<close>

lemma calculate_stats_defined:
  assumes "ieee_rounding rnd" "length xs < 2 ^ 53"
  shows "\<exists>st ys. calculate_stats rnd xs total_ms trades resting = Some (st, ys)
    \<and> total_trades st = trades \<and> total_orders_in_book st = resting \<and> (xs = [] \<longrightarrow> ops_per_sec st = Some 0)"
proof (cases "xs = []")
  case False
  then have ne: "sort xs \<noteq> []" by (metis length_0_conv length_sort)
  have "length (sort xs) < 2 ^ 53" using assms(2) by simp
  note at = percentile_at(1) [OF assms(1) ne this]
  show ?thesis
    using False at [of "1 / 2"] at [of "95 / 100"] at [of "99 / 100"] at [of "999 / 1000"]
    by (simp add: calculate_stats_def Let_def)
qed (simp add: calculate_stats_def)

lemma timed_benchmark_refines:
  assumes "ieee_rounding rnd" "length actions < 2 ^ 53"
    and "run_benchmark submit_order cancel_order clear total_orders actions warmup_count b = Some (n, m)"
  shows "\<exists>st. timed_benchmark rnd clk submit_order cancel_order clear total_orders actions warmup_count b = Some st
    \<and> total_trades st = word_of_nat n \<and> total_orders_in_book st = word_of_nat m
    \<and> (actions = [] \<longrightarrow> ops_per_sec st = Some 0)"
proof -
  have len: "length (op_latencies clk (length actions)) < 2 ^ 53" using assms(2) by (simp add: op_latencies_def)
  have "op_latencies clk (length actions) = [] \<longleftrightarrow> actions = []" by (simp add: op_latencies_def)
  moreover obtain st ys where "calculate_stats rnd (op_latencies clk (length actions))
      (rnd (double_of rnd (clk (2 * length actions + 1) - clk 0) / 1000000)) (word_of_nat n) (word_of_nat m)
      = Some (st, ys)" "total_trades st = word_of_nat n" "total_orders_in_book st = word_of_nat m"
    "op_latencies clk (length actions) = [] \<longrightarrow> ops_per_sec st = Some 0"
    using calculate_stats_defined [OF assms(1) len] by blast
  ultimately show ?thesis using assms(3) by (simp add: timed_benchmark_def Let_def)
qed

text \<open>For up to \<open>2 ^ 30\<close> orders every comparison has statistics, with equal counts for the two engines.\<close>

lemma benchmark_case_agrees:
  assumes "sampler_ok 50 S" "unat count_arg \<le> 2 ^ 30" "ieee_rounding rnd"
  shows "\<exists>st1 st2 acts. benchmark_case S rnd clk count_arg type seed = Some (st1, st2)
    \<and> generate S type count_arg seed 10000 50 = Some acts
    \<and> total_trades st1 = total_trades st2 \<and> total_orders_in_book st1 = total_orders_in_book st2
    \<and> total_trades st2 = word_of_nat (length (fst (snd (lob_run acts lob_empty))))
    \<and> total_orders_in_book st2 = word_of_nat (length (lob_orders (snd (snd (lob_run acts lob_empty)))))
    \<and> (count_arg = 0 \<longrightarrow> ops_per_sec st1 = Some 0 \<and> ops_per_sec st2 = Some 0)"
proof -
  have small: "unat count_arg < 2 ^ 62" using assms(2) by simp
  obtain acts where acts: "generate S type count_arg seed 10000 50 = Some acts"
    "length acts = unat count_arg"
    using generate_ok [OF assms(1) _ small, of 10000 type seed] by auto
  have len: "length acts < 2 ^ 53" using assms(2) acts(2) by simp
  obtain rs ts bk where r: "lob_run acts lob_empty = (rs, ts, bk)" by (cases "lob_run acts lob_empty")
  have "run_benchmark stl_submit_order stl_cancel_order stl_clear stl_total_orders acts 10000 stl_empty
      = Some (length ts, length (lob_orders bk))"
    by (rule stl.benchmark_refines [OF _ _ r]) simp_all
  note s = timed_benchmark_refines [OF assms(3) len this, of clk]
  have "run_benchmark pool_submit_order pool_cancel_order pool_clear pool_total_orders acts 10000
      (pool_new (unat count_arg)) = Some (length ts, length (lob_orders bk))"
    by (rule pool.benchmark_refines [OF _ _ r])
      (use assms(2) acts(2) in \<open>simp_all add: pool_new_correct pool_new_room\<close>)
  note p = timed_benchmark_refines [OF assms(3) len this, of "\<lambda>i. clk (2 * length acts + 2 + i)"]
  have "count_arg = 0 \<longrightarrow> acts = []" using acts(2) by auto
  with s p acts(1) r show ?thesis by (auto simp: benchmark_case_def)
qed

section \<open>When a row can be printed\<close>

lemma rnd_abs_bound:
  assumes "ieee_rounding rnd" "k \<le> 2 ^ 53" "\<bar>x\<bar> \<le> real k"
  shows "\<bar>rnd x\<bar> \<le> real k"
proof -
  note r = ieee_roundingD [OF assms(1)]
  have "rnd x \<le> real k" using r(1) [of x "real k"] r(2) [OF assms(2)] assms(3) by simp
  moreover have "- real k \<le> rnd x"
    using r(1) [of "- real k" x] r(2) [OF assms(2)] r(4) [of "real k"] assms(3) by simp
  ultimately show ?thesis by simp
qed

lemma rnd_sign:
  assumes "ieee_rounding rnd"
  shows "0 \<le> x \<Longrightarrow> 0 \<le> rnd x" "x \<le> 0 \<Longrightarrow> rnd x \<le> 0"
  using ieee_roundingD(1) [OF assms, of 0 x] ieee_roundingD(1) [OF assms, of x 0]
    ieee_roundingD(2) [OF assms, of 0] by simp_all

lemma diff_pct_sign:
  assumes "ieee_rounding rnd" "0 < a"
  defines "gain \<equiv> \<lambda>up b. if up then b - a else a - b"
  shows "0 \<le> gain up b \<Longrightarrow> 0 \<le> diff_pct rnd up a b" "gain up b \<le> 0 \<Longrightarrow> diff_pct rnd up a b \<le> 0"
  using assms(2) by (auto simp: diff_pct_def gain_def intro!: rnd_sign [OF assms(1)]
      mult_nonneg_nonneg mult_nonpos_nonneg divide_nonneg_nonneg divide_nonpos_nonneg)

lemma round_half_away_sign: "0 < round_half_away x \<Longrightarrow> 0 < x" "round_half_away x < 0 \<Longrightarrow> x < 0"
  by (auto simp: round_half_away_def split: if_splits)

lemma round_half_away_bound: "\<bar>x\<bar> \<le> of_nat k \<Longrightarrow> \<bar>round_half_away x\<bar> \<le> int k"
  by (auto simp: round_half_away_def abs_le_iff; linarith)

lemma improvement_zero: "improvement rnd up 0 b = None"
  by (simp add: improvement_def)

lemma improvement_defined:
  assumes rnd: "ieee_rounding rnd" and a: "1 \<le> a" "a \<le> 2 ^ 24" and b: "0 \<le> b" "b \<le> 2 ^ 24"
  shows "\<exists>r. improvement rnd up a b = Some (0 \<le> diff_pct rnd up a b, r)
    \<and> (0 < r \<longrightarrow> (if up then a < b else b < a)) \<and> (r < 0 \<longrightarrow> (if up then b < a else a < b))"
proof -
  let ?x = "if up then b - a else a - b" and ?k = "2 ^ 24 :: nat"
  have "\<bar>?x\<bar> \<le> real ?k" using a b by (auto simp: abs_le_iff)
  then have x: "\<bar>rnd ?x\<bar> \<le> real ?k" by (intro rnd_abs_bound [OF rnd]) simp_all
  have "\<bar>y / a\<bar> \<le> \<bar>y\<bar>" for y
    using a(1) mult_left_mono [of 1 a "\<bar>y\<bar>"] by (simp add: divide_le_eq)
  then have "\<bar>rnd ?x / a\<bar> \<le> real ?k" using x by (rule order_trans)
  then have "\<bar>rnd (rnd ?x / a)\<bar> \<le> real ?k" by (intro rnd_abs_bound [OF rnd]) simp_all
  then have "\<bar>rnd (rnd ?x / a) * 100\<bar> \<le> real (?k * 100)" by (simp add: abs_mult)
  then have "\<bar>diff_pct rnd up a b\<bar> \<le> real (?k * 100)"
    unfolding diff_pct_def by (intro rnd_abs_bound [OF rnd]) simp_all
  from round_half_away_bound [OF this]
  have "\<bar>round_half_away (diff_pct rnd up a b)\<bar> \<le> 1677721600" by simp
  moreover note diff_pct_sign [OF rnd, of a up b] round_half_away_sign [of "diff_pct rnd up a b"]
  ultimately show ?thesis
    using a(1) by (auto simp: improvement_def Let_def abs_le_iff intro: not_le_imp_less)
qed

text \<open>Without orders the throughput is zero and the first row of the table has no defined value.\<close>

lemma benchmark_main_no_orders:
  assumes "sampler_ok 50 S" "ieee_rounding rnd"
  shows "benchmark_main S rnd clk 0 = None"
proof -
  obtain st1 st2 where st: "benchmark_case S rnd clk 0 Balanced 42 = Some (st1, st2)" "ops_per_sec st1 = Some 0"
    "ops_per_sec st2 = Some 0"
    using benchmark_case_agrees [OF assms(1) _ assms(2), of 0 clk Balanced 42] by auto
  have "rnd 0 = 0" using ieee_roundingD(2) [OF assms(2), of 0] by simp
  then have "print_comparison rnd st1 st2 = None"
    by (simp add: print_comparison_def print_row_def scaled_def st improvement_zero)
  with st(1) show ?thesis by (simp add: benchmark_main_def)
qed

end
