(* ===== verification/Pipeline_Main.thy ===== *)
theory Pipeline_Main
  imports Pipeline_Liveness Workload Latency_Stats
begin

text \<open>
  The main function of \<^verbatim>\<open>benchmarks/benchmark_spsc.cpp\<close>: four runs of the open loop
  and ten of the closed loop on one workload. A run is two threads, so its outcome is a relation:
  any state in which both have left. What is printed of it is the number of orders that remain in
  the book and, in the closed loop, the latency statistics; throughput and wall time are not
  modelled.
\<close>

section \<open>Runs and reports\<close>

text \<open>Loop, batch size and window of each run, in the order of the code.\<close>

definition spsc_benchmark_runs :: "(bool \<times> u64 \<times> u64) list" where
  "spsc_benchmark_runs =
     map (\<lambda>batch. (False, batch, 0)) [1, 16, 64, 128]
     @ map (\<lambda>window. (True, 64, window)) [1, 16, 64, 256, 1024, 4096]
     @ map (\<lambda>batch. (True, batch, 256)) [1, 16, 64, 128]"

fun run_ends :: "order_action list \<Rightarrow> bool \<times> u64 \<times> u64 \<Rightarrow> pipeline \<Rightarrow> bool" where
  "run_ends acts (acks, batch_size, window) s \<longleftrightarrow>
     (\<exists>s0. bench_start 65536 (length acts) = Some s0
       \<and> (bench_step acks acts batch_size window)\<^sup>*\<^sup>* s0 s
       \<and> ingest_at s = Ingest_done \<and> matcher_at s = Matcher_done)"

definition remaining_book :: "pipeline \<Rightarrow> nat" where
  "remaining_book s = pool_total_orders (bench_book s)"

definition closed_loop_stats ::
    "(real \<Rightarrow> real) \<Rightarrow> order_action list \<Rightarrow> pipeline \<Rightarrow> (latency_stats \<times> u64 list) option" where
  "closed_loop_stats rnd acts s = compute_latency_stats rnd (latencies_ns s) (min 10000 (length acts div 10))"

definition spsc_benchmark_main :: "'r sampler \<Rightarrow> u64 \<Rightarrow> order_action list \<Rightarrow> pipeline list \<Rightarrow> bool" where
  "spsc_benchmark_main S count_arg acts outcomes \<longleftrightarrow>
     generate S Balanced count_arg 42 10000 50 = Some acts
     \<and> list_all2 (run_ends acts) spsc_benchmark_runs outcomes"

section \<open>Latencies\<close>

text \<open>A completion yields at most one latency.\<close>

lemma drain_latencies:
  assumes "length (latencies_ns s) \<le> length (acked s)"
  shows "length (latencies_ns (drain_completions v t s)) \<le> length (acked (drain_completions v t s))"
proof -
  obtain batch q where p: "pop_batch (min 64 v) (completions s) = (batch, q)"
    by (cases "pop_batch (min 64 v) (completions s)")
  from assms p show ?thesis by (simp add: drain_completions_def add_mono)
qed

lemma step_latencies:
  assumes "bench_step acks acts batch_size window s s'" "length (latencies_ns s) \<le> length (acked s)"
  shows "length (latencies_ns s') \<le> length (acked s')"
  using assms(1)
proof cases
  case (ingest_closed v t1 t2)
  with assms(2) drain_latencies [OF assms(2), of v t1] show ?thesis
    by (simp add: closed_ingest_step_def ingest_push_def split: ingest_pc.split prod.split bool.split)
next
  case ingest_open
  with assms(2) show ?thesis
    by (simp add: open_ingest_step_def split: ingest_pc.split prod.split bool.split)
next
  case (match v)
  have "latencies_ns s' = latencies_ns s \<and> acked s' = acked s"
  proof (cases "matcher_at s")
    case (Matcher_batch batch)
    with match show ?thesis by (cases batch) (auto simp: matcher_step_def bind_eq_Some_conv)
  qed (use match in \<open>auto simp: matcher_step_def split: prod.splits bool.splits\<close>)
  with assms(2) show ?thesis by simp
qed (use assms(2) in simp)

lemma latencies_bound:
  assumes "(bench_step acks acts batch_size window)\<^sup>*\<^sup>* s0 s" "length (latencies_ns s0) \<le> length (acked s0)"
  shows "length (latencies_ns s) \<le> length (acked s)"
  using assms by (induction rule: rtranclp_induct) (auto dest: step_latencies)

lemma compute_latency_stats_defined:
  assumes "length xs < 2 ^ 53"
  shows "compute_latency_stats rnd xs warmup \<noteq> None"
proof (cases "length xs \<le> warmup")
  case False
  have len: "length (sort (drop warmup xs)) < 2 ^ 53" using assms by simp
  have ne: "sort (drop warmup xs) \<noteq> []" using False by (simp flip: length_greater_0_conv)
  note r = rank_at(1) [OF ne len]
  show ?thesis
    using False r [of 50 rnd] r [of 95 rnd] r [of 99 rnd] by (simp add: compute_latency_stats_def Let_def)
qed (simp add: compute_latency_stats_def)

section \<open>Every run has an outcome, and the same book\<close>

lemma bench_start_defined: "\<exists>s0. bench_start 65536 initial_capacity = Some s0"
proof -
  obtain iq cq where "spsc_new default_ingress 65536 = Some iq" "spsc_new default_completion 65536 = Some cq"
    using spsc_new_correct [of 65536 default_ingress] spsc_new_correct [of 65536 default_completion]
    by auto
  then show ?thesis by (simp add: bench_start_def)
qed

lemma run_ends_exists:
  assumes "length acts \<le> 2 ^ 31" "0 < batch_size" "acks \<longrightarrow> 0 < window"
  shows "\<exists>s. run_ends acts (acks, batch_size, window) s"
proof -
  obtain s0 where s0: "bench_start 65536 (length acts) = Some s0"
    using bench_start_defined by blast
  have "length acts < 2 ^ 32" using assms(1) by simp
  then have live: "live_inv acks acts batch_size window s0"
    by (intro bench_start_live [OF s0]) (use assms in simp_all)
  obtain s where s: "(bench_step acks acts batch_size window)\<^sup>*\<^sup>* s0 s" "matcher_at s = Matcher_done"
    using bench.can_finish [OF rtranclp.rtrancl_refl live] by blast
  have "ingest_at s = Ingest_done"
    using bench.reachable_inv [OF s(1) live] s(2) by (auto simp: live_inv_def pipe_inv_def matcher_ok_def ingest_ok_def)
  with s0 s show ?thesis by auto
qed

lemma run_ends_outcome:
  assumes "run_ends acts (acks, batch_size, window) s" "length acts \<le> 2 ^ 31"
  shows "remaining_book s = length (lob_orders (snd (snd (lob_run acts lob_empty))))
    \<and> (acks \<longrightarrow> closed_loop_stats rnd acts s \<noteq> None)"
proof -
  obtain s0 where s0: "bench_start 65536 (length acts) = Some s0"
    "(bench_step acks acts batch_size window)\<^sup>*\<^sup>* s0 s" "matcher_at s = Matcher_done"
    using assms(1) by auto
  have cap: "unat (65536 :: u64) \<le> 2 ^ 63" by simp
  have "length acts < 2 ^ 32" using assms(2) by simp
  note start = bench_start_inv [OF s0(1) cap this]
  have inv: "pipe_inv acts s" by (rule bench_reachable_inv [OF s0(2) start assms(2)])
  note final = finished_book [OF inv s0(3)]
  have "remaining_book s = length (lob_orders (pool_abs (bench_book s)))"
    using inv by (simp add: remaining_book_def pipe_inv_def book_ok_def pool_total_correct)
  moreover have "closed_loop_stats rnd acts s \<noteq> None" if acks
  proof -
    have "credit_inv window s"
      using closed_reachable [OF s0(2) [unfolded eqTrueI [OF that]] start bench_start_credit [OF s0(1) cap] assms(2)]
      by blast
    then have "length (acked s) \<le> length acts" using final by (simp add: credit_inv_def)
    moreover have "length (latencies_ns s) \<le> length (acked s)"
      by (rule latencies_bound [OF s0(2)]) (use s0(1) in \<open>auto simp: bench_start_def bind_eq_Some_conv\<close>)
    ultimately have "length (latencies_ns s) < 2 ^ 53" using assms(2) by simp
    then show ?thesis unfolding closed_loop_stats_def by (rule compute_latency_stats_defined)
  qed
  ultimately show ?thesis using final by simp
qed

text \<open>The fourteen runs together.\<close>

lemma all_runs_end:
  assumes "length acts \<le> 2 ^ 31"
  shows "\<exists>outcomes. list_all2 (run_ends acts) spsc_benchmark_runs outcomes"
proof -
  have "\<forall>r \<in> set spsc_benchmark_runs. \<exists>s. run_ends acts r s"
    using run_ends_exists [OF assms] unfolding spsc_benchmark_runs_def
    by (simp del: run_ends.simps)
  then obtain f where "\<forall>r \<in> set spsc_benchmark_runs. run_ends acts r (f r)"
    by (rule bchoice [elim_format]) blast
  then have "list_all2 (run_ends acts) spsc_benchmark_runs (map f spsc_benchmark_runs)"
    by (simp add: list.rel_map list.rel_refl_strong del: run_ends.simps)
  then show ?thesis ..
qed

lemma closed_runs: "r \<in> set (drop 4 spsc_benchmark_runs) \<Longrightarrow> fst r"
  by (auto simp: spsc_benchmark_runs_def)

lemma all_runs_outcome:
  assumes all: "list_all2 (run_ends acts) spsc_benchmark_runs outcomes" and room: "length acts \<le> 2 ^ 31"
  shows "map remaining_book outcomes = replicate 14 (length (lob_orders (snd (snd (lob_run acts lob_empty)))))"
    and "s \<in> set (drop 4 outcomes) \<Longrightarrow> closed_loop_stats rnd acts s \<noteq> None"
proof -
  have "remaining_book s = length (lob_orders (snd (snd (lob_run acts lob_empty))))"
    if in_outcomes: "s \<in> set outcomes" for s
  proof -
    obtain r where "run_ends acts r s" using list_all2_in_set2 [OF all in_outcomes] by blast
    with run_ends_outcome [OF _ room] show ?thesis by (cases r) blast
  qed
  then have "map remaining_book outcomes
      = map (\<lambda>_. length (lob_orders (snd (snd (lob_run acts lob_empty))))) outcomes" by simp
  moreover have "length outcomes = 14"
    using list_all2_lengthD [OF all] by (simp add: spsc_benchmark_runs_def)
  ultimately show "map remaining_book outcomes
      = replicate 14 (length (lob_orders (snd (snd (lob_run acts lob_empty)))))"
    by (simp add: map_replicate_const)
  assume "s \<in> set (drop 4 outcomes)"
  from list_all2_in_set2 [OF list_all2_dropI [OF all] this]
  obtain r where "r \<in> set (drop 4 spsc_benchmark_runs)" "run_ends acts r s" by blast
  with closed_runs run_ends_outcome [OF _ room] show "closed_loop_stats rnd acts s \<noteq> None"
    by (cases r) (metis fst_conv)
qed

end
