(* ===== verification/Unit_Tests.thy ===== *)
theory Unit_Tests
  imports Stl_Order_Book Pool_Order_Book Spsc_Queue Matching_Engine
begin

text \<open>
  The example-based tests of the repository as programs over the model:
  \<^verbatim>\<open>tests/test_stl_order_book.cpp\<close>, the pool test of
  \<^verbatim>\<open>tests/test_differential.cpp\<close> and the sequential test of
  \<^verbatim>\<open>tests/test_spsc_queue.cpp\<close>. A test is written in the order of its statements, each
  followed by the rest of the test. A failed assertion ends the program and is reported with its
  line in the source; a call that is undefined, or \<^verbatim>\<open>value()\<close> of an empty optional,
  is \<open>Aborted\<close>. The tests of an order book take the engine as an argument, so that those the
  repository runs on one engine can be run on the other.
\<close>

section \<open>Verdicts\<close>

datatype verdict = Passed | Failed nat | Aborted

definition assert_true :: "nat \<Rightarrow> bool \<Rightarrow> verdict \<Rightarrow> verdict" where
  "assert_true line cond rest = (if cond then rest else Failed line)"

definition call :: "'a option \<Rightarrow> ('a \<Rightarrow> verdict) \<Rightarrow> verdict" where
  "call result rest = (case result of None \<Rightarrow> Aborted | Some x \<Rightarrow> rest x)"

definition and_then :: "verdict \<Rightarrow> verdict \<Rightarrow> verdict" where
  "and_then v rest = (if v = Passed then rest else v)"

text \<open>\<^verbatim>\<open>trades[i]\<close> and \<^verbatim>\<open>optional::value()\<close>\<close>

definition at :: "'a list \<Rightarrow> nat \<Rightarrow> ('a \<Rightarrow> verdict) \<Rightarrow> verdict" where
  "at xs i rest = (if i < length xs then rest (xs ! i) else Aborted)"

definition assert_value :: "nat \<Rightarrow> price option \<Rightarrow> price \<Rightarrow> verdict \<Rightarrow> verdict" where
  "assert_value line best expected rest = call best (\<lambda>p. assert_true line (p = expected) rest)"

section \<open>Engines under test\<close>

record 'b engine =
  e_submit :: "order \<Rightarrow> trade list \<Rightarrow> 'b \<Rightarrow> (bool \<times> trade list \<times> 'b) option"
  e_cancel :: "order_id \<Rightarrow> 'b \<Rightarrow> (bool \<times> 'b) option"
  e_has :: "order_id \<Rightarrow> 'b \<Rightarrow> bool"
  e_get :: "order_id \<Rightarrow> 'b \<Rightarrow> order option option"
  e_best_bid :: "'b \<Rightarrow> price option"
  e_best_ask :: "'b \<Rightarrow> price option"
  e_total :: "'b \<Rightarrow> nat"
  e_bid_levels :: "'b \<Rightarrow> nat"
  e_volume :: "side \<Rightarrow> price \<Rightarrow> 'b \<Rightarrow> quantity option"
  e_new :: 'b

definition stl_engine :: "stl_book engine" where
  "stl_engine =
     \<lparr>e_submit = stl_submit_order, e_cancel = stl_cancel_order, e_has = stl_has_order,
      e_get = stl_get_order, e_best_bid = stl_best_bid, e_best_ask = stl_best_ask,
      e_total = stl_total_orders, e_bid_levels = stl_bid_levels, e_volume = stl_volume_at_price,
      e_new = stl_empty\<rparr>"

definition pool_engine :: "nat \<Rightarrow> pool_book engine" where
  "pool_engine capacity =
     \<lparr>e_submit = pool_submit_order, e_cancel = pool_cancel_order, e_has = pool_has_order,
      e_get = pool_get_order, e_best_bid = pool_best_bid, e_best_ask = pool_best_ask,
      e_total = pool_total_orders, e_bid_levels = pool_bid_levels,
      e_volume = (\<lambda>s p b. Some (pool_volume_at_price s p b)), e_new = pool_new capacity\<rparr>"

definition test_order ::
    "order_id \<Rightarrow> price \<Rightarrow> quantity \<Rightarrow> timestamp \<Rightarrow> side \<Rightarrow> order_type \<Rightarrow> order" where
  "test_order i p q ts s t =
     \<lparr>order_id = i, price = p, initial_quantity = q, remaining_quantity = q, timestamp = ts,
      side = s, otype = t\<rparr>"

section \<open>The tests of the STL order book\<close>

definition test_basic_resting_orders :: "'b engine \<Rightarrow> verdict" where
  "test_basic_resting_orders E =
     (call (e_submit E (test_order 1 10000 100 1000 Buy Limit) [] (e_new E)) (\<lambda>(ok, trades, book).
      assert_true 33 ok (
      assert_true 34 (length trades = 0) (
      assert_true 35 (e_total E book = 1) (
      assert_value 36 (e_best_bid E book) 10000 (
      assert_true 37 (e_best_ask E book = None) (
      call (e_submit E (test_order 2 10100 50 2000 Sell Limit) trades book) (\<lambda>(ok, trades, book).
      assert_true 47 ok (
      assert_true 48 (length trades = 0) (
      assert_true 49 (e_total E book = 2) (
      assert_value 50 (e_best_bid E book) 10000 (
      assert_value 51 (e_best_ask E book) 10100 Passed))))))))))))"

definition test_single_full_match :: "'b engine \<Rightarrow> verdict" where
  "test_single_full_match E =
     (call (e_submit E (test_order 10 10000 100 1000 Buy Limit) [] (e_new E)) (\<lambda>(_, trades, book).
      call (e_submit E (test_order 11 10000 100 2000 Sell Limit) trades book) (\<lambda>(_, trades, book).
      assert_true 80 (length trades = 1) (
      at trades 0 (\<lambda>t.
      assert_true 81 (maker_order_id t = 10) (
      assert_true 82 (taker_order_id t = 11) (
      assert_true 83 (trade_price t = 10000) (
      assert_true 84 (trade_quantity t = 100) (
      assert_true 85 (aggressor_side t = Sell) (
      assert_true 87 (e_total E book = 0) (
      assert_true 88 (e_best_bid E book = None) (
      assert_true 89 (e_best_ask E book = None) Passed))))))))))))"

definition test_maker_price_priority_and_partial_fills :: "'b engine \<Rightarrow> verdict" where
  "test_maker_price_priority_and_partial_fills E =
     (call (e_submit E (test_order 1 10000 100 1000 Buy Limit) [] (e_new E)) (\<lambda>(_, trades, book).
      call (e_submit E (test_order 2 10050 50 1100 Buy Limit) trades book) (\<lambda>(_, trades, book).
      assert_value 118 (e_best_bid E book) 10050 (
      call (e_submit E (test_order 3 10000 80 2000 Sell Limit) trades book) (\<lambda>(_, trades, book).
      assert_true 130 (length trades = 2) (
      at trades 0 (\<lambda>t.
      assert_true 132 (maker_order_id t = 2) (
      assert_true 133 (taker_order_id t = 3) (
      assert_true 134 (trade_price t = 10050) (
      assert_true 135 (trade_quantity t = 50) (
      at trades 1 (\<lambda>t.
      assert_true 137 (maker_order_id t = 1) (
      assert_true 138 (taker_order_id t = 3) (
      assert_true 139 (trade_price t = 10000) (
      assert_true 140 (trade_quantity t = 30) (
      assert_true 143 (e_total E book = 1) (
      assert_true 144 (e_has E 1 book) (
      assert_true 145 (\<not> e_has E 2 book) (
      assert_true 146 (\<not> e_has E 3 book) (
      call (e_get E 1 book) (\<lambda>ord1.
      assert_true 149 (ord1 \<noteq> None) (
      call ord1 (\<lambda>ord1.
      assert_true 150 (remaining_quantity ord1 = 70) (
      assert_value 151 (e_best_bid E book) 10000 Passed))))))))))))))))))))))))"

definition test_time_priority_fifo :: "'b engine \<Rightarrow> verdict" where
  "test_time_priority_fifo E =
     (call (e_submit E (test_order 101 10200 50 1000 Sell Limit) [] (e_new E)) (\<lambda>(_, trades, book).
      call (e_submit E (test_order 102 10200 50 2000 Sell Limit) trades book) (\<lambda>(_, trades, book).
      call (e_volume E Sell 10200 book) (\<lambda>volume.
      assert_true 183 (volume = 100) (
      call (e_submit E (test_order 103 10200 60 3000 Buy Limit) trades book) (\<lambda>(_, trades, book).
      assert_true 197 (length trades = 2) (
      at trades 0 (\<lambda>t.
      assert_true 198 (maker_order_id t = 101) (
      assert_true 199 (trade_quantity t = 50) (
      at trades 1 (\<lambda>t.
      assert_true 201 (maker_order_id t = 102) (
      assert_true 202 (trade_quantity t = 10) (
      assert_true 205 (\<not> e_has E 101 book) (
      assert_true 206 (e_has E 102 book) (
      call (e_get E 102 book) (\<lambda>ord2. call ord2 (\<lambda>ord2.
      assert_true 207 (remaining_quantity ord2 = 40) (
      call (e_volume E Sell 10200 book) (\<lambda>volume.
      assert_true 208 (volume = 40) Passed)))))))))))))))))))"

definition test_cancellation :: "'b engine \<Rightarrow> verdict" where
  "test_cancellation E =
     (call (e_submit E (test_order 501 9900 100 1000 Buy Limit) [] (e_new E)) (\<lambda>(_, trades, book).
      call (e_submit E (test_order 502 9900 200 1100 Buy Limit) trades book) (\<lambda>(_, trades, book).
      assert_true 237 (e_total E book = 2) (
      call (e_volume E Buy 9900 book) (\<lambda>volume.
      assert_true 238 (volume = 300) (
      call (e_cancel E 501 book) (\<lambda>(ok, book).
      assert_true 241 ok (
      assert_true 242 (\<not> e_has E 501 book) (
      assert_true 243 (e_total E book = 1) (
      call (e_volume E Buy 9900 book) (\<lambda>volume.
      assert_true 244 (volume = 200) (
      call (e_cancel E 501 book) (\<lambda>(ok, book).
      assert_true 247 (\<not> ok) (
      call (e_cancel E 502 book) (\<lambda>(ok, book).
      assert_true 250 ok (
      assert_true 251 (e_total E book = 0) (
      assert_true 252 (e_bid_levels E book = 0) (
      assert_true 253 (e_best_bid E book = None) Passed))))))))))))))))))"

definition test_market_order :: "'b engine \<Rightarrow> verdict" where
  "test_market_order E =
     (call (e_submit E (test_order 1 10100 100 1000 Sell Limit) [] (e_new E)) (\<lambda>(_, trades, book).
      call (e_submit E (test_order 2 10200 100 1100 Sell Limit) trades book) (\<lambda>(_, trades, book).
      call (e_submit E (test_order 3 0 150 2000 Buy Market) [] book) (\<lambda>(_, trades, book).
      assert_true 295 (length trades = 2) (
      at trades 0 (\<lambda>t.
      assert_true 296 (maker_order_id t = 1) (
      assert_true 297 (trade_quantity t = 100) (
      assert_true 298 (trade_price t = 10100) (
      at trades 1 (\<lambda>t.
      assert_true 300 (maker_order_id t = 2) (
      assert_true 301 (trade_quantity t = 50) (
      assert_true 302 (trade_price t = 10200) (
      assert_true 305 (e_total E book = 1) (
      call (e_get E 2 book) (\<lambda>ord2. call ord2 (\<lambda>ord2.
      assert_true 306 (remaining_quantity ord2 = 50) (
      assert_true 309 (\<not> e_has E 3 book) Passed)))))))))))))))))"

definition stl_test_main :: "'b engine \<Rightarrow> verdict" where
  "stl_test_main E =
     and_then (test_basic_resting_orders E) (
     and_then (test_single_full_match E) (
     and_then (test_maker_price_priority_and_partial_fills E) (
     and_then (test_time_priority_fifo E) (
     and_then (test_cancellation E) (test_market_order E)))))"

section \<open>The test of the pool order book\<close>

definition test_pool_unit_tests :: "'b engine \<Rightarrow> verdict" where
  "test_pool_unit_tests E =
     (call (e_submit E (test_order 1 10000 100 1000 Buy Limit) [] (e_new E)) (\<lambda>(_, trades, book).
      call (e_submit E (test_order 2 10100 50 2000 Sell Limit) trades book) (\<lambda>(_, trades, book).
      assert_true 31 (e_total E book = 2) (
      assert_value 32 (e_best_bid E book) 10000 (
      assert_value 33 (e_best_ask E book) 10100 (
      call (e_cancel E 1 book) (\<lambda>(ok, book).
      assert_true 36 ok (
      assert_true 37 (\<not> e_has E 1 book) (
      assert_true 38 (e_best_bid E book = None) (
      assert_true 39 (e_total E book = 1) (
      call (e_submit E (test_order 3 0 50 3000 Buy Market) [] book) (\<lambda>(_, trades, book).
      assert_true 44 (length trades = 1) (
      at trades 0 (\<lambda>t.
      assert_true 45 (maker_order_id t = 2) (
      assert_true 46 (taker_order_id t = 3) (
      assert_true 47 (trade_quantity t = 50) (
      assert_true 48 (trade_price t = 10100) (
      assert_true 49 (e_total E book = 0) Passed))))))))))))))))))"

section \<open>The sequential test of the queue\<close>

definition test_basic_spsc :: verdict where
  "test_basic_spsc =
     (call (spsc_new (0 :: int) 4) (\<lambda>q.
      assert_true 21 (spsc_capacity q = 4) (
      assert_true 22 (spsc_empty q) (
      assert_true 23 (spsc_size q = 0) (
      case push 10 q of (ok, q) \<Rightarrow> assert_true 25 ok (
      case push 20 q of (ok, q) \<Rightarrow> assert_true 26 ok (
      case push 30 q of (ok, q) \<Rightarrow> assert_true 27 ok (
      case push 40 q of (ok, q) \<Rightarrow> assert_true 28 ok (
      case push 50 q of (ok, q) \<Rightarrow> assert_true 30 (\<not> ok) (
      assert_true 31 (spsc_size q = 4) (
      case pop q of (val, q) \<Rightarrow> assert_true 34 (val \<noteq> None) (
      assert_true 35 (val = Some 10) (
      assert_true 36 (spsc_size q = 3) (
      case push 50 q of (ok, q) \<Rightarrow> assert_true 38 ok (
      assert_true 39 (spsc_size q = 4) (
      case pop_batch 10 q of (batch, q) \<Rightarrow> assert_true 43 (length batch = 4) (
      assert_true 44 (length batch = 4) (
      at batch 0 (\<lambda>x. assert_true 45 (x = 20) (
      at batch 1 (\<lambda>x. assert_true 46 (x = 30) (
      at batch 2 (\<lambda>x. assert_true 47 (x = 40) (
      at batch 3 (\<lambda>x. assert_true 48 (x = 50) (
      assert_true 49 (spsc_empty q) Passed))))))))))))))))))))))))))"

end
