(* ===== verification/Test_Programs.thy ===== *)
theory Test_Programs
  imports Unit_Tests Differential_Test Progress
begin

text \<open>
  The test programs as a whole, and why the longer ones pass: the pool test by the engine
  contract, for any initial capacity, the differential test by the refinement of both engines, and
  the two-thread test of the queue, in every interleaving, by an invariant. The contract here is
  that of \<open>matching_engine\<close> with the queries a test makes.
\<close>

section \<open>Engines with queries\<close>

locale queried_engine = matching_engine +
  fixes has_order :: "order_id \<Rightarrow> 'b \<Rightarrow> bool"
    and best_bid :: "'b \<Rightarrow> price option"
    and best_ask :: "'b \<Rightarrow> price option"
  assumes has_refines: "inv b \<Longrightarrow> has_order i b \<longleftrightarrow> i \<in> lob_ids (abs b)"
    and best_refines: "inv b \<Longrightarrow> best_bid b = lob_best Buy (abs b)" "inv b \<Longrightarrow> best_ask b = lob_best Sell (abs b)"

text \<open>The books the pool test goes through, on the price-time book.\<close>

definition pool_test_bid :: lob where
  "pool_test_bid = snd (snd (lob_submit (test_order 1 10000 100 1000 Buy Limit) lob_empty))"

definition pool_test_both :: lob where
  "pool_test_both = snd (snd (lob_submit (test_order 2 10100 50 2000 Sell Limit) pool_test_bid))"

definition pool_test_ask :: lob where
  "pool_test_ask = snd (lob_cancel 1 pool_test_both)"

definition pool_test_trade :: trade where
  "pool_test_trade = \<lparr>maker_order_id = 2, taker_order_id = 3, trade_price = 10100, trade_quantity = 50,
     trade_timestamp = 3000, aggressor_side = Buy\<rparr>"

definition pool_test_end :: lob where
  "pool_test_end = snd (snd (lob_submit (test_order 3 0 50 3000 Buy Market) pool_test_ask))"

lemma pool_test_on_book:
  "lob_submit (test_order 1 10000 100 1000 Buy Limit) lob_empty = (True, [], pool_test_bid)"
  "lob_submit (test_order 2 10100 50 2000 Sell Limit) pool_test_bid = (True, [], pool_test_both)"
  "length (lob_orders pool_test_both) = 2" "lob_best Buy pool_test_both = Some 10000"
  "lob_best Sell pool_test_both = Some 10100"
  "lob_cancel 1 pool_test_both = (True, pool_test_ask)" "1 \<notin> lob_ids pool_test_ask"
  "lob_best Buy pool_test_ask = None" "length (lob_orders pool_test_ask) = 1"
  "lob_submit (test_order 3 0 50 3000 Buy Market) pool_test_ask = (True, [pool_test_trade], pool_test_end)"
  "length (lob_orders pool_test_end) = 0"
proof -
  have pair: "fst p = ok \<Longrightarrow> fst (snd p) = ts \<Longrightarrow> p = (ok, ts, snd (snd p))" for p and ok :: bool and ts :: "trade list"
    by (cases p) auto
  show "lob_submit (test_order 1 10000 100 1000 Buy Limit) lob_empty = (True, [], pool_test_bid)"
    unfolding pool_test_bid_def by (rule pair; code_simp)
  show "lob_submit (test_order 2 10100 50 2000 Sell Limit) pool_test_bid = (True, [], pool_test_both)"
    unfolding pool_test_both_def by (rule pair; code_simp)
  show "lob_submit (test_order 3 0 50 3000 Buy Market) pool_test_ask = (True, [pool_test_trade], pool_test_end)"
    unfolding pool_test_end_def by (rule pair; code_simp)
  have "fst (lob_cancel 1 pool_test_both) = True" by code_simp
  then show "lob_cancel 1 pool_test_both = (True, pool_test_ask)"
    unfolding pool_test_ask_def by (metis prod.collapse)
qed (code_simp+)

context queried_engine
begin

text \<open>The test passes on every engine that keeps the contract.\<close>

lemma pool_test_passes:
  assumes new: "inv b0" "abs b0 = lob_empty" "room 3 b0"
  shows "test_pool_unit_tests
    \<lparr>e_submit = submit_order, e_cancel = cancel_order, e_has = has_order, e_get = get_order,
     e_best_bid = best_bid, e_best_ask = best_ask, e_total = total_orders, e_bid_levels = levels,
     e_volume = volume, e_new = b0\<rparr> = Passed"
proof -
  have room: "room (Suc (Suc (Suc 0))) b0" using new(3) by (simp add: numeral_eq_Suc)
  obtain b1 where b1: "submit_order (test_order 1 10000 100 1000 Buy Limit) [] b0 = Some (True, [], b1)"
    "inv b1" "room (Suc (Suc 0)) b1" "abs b1 = pool_test_bid"
    using submit_refines [OF new(1) room, of _ True "[]" pool_test_bid "[]"] pool_test_on_book(1) new(2) by auto
  obtain b2 where b2: "submit_order (test_order 2 10100 50 2000 Sell Limit) [] b1 = Some (True, [], b2)"
    "inv b2" "room (Suc 0) b2" "abs b2 = pool_test_both"
    using submit_refines [OF b1(2,3), of _ True "[]" pool_test_both "[]"] pool_test_on_book(2) b1(4) by auto
  obtain b3 where b3: "cancel_order 1 b2 = Some (True, b3)" "inv b3" "room (Suc 0) b3" "abs b3 = pool_test_ask"
    using cancel_refines [OF b2(2,3), of 1 True pool_test_ask] pool_test_on_book(6) b2(4) by auto
  obtain b4 where b4: "submit_order (test_order 3 0 50 3000 Buy Market) [] b3
      = Some (True, [pool_test_trade], b4)" "inv b4" "abs b4 = pool_test_end"
    using submit_refines [OF b3(2,3), of _ True "[pool_test_trade]" pool_test_end "[]"] pool_test_on_book(10) b3(4)
    by auto
  show ?thesis
    using pool_test_on_book b1 b2 b3 b4
    by (simp add: test_pool_unit_tests_def call_def assert_true_def assert_value_def at_def
        total_refines best_refines has_refines pool_test_trade_def)
qed

end

interpretation stl_queries: queried_engine stl_submit_order stl_cancel_order stl_get_order stl_clear
  stl_total_orders stl_inv stl_abs "\<lambda>_ _. True" stl_has_order stl_best_bid stl_best_ask
  by unfold_locales (simp_all add: stl_has_order_correct stl_best_correct)

interpretation pool_queries: queried_engine pool_submit_order pool_cancel_order pool_get_order pool_clear
  pool_total_orders pool_inv pool_abs pool_room pool_has_order pool_best_bid pool_best_ask
  by unfold_locales (simp_all add: pool_has_order_correct pool_best_correct)

lemma pool_unit_tests_pass:
  assumes "capacity < 2 ^ 32"
  shows "test_pool_unit_tests (pool_engine capacity) = Passed"
  unfolding pool_engine_def
  by (rule pool_queries.pool_test_passes) (simp_all add: pool_new_correct [OF assms] pool_new_room)

section \<open>The main function of the differential test\<close>

definition fuzz_verdict :: "bool option \<Rightarrow> verdict" where
  "fuzz_verdict r = (case r of None \<Rightarrow> Aborted | Some ok \<Rightarrow> if ok then Passed else Failed 0)"

definition differential_test_main :: "'r sampler \<Rightarrow> verdict" where
  "differential_test_main S =
     and_then (test_pool_unit_tests (pool_engine 1000)) (
     and_then (fuzz_verdict (test_differential_fuzzing S 10000 42))
       (fuzz_verdict (test_differential_fuzzing S 50000 1337)))"

section \<open>The two-thread test of the queue\<close>

text \<open>
  The producer pushes \<open>0, 1, \<dots>\<close> up to \<open>items\<close>, retrying while the queue is full; the consumer takes
  batches of up to 128 until it has \<open>items\<close> values. The argument \<open>v\<close> of its step is the number of
  elements its load of tail, which may be stale, lets it see.
\<close>

record queue_test =
  test_queue :: "u64 spsc_queue"
  produced :: u64
  consumed :: "u64 list"

definition queue_test_start :: "queue_test option" where
  "queue_test_start =
     map_option (\<lambda>q. \<lparr>test_queue = q, produced = 0, consumed = []\<rparr>) (spsc_new 0 65536)"

definition produce :: "u64 \<Rightarrow> queue_test \<Rightarrow> queue_test" where
  "produce items s =
     (if produced s < items then
        case push (produced s) (test_queue s) of
          (True, q) \<Rightarrow> s\<lparr>test_queue := q, produced := produced s + 1\<rparr>
        | (False, _) \<Rightarrow> s
      else s)"

definition consume :: "u64 \<Rightarrow> u64 \<Rightarrow> queue_test \<Rightarrow> queue_test" where
  "consume items v s =
     (if length (consumed s) < unat items then
        case pop_batch (min 128 v) (test_queue s) of
          (batch, q) \<Rightarrow> s\<lparr>test_queue := q, consumed := consumed s @ batch\<rparr>
      else s)"

inductive queue_test_step :: "u64 \<Rightarrow> queue_test \<Rightarrow> queue_test \<Rightarrow> bool" for items where
  producer: "queue_test_step items s (produce items s)"
| consumer: "queue_test_step items s (consume items v s)"

inductive_cases queue_test_stepE: "queue_test_step items s s'"

definition both_joined :: "u64 \<Rightarrow> queue_test \<Rightarrow> bool" where
  "both_joined items s \<longleftrightarrow> \<not> produced s < items \<and> \<not> length (consumed s) < unat items"

definition queue_test_verdict :: "u64 \<Rightarrow> queue_test \<Rightarrow> verdict" where
  "queue_test_verdict items s =
     assert_true 87 (length (consumed s) = unat items) (
     if \<forall>i < unat items. consumed s ! i = word_of_nat i then Passed else Failed 89)"

definition queue_test_inv :: "u64 \<Rightarrow> queue_test \<Rightarrow> bool" where
  "queue_test_inv items s \<longleftrightarrow>
     spsc_inv (test_queue s) \<and> produced s \<le> items
     \<and> consumed s @ contents (test_queue s) = map word_of_nat [0..<unat (produced s)]"

definition queue_test_left :: "u64 \<Rightarrow> queue_test \<Rightarrow> nat" where
  "queue_test_left items s = 2 * (unat items - unat (produced s)) + fill (test_queue s)"

lemma produce_step:
  assumes inv: "queue_test_inv items s" and more: "produced s < items"
    and p: "push (produced s) (test_queue s) = (True, q)"
  shows "queue_test_inv items (s\<lparr>test_queue := q, produced := produced s + 1\<rparr>)"
    "queue_test_left items (s\<lparr>test_queue := q, produced := produced s + 1\<rparr>) < queue_test_left items s"
proof -
  have law: "spsc_inv q" "contents q = contents (test_queue s) @ [produced s]"
    using inv spsc.push_law [OF _ p] by (simp_all add: queue_test_inv_def)
  have less: "unat (produced s) < unat items" using more by (simp add: word_less_nat_alt)
  then have next_i: "unat (produced s + 1) = Suc (unat (produced s))"
    using unat_less_64 [of items] by (simp add: unat_word_ariths)
  have "consumed s @ contents q = map word_of_nat [0..<unat (produced s)] @ [produced s]"
    using inv law(2) by (simp add: queue_test_inv_def flip: append_assoc)
  then show "queue_test_inv items (s\<lparr>test_queue := q, produced := produced s + 1\<rparr>)"
    using law(1) less next_i by (simp add: queue_test_inv_def word_le_nat_alt)
  have "fill q = Suc (fill (test_queue s))" using law(2) by (metis length_append_singleton length_contents)
  then show "queue_test_left items (s\<lparr>test_queue := q, produced := produced s + 1\<rparr>) < queue_test_left items s"
    using less next_i by (simp add: queue_test_left_def)
qed

lemma consume_step:
  assumes inv: "queue_test_inv items s" and p: "pop_batch m (test_queue s) = (batch, q)"
  shows "queue_test_inv items (s\<lparr>test_queue := q, consumed := consumed s @ batch\<rparr>)"
  using inv spsc.pop_law [OF _ p] by (auto simp: queue_test_inv_def)

lemma queue_test_sizes:
  assumes "queue_test_inv items s"
  shows "length (consumed s) + fill (test_queue s) = unat (produced s)"
proof -
  have "length (consumed s @ contents (test_queue s)) = length (map word_of_nat [0..<unat (produced s)] :: u64 list)"
    using assms by (simp only: queue_test_inv_def)
  then show ?thesis by simp
qed

interpretation queue_test: progress "queue_test_step items" "queue_test_inv items" "both_joined items"
    "queue_test_left items"
  for items
proof
  fix s s'
  assume inv: "queue_test_inv items s" and "queue_test_step items s s'"
  from this(2) show "queue_test_inv items s'"
    by (rule queue_test_stepE)
      (use inv produce_step(1) [OF inv] consume_step [OF inv] in
        \<open>auto simp: produce_def consume_def split: prod.split bool.split\<close>)
next
  fix s
  assume inv: "queue_test_inv items s" and busy: "\<not> both_joined items s"
  have queue: "spsc_inv (test_queue s)" using inv by (simp add: queue_test_inv_def)
  have sizes: "length (consumed s) + fill (test_queue s) = unat (produced s)"
    using queue_test_sizes [OF inv] .
  show "\<exists>s'. queue_test_step items s s' \<and> queue_test_left items s' < queue_test_left items s"
  proof (cases "fill (test_queue s) = 0")
    case True
    have more: "produced s < items"
    proof (rule ccontr)
      assume "\<not> produced s < items"
      with inv have "produced s = items" by (simp add: queue_test_inv_def)
      with True sizes busy show False by (simp add: both_joined_def)
    qed
    obtain ok q where p: "push (produced s) (test_queue s) = (ok, q)" by (cases "push (produced s) (test_queue s)")
    have "ok" using spsc.push_law [OF queue p] True capacity_pos [OF queue] by simp
    with p more produce_step(2) [OF inv more] have "queue_test_left items (produce items s) < queue_test_left items s"
      by (simp add: produce_def)
    then show ?thesis by (blast intro: producer)
  next
    case False
    obtain batch q where p: "pop_batch 128 (test_queue s) = (batch, q)" by (cases "pop_batch 128 (test_queue s)")
    from spsc.pop_law [OF queue p] have "fill q = fill (test_queue s) - 128"
      using length_contents [of q] by simp
    moreover have "length (consumed s) < unat items"
      using sizes False inv by (simp add: queue_test_inv_def word_le_nat_alt)
    ultimately have "queue_test_left items (consume items 128 s) < queue_test_left items s"
      using p False by (simp add: consume_def queue_test_left_def)
    then show ?thesis by (blast intro: consumer)
  qed
qed

lemma queue_test_start_inv:
  "\<exists>s. queue_test_start = Some s \<and> queue_test_inv items s"
proof -
  obtain q where "spsc_new 0 65536 = Some (q :: u64 spsc_queue)" "spsc_inv q" "contents q = []"
    using spsc_new_correct [of 65536 "0 :: u64"] by auto
  then show ?thesis by (simp add: queue_test_start_def queue_test_inv_def)
qed

lemma queue_test_joined:
  assumes "queue_test_inv items s" "both_joined items s"
  shows "queue_test_verdict items s = Passed"
proof -
  have "produced s = items" using assms by (auto simp: queue_test_inv_def both_joined_def)
  with queue_test_sizes [OF assms(1)] assms(2) have "contents (test_queue s) = []"
    by (simp add: both_joined_def contents_empty_fill)
  with assms(1) \<open>produced s = items\<close> have "consumed s = map word_of_nat [0..<unat items]"
    by (simp add: queue_test_inv_def)
  then show ?thesis by (simp add: queue_test_verdict_def assert_true_def)
qed

end
