(* ===== verification/Report_Properties.thy ===== *)
theory Report_Properties
  imports Benchmark_Properties Benchmark_Suite Pipeline_Main Test_Programs
begin

text \<open>
  The properties of the benchmark and test programs as a whole: what their main functions report.
\<close>

section \<open>The comparison of the engines\<close>



section \<open>The queue benchmark\<close>

text \<open>C37. The queue benchmark. For up to \<open>2 ^ 31\<close> orders each of its fourteen runs can end, and however
  the threads are scheduled all of them report the same number of remaining orders, the number a
  single thread would leave, and the closed loops have latency statistics.\<close>

theorem queue_benchmark_reports:
  assumes "sampler_ok 50 S" "unat count_arg \<le> 2 ^ 31"
  shows "(\<exists>acts outcomes. spsc_benchmark_main S count_arg acts outcomes)
    \<and> (\<forall>acts outcomes. spsc_benchmark_main S count_arg acts outcomes \<longrightarrow>
         map remaining_book outcomes = replicate 14 (length (lob_orders (snd (snd (lob_run acts lob_empty)))))
         \<and> (\<forall>s \<in> set (drop 4 outcomes). closed_loop_stats rnd acts s \<noteq> None))"
proof -
  have "unat count_arg < 2 ^ 62" using assms(2) by simp
  then obtain acts0 where acts0: "generate S Balanced count_arg 42 10000 50 = Some acts0"
    "length acts0 = unat count_arg"
    using generate_ok [OF assms(1), of 10000 count_arg Balanced 42] by auto
  then have room: "length acts0 \<le> 2 ^ 31" using assms(2) by simp
  show ?thesis
    using all_runs_end [OF room] all_runs_outcome [OF _ room] acts0(1)
    by (auto simp: spsc_benchmark_main_def)
qed

theorem queue_benchmark_reports_witness:
  "\<exists>acts outcomes. spsc_benchmark_main lcg_sampler 200000 acts outcomes \<and> length outcomes = 14
    \<and> (\<exists>n. set (map remaining_book outcomes) = {n})"
proof -
  have "unat (200000 :: u64) \<le> 2 ^ 31" by simp
  note r = queue_benchmark_reports [OF lcg_sampler_ok this]
  then obtain acts outcomes where m: "spsc_benchmark_main lcg_sampler 200000 acts outcomes" by blast
  with r [of "\<lambda>x. x"] have eq: "map remaining_book outcomes
      = replicate 14 (length (lob_orders (snd (snd (lob_run acts lob_empty)))))" by blast
  then have "length outcomes = 14" by (metis length_map length_replicate)
  with m eq show ?thesis by (intro exI [of _ acts] exI [of _ outcomes]) simp
qed

section \<open>The tests\<close>

lemma stl_tests_pass: "stl_test_main stl_engine = Passed" "test_basic_spsc = Passed"
  by code_simp+

text \<open>The tests written for the STL book, run on a pool with four slots.\<close>

lemma stl_tests_on_pool: "stl_test_main (pool_engine 4) = Failed 208"
  by code_simp

text \<open>C39. The tests of the engines and of the queue pass on the model: the six tests of the STL book, the
  pool test and the two differential runs for any draws, the sequential test of the queue, and in
  every interleaving the test with two threads, which can always finish. The tests of the STL
  book do not all pass on the pool engine: the volume of a level is wrong after a partial fill, and
  the assertion in line 208 fails.\<close>

theorem test_programs_pass:
  assumes "sampler_ok 50 S"
  shows "stl_test_main stl_engine = Passed \<and> stl_test_main (pool_engine 4) = Failed 208
    \<and> differential_test_main S = Passed \<and> test_basic_spsc = Passed
    \<and> (\<exists>s0. queue_test_start = Some s0
         \<and> (\<forall>s. (queue_test_step 1000000)\<^sup>*\<^sup>* s0 s \<longrightarrow>
              (both_joined 1000000 s \<longrightarrow> queue_test_verdict 1000000 s = Passed)
              \<and> (\<exists>s'. (queue_test_step 1000000)\<^sup>*\<^sup>* s s' \<and> both_joined 1000000 s')))"
proof -
  have "differential_test_main S = Passed"
    using differential_test_passes [OF assms, of 10000 42] differential_test_passes [OF assms, of 50000 1337]
      pool_unit_tests_pass [of 1000]
    by (simp add: differential_test_main_def fuzz_verdict_def and_then_def)
  moreover obtain s0 where s0: "queue_test_start = Some s0" "queue_test_inv 1000000 s0"
    using queue_test_start_inv by blast
  have "queue_test_verdict 1000000 s = Passed"
    if "(queue_test_step 1000000)\<^sup>*\<^sup>* s0 s" "both_joined 1000000 s" for s
    using queue_test_joined [OF queue_test.reachable_inv [OF that(1) s0(2)] that(2)] .
  moreover have "\<exists>s'. (queue_test_step 1000000)\<^sup>*\<^sup>* s s' \<and> both_joined 1000000 s'"
    if "(queue_test_step 1000000)\<^sup>*\<^sup>* s0 s" for s
    using queue_test.can_finish [OF that s0(2)] .
  ultimately show ?thesis using stl_tests_pass stl_tests_on_pool s0(1) by blast
qed

theorem test_programs_pass_witness: "differential_test_main lcg_sampler = Passed"
  using test_programs_pass [OF lcg_sampler_ok] by blast

end
