(* ===== verification/Gateway_Sockets.thy ===== *)
theory Gateway_Sockets
  imports Gateway
begin

text \<open>
  Bringing up the listening socket: \<^verbatim>\<open>TcpServer::setup_server_socket\<close> with its error
  paths. The system calls are a record of functions of the environment. The open descriptors are tracked by a function of the environment,
  so that leaks can be excluded.
\<close>

section \<open>The listening socket\<close>

record 'e sock_os =
  sk_socket :: "'e \<Rightarrow> fd \<times> 'e"
  sk_inet_pton :: "string \<Rightarrow> u32 option"
  sk_bind :: "fd \<Rightarrow> u32 \<Rightarrow> u16 \<Rightarrow> 'e \<Rightarrow> bool \<times> 'e"
  sk_listen :: "fd \<Rightarrow> 'e \<Rightarrow> bool \<times> 'e"
  sk_epoll_create :: "'e \<Rightarrow> fd \<times> 'e"
  sk_epoll_add :: "fd \<Rightarrow> fd \<Rightarrow> 'e \<Rightarrow> bool \<times> 'e"
  sk_close :: "fd \<Rightarrow> 'e \<Rightarrow> 'e"
  sk_calls :: "'e fd_calls"

definition INADDR_ANY :: u32 where
  "INADDR_ANY = 0"

text \<open>The options of the listening socket; no result is looked at.\<close>

definition listening_options :: "'e fd_calls \<Rightarrow> fd \<Rightarrow> 'e \<Rightarrow> 'e" where
  "listening_options fc server_fd e =
     (let (_, e) = fc_setsockopt fc server_fd So_reuseaddr e;
          (_, e) = fc_setsockopt fc server_fd So_reuseport e;
          (_, e) = disable_nagle fc server_fd e;
          (_, e) = set_non_blocking fc server_fd e
      in e)"

lemma listening_options_alt:
  "listening_options fc fd e = snd (set_non_blocking fc fd (snd (disable_nagle fc fd
     (snd (fc_setsockopt fc fd So_reuseport (snd (fc_setsockopt fc fd So_reuseaddr e)))))))"
  by (simp add: listening_options_def split: prod.split)

lemma listening_options_keep: "calls_keep fc obs \<Longrightarrow> obs (listening_options fc fd e) = obs e"
  by (simp add: listening_options_alt settings_keep) (simp add: calls_keep_def)

text \<open>The result, the two descriptors of the server and the environment.\<close>

definition setup_server_socket ::
    "'e sock_os \<Rightarrow> string \<Rightarrow> u16 \<Rightarrow> fd \<Rightarrow> 'e \<Rightarrow> bool \<times> fd \<times> fd \<times> 'e" where
  "setup_server_socket sk host port epoll_fd e =
     (let (server_fd, e) = sk_socket sk e in
      if server_fd < 0 then (False, server_fd, epoll_fd, e)
      else
        let e = listening_options (sk_calls sk) server_fd e;
            address = (case sk_inet_pton sk host of Some a \<Rightarrow> a | None \<Rightarrow> INADDR_ANY);
            (bound, e) = sk_bind sk server_fd address port e
        in if \<not> bound then (False, - 1, epoll_fd, sk_close sk server_fd e)
        else
          let (listening, e) = sk_listen sk server_fd e
          in if \<not> listening then (False, - 1, epoll_fd, sk_close sk server_fd e)
          else
            let (epoll_fd, e) = sk_epoll_create sk e
            in if epoll_fd < 0 then (False, - 1, epoll_fd, sk_close sk server_fd e)
            else
              let (added, e) = sk_epoll_add sk epoll_fd server_fd e
              in if \<not> added then (False, - 1, - 1, sk_close sk server_fd (sk_close sk epoll_fd e))
                 else (True, server_fd, epoll_fd, e))"

text \<open>What the calls do to the set of open descriptors.\<close>

definition opens :: "('e \<Rightarrow> fd \<times> 'e) \<Rightarrow> ('e \<Rightarrow> fd set) \<Rightarrow> bool" where
  "opens call open_fds \<longleftrightarrow>
     (\<forall>e. case call e of (fd, e') \<Rightarrow>
        if fd < 0 then open_fds e' = open_fds e
        else fd \<notin> open_fds e \<and> open_fds e' = insert fd (open_fds e))"

definition sockets_ok :: "'e sock_os \<Rightarrow> ('e \<Rightarrow> fd set) \<Rightarrow> bool" where
  "sockets_ok sk open_fds \<longleftrightarrow>
     opens (sk_socket sk) open_fds \<and> opens (sk_epoll_create sk) open_fds
     \<and> (\<forall>fd a p e. open_fds (snd (sk_bind sk fd a p e)) = open_fds e)
     \<and> (\<forall>fd e. open_fds (snd (sk_listen sk fd e)) = open_fds e)
     \<and> (\<forall>ep fd e. open_fds (snd (sk_epoll_add sk ep fd e)) = open_fds e)
     \<and> (\<forall>fd e. open_fds (sk_close sk fd e) = open_fds e - {fd}) \<and> calls_keep (sk_calls sk) open_fds"

lemma opensD:
  assumes "opens call open_fds" "call e = (fd, e')"
  shows "fd < 0 \<Longrightarrow> open_fds e' = open_fds e"
    "\<not> fd < 0 \<Longrightarrow> fd \<notin> open_fds e \<and> open_fds e' = insert fd (open_fds e)"
  using assms(1) unfolding opens_def by (force simp: assms(2) dest: spec [of _ e])+

text \<open>A failed set-up leaves no descriptor open; a successful one leaves exactly the two.\<close>

lemma setup_no_leak:
  assumes os: "sockets_ok sk open_fds"
    and run: "setup_server_socket sk host port (- 1) e = (ok, server_fd, epoll_fd, e')"
  shows "if ok then 0 \<le> server_fd \<and> 0 \<le> epoll_fd \<and> open_fds e' = open_fds e \<union> {server_fd, epoll_fd}
      \<and> open_fds e \<inter> {server_fd, epoll_fd} = {}
    else server_fd < 0 \<and> epoll_fd < 0 \<and> open_fds e' = open_fds e"
proof -
  obtain s e0 where c1: "sk_socket sk e = (s, e0)" by (cases "sk_socket sk e")
  define e1 where "e1 = listening_options (sk_calls sk) s e0"
  define address where "address = (case sk_inet_pton sk host of Some a \<Rightarrow> a | None \<Rightarrow> INADDR_ANY)"
  obtain b e2 where c2: "sk_bind sk s address port e1 = (b, e2)" by (cases "sk_bind sk s address port e1")
  obtain l e3 where c3: "sk_listen sk s e2 = (l, e3)" by (cases "sk_listen sk s e2")
  obtain ep e4 where c4: "sk_epoll_create sk e3 = (ep, e4)" by (cases "sk_epoll_create sk e3")
  obtain a e5 where c5: "sk_epoll_add sk ep s e4 = (a, e5)" by (cases "sk_epoll_add sk ep s e4")
  have o: "opens (sk_socket sk) open_fds" "opens (sk_epoll_create sk) open_fds"
    "\<And>fd e. open_fds (sk_close sk fd e) = open_fds e - {fd}"
    using os by (simp_all add: sockets_ok_def)
  have "open_fds e1 = open_fds e0"
    unfolding e1_def by (rule listening_options_keep) (use os in \<open>simp add: sockets_ok_def\<close>)
  moreover have "open_fds e2 = open_fds e1" "open_fds e3 = open_fds e2" "open_fds e5 = open_fds e4"
    using os c2 c3 c5 unfolding sockets_ok_def by (metis snd_conv)+
  ultimately have same: "open_fds e1 = open_fds e0" "open_fds e2 = open_fds e1" "open_fds e3 = open_fds e2"
    "open_fds e5 = open_fds e4" by simp_all
  note steps = opensD [OF o(1) c1] opensD [OF o(2) c4] same o(3)
  from run show ?thesis
    unfolding setup_server_socket_def c1 prod.case Let_def e1_def [symmetric] address_def [symmetric] prod.case c2 c3 c4 c5
    using steps by (auto split: if_splits)
qed

text \<open>
  An instance: a table of open descriptors in which every call succeeds, except that \<^verbatim>\<open>bind\<close>
  fails on the ports given.
\<close>

definition fresh_fd :: "fd list \<Rightarrow> fd" where
  "fresh_fd table = fold max table 2 + 1"

definition table_os :: "u16 list \<Rightarrow> fd list sock_os" where
  "table_os taken =
     \<lparr>sk_socket = (\<lambda>t. (fresh_fd t, fresh_fd t # t)), sk_inet_pton = (\<lambda>_. None),
      sk_bind = (\<lambda>fd a p t. (p \<notin> set taken, t)), sk_listen = (\<lambda>fd t. (True, t)),
      sk_epoll_create = (\<lambda>t. (fresh_fd t, fresh_fd t # t)), sk_epoll_add = (\<lambda>ep fd t. (True, t)),
      sk_close = (\<lambda>fd t. filter (\<lambda>x. x \<noteq> fd) t), sk_calls = no_options\<rparr>"

lemma fold_max_le: "(d :: int) \<le> fold max t d \<and> (\<forall>x \<in> set t. x \<le> fold max t d)"
proof (induction t arbitrary: d)
  case (Cons y t)
  from Cons [of "max y d"] show ?case by auto
qed simp

lemma table_os_ok: "sockets_ok (table_os taken) set"
proof -
  have "\<not> fresh_fd t < 0" "fresh_fd t \<notin> set t" for t
    using fold_max_le [of 2 t] by (auto simp: fresh_fd_def)
  then show ?thesis by (auto simp: sockets_ok_def opens_def table_os_def no_options_keep)
qed

lemma port_taken:
  "setup_server_socket (table_os [8080]) ''localhost'' 8080 (- 1) [0, 1, 2] = (False, - 1, - 1, [0, 1, 2])"
  by code_simp

end
