(* ===== verification/Gateway_Loop.thy ===== *)
theory Gateway_Loop
  imports Gateway_Sockets Gateway_Refinement
begin

text \<open>
  \<^verbatim>\<open>TcpServer\<close> as a whole: the constructor, \<^verbatim>\<open>start()\<close> with its
  polling loop and its way out, \<^verbatim>\<open>stop()\<close> and the monitoring calls. In
  \<open>Gateway_Threads\<close> the network thread may run any handler at any time; here the
  handlers are called in the order of \<^verbatim>\<open>poll_events\<close>, one after the other, between
  two drains of the response queue. Every run of this loop together with the matching thread
  is a run of that system, so what is proved of the system holds of the loop.
\<close>

section \<open>State\<close>

text \<open>Where \<^verbatim>\<open>start()\<close> is; outside it the server is at \<open>Loop_returned\<close>.\<close>

datatype loop_pc =
    Loop_head
  | Loop_drain
  | Loop_wait
  | Loop_handlers "net_event list"
  | Loop_leave
  | Loop_returned

record 'e server =
  server_host :: string
  server_port :: u16
  server_fd :: fd
  epoll_fd :: fd
  gate :: "'e gateway"
  loop_at :: loop_pc

definition server_new ::
    "'e \<Rightarrow> string \<Rightarrow> u16 \<Rightarrow> pool_book \<Rightarrow> u64 \<Rightarrow> 'e server option" where
  "server_new e host port b queue_capacity =
     do {
       g \<leftarrow> gateway_new e queue_capacity b;
       Some \<lparr>server_host = host, server_port = port, server_fd = - 1, epoll_fd = - 1,
             gate = g\<lparr>running := False\<rparr>, loop_at = Loop_returned\<rparr>
     }"

definition is_running :: "'e server \<Rightarrow> bool" where
  "is_running s = running (gate s)"

definition connected_clients :: "'e server \<Rightarrow> nat" where
  "connected_clients s = length (clients (net (gate s)))"

definition processed_orders_count :: "'e server \<Rightarrow> u64" where
  "processed_orders_count s = processed_orders (gate s)"

definition ingress_queue_depth :: "'e server \<Rightarrow> u64" where
  "ingress_queue_depth s = spsc_size (ingress_queue (gate s))"

definition response_queue_depth :: "'e server \<Rightarrow> u64" where
  "response_queue_depth s = spsc_size (response_queue (gate s))"

definition stop_server :: "'e server \<Rightarrow> 'e server" where
  "stop_server s = s\<lparr>gate := stop (gate s)\<rparr>"

section \<open>Start\<close>

text \<open>
  \<^verbatim>\<open>start()\<close> up to its loop: the socket is set up, the flag is set and the matching
  thread is launched.
\<close>

definition start_server :: "'e sock_os \<Rightarrow> 'e server \<Rightarrow> bool \<times> 'e server" where
  "start_server sk s =
     (if is_running s then (True, s)
      else
        let g = gate s;
            (ok, sfd, efd, e) = setup_server_socket sk (server_host s) (server_port s) (epoll_fd s) (env (net g));
            s = s\<lparr>server_fd := sfd, epoll_fd := efd, gate := g\<lparr>net := (net g)\<lparr>env := e\<rparr>\<rparr>\<rparr>
        in if \<not> ok then (False, s)
           else (True, s\<lparr>gate := (gate s)\<lparr>running := True, net_at := Net_poll, match_at := Match_poll\<rparr>,
                          loop_at := Loop_head\<rparr>))"

text \<open>
  One step of the thread that called \<^verbatim>\<open>start()\<close>: the test of the loop, a drain,
  the wait (\<open>events\<close> is what \<^verbatim>\<open>epoll_wait\<close> returns, at most 64), the handlers of
  the ready descriptors with the second drain after them, and the way out: join, last drain,
  closing of the connections, the epoll instance and the listening socket.
\<close>

definition MAX_EPOLL_EVENTS :: nat where
  "MAX_EPOLL_EVENTS = 64"

definition net_do :: "'e os \<Rightarrow> u64 \<Rightarrow> net_event \<Rightarrow> loop_pc \<Rightarrow> 'e server \<Rightarrow> 'e server option" where
  "net_do os v ev pc s =
     do { g \<leftarrow> net_step os v ev (gate s); Some (s\<lparr>gate := g, loop_at := pc\<rparr>) }"

definition close_descriptor :: "(fd \<Rightarrow> 'e \<Rightarrow> 'e) \<Rightarrow> fd \<Rightarrow> 'e gateway \<Rightarrow> 'e gateway" where
  "close_descriptor close_fd fd g =
     (if fd \<ge> 0 then g\<lparr>net := (net g)\<lparr>env := close_fd fd (env (net g))\<rparr>\<rparr> else g)"

definition loop_step ::
    "'e os \<Rightarrow> (fd \<Rightarrow> 'e \<Rightarrow> 'e) \<Rightarrow> u64 \<Rightarrow> epoll_event list \<Rightarrow> 'e server \<Rightarrow> 'e server option" where
  "loop_step os close_fd v events s =
     (case loop_at s of
        Loop_head \<Rightarrow>
          if is_running s then Some (s\<lparr>loop_at := Loop_drain\<rparr>)
          else net_do os v Ev_leave Loop_leave s
      | Loop_drain \<Rightarrow>
          if epoll_fd s < 0 then Some (s\<lparr>loop_at := Loop_head\<rparr>)
          else net_do os v Ev_drain Loop_wait s
      | Loop_wait \<Rightarrow>
          Some (s\<lparr>loop_at := Loop_handlers
            (concat (map (dispatch (server_fd s)) (take MAX_EPOLL_EVENTS events)) @ [Ev_drain])\<rparr>)
      | Loop_handlers hs \<Rightarrow>
          if net_at (gate s) \<noteq> Net_poll then net_do os v Ev_drain (Loop_handlers hs) s
          else (case hs of
                  [] \<Rightarrow> Some (s\<lparr>loop_at := Loop_head\<rparr>)
                | h # hs \<Rightarrow> net_do os v h (Loop_handlers hs) s)
      | Loop_leave \<Rightarrow>
          if net_at (gate s) \<noteq> Net_stopped then net_do os v Ev_drain Loop_leave s
          else Some (s\<lparr>gate := close_descriptor close_fd (server_fd s)
                             (close_descriptor close_fd (epoll_fd s) (gate s)),
                       epoll_fd := - 1, server_fd := - 1, loop_at := Loop_returned\<rparr>)
      | Loop_returned \<Rightarrow> Some s)"

inductive server_step :: "'e os \<Rightarrow> (fd \<Rightarrow> 'e \<Rightarrow> 'e) \<Rightarrow> 'e server \<Rightarrow> 'e server \<Rightarrow> bool"
  for os close_fd where
  server_loop: "loop_step os close_fd v events s = Some s' \<Longrightarrow> server_step os close_fd s s'"
| server_match: "match_step v (gate s) = Some g \<Longrightarrow> server_step os close_fd s (s\<lparr>gate := g\<rparr>)"
| server_stop: "server_step os close_fd s (stop_server s)"


section \<open>The loop is a schedule of the two-thread system\<close>

definition in_handlers :: "net_pc \<Rightarrow> bool" where
  "in_handlers pc \<longleftrightarrow> pc \<noteq> Net_join \<and> pc \<noteq> Net_stopped"

text \<open>The program counter of \<^verbatim>\<open>start()\<close> and that of the network thread fit.\<close>

fun loop_ok :: "loop_pc \<Rightarrow> 'e gateway \<Rightarrow> bool" where
  "loop_ok (Loop_handlers hs) g \<longleftrightarrow> in_handlers (net_at g) \<and> Ev_leave \<notin> set hs"
| "loop_ok Loop_leave g \<longleftrightarrow> net_at g \<in> {Net_join, Net_stopped} \<and> \<not> running g"
| "loop_ok Loop_returned g \<longleftrightarrow> net_at g = Net_stopped \<and> \<not> running g"
| "loop_ok pc g \<longleftrightarrow> net_at g = Net_poll"

text \<open>Once stopped, the matching thread has left and no connection is open.\<close>

definition stopped_ok :: "'e gateway \<Rightarrow> bool" where
  "stopped_ok g \<longleftrightarrow> (net_at g = Net_stopped \<longrightarrow> match_at g = Match_done \<and> clients (net g) = [])"

lemma dispatch_no_leave: "Ev_leave \<notin> set (dispatch sfd ev)"
  by (simp add: dispatch_def)

lemma fold_close_clients:
  assumes "fst ` set (clients n) \<subseteq> set fds"
  shows "clients (fold (close_connection os) fds n) = []"
  using assms
proof (induction fds arbitrary: n)
  case (Cons fd fds)
  have "fst ` set (clients (close_connection os fd n)) = fst ` set (clients n) - {fd}"
    by (auto simp: close_connection_def map_of_eq_None_iff AList.delete_eq split: option.split)
  then have "fst ` set (clients (close_connection os fd n)) \<subseteq> set fds"
    using Cons.prems by auto
  from Cons.IH [OF this] show ?case by simp
qed simp

lemma net_step_stopped_ok:
  assumes "net_step os v ev g = Some g'" "stopped_ok g"
  shows "stopped_ok g'"
proof (cases "net_at g")
  case Net_poll
  then have "handle_event os v ev g = Some g'" using assms(1) by (simp add: net_step_def)
  then show ?thesis
    using Net_poll
    by (cases ev) (auto simp: stopped_ok_def drain_response_queue_def bind_eq_Some_conv
        split: option.splits prod.splits if_splits)
next
  case Net_join
  show ?thesis
  proof (cases "match_at g = Match_done")
    case True
    with Net_join assms(1) obtain g1 where
      d: "drain_response_queue os v g = Some g1" and
      g': "g' = g1\<lparr>net := fold (close_connection os) (map fst (clients (net g1))) (net g1), net_at := Net_stopped\<rparr>"
      by (auto simp: net_step_def bind_eq_Some_conv)
    have "match_at g1 = match_at g" using d by (elim drain_cases) simp
    then show ?thesis
      using True by (simp add: stopped_ok_def g' fold_close_clients)
  qed (use Net_join assms in \<open>simp add: net_step_def stopped_ok_def\<close>)
next
  case Net_stopped
  with assms show ?thesis by (simp add: net_step_def)
qed (use assms in \<open>auto simp: net_step_def stopped_ok_def bind_eq_Some_conv
      split: option.splits prod.splits bool.splits\<close>)

text \<open>Where one step of the network thread can lead.\<close>

lemma net_step_in_handlers:
  assumes "net_step os v ev g = Some g'" "in_handlers (net_at g)" "ev \<noteq> Ev_leave"
  shows "in_handlers (net_at g')"
proof (cases "net_at g")
  case Net_poll
  then have h: "handle_event os v ev g = Some g'" using assms(1) by (simp add: net_step_def)
  show ?thesis
    using Net_poll h assms(3)
    by (cases ev) (auto simp: in_handlers_def drain_response_queue_def bind_eq_Some_conv
        split: option.splits prod.splits if_splits)
qed (use assms in \<open>auto simp: net_step_def in_handlers_def bind_eq_Some_conv
      split: option.splits prod.splits bool.splits\<close>)

lemma net_step_drain_at_poll:
  "net_step os v Ev_drain g = Some g' \<Longrightarrow> net_at g = Net_poll \<Longrightarrow> net_at g' = Net_poll"
  by (auto simp: net_step_def elim: drain_cases)

lemma net_step_leaving:
  assumes "net_step os v ev g = Some g'" "net_at g \<in> {Net_join, Net_stopped}"
  shows "net_at g' \<in> {Net_join, Net_stopped}"
  using assms by (auto simp: net_step_def bind_eq_Some_conv split: if_splits)

lemma net_step_running: "net_step os v ev g = Some g' \<Longrightarrow> running g' = running g"
  by (erule net_step_cases) simp_all

lemma net_step_match_at: "net_step os v ev g = Some g' \<Longrightarrow> match_at g' = match_at g"
  by (erule net_step_cases) simp_all

lemma match_step_frame:
  assumes "match_step v g = Some g'"
  shows "net g' = net g \<and> net_at g' = net_at g \<and> running g' = running g
    \<and> next_sequence g' = next_sequence g \<and> accepted g' = accepted g
    \<and> (match_at g = Match_done \<longrightarrow> g' = g)"
  using assms by (auto simp: match_step_def bind_eq_Some_conv Let_def
      split: match_pc.splits list.splits if_splits prod.splits bool.splits)


text \<open>
  The state of the two-thread system and that of the server, which differ only in the
  environment once \<^verbatim>\<open>start()\<close> has closed its own descriptors.
\<close>

definition same_but_env :: "'e gateway \<Rightarrow> 'e gateway \<Rightarrow> bool" where
  "same_but_env g g' \<longleftrightarrow> (\<exists>e. g' = g\<lparr>net := (net g)\<lparr>env := e\<rparr>\<rparr>)"

definition loop_run :: "'e os \<Rightarrow> 'e gateway \<Rightarrow> 'e server \<Rightarrow> bool" where
  "loop_run os g0 s \<longleftrightarrow>
     loop_ok (loop_at s) (gate s) \<and> stopped_ok (gate s)
     \<and> (\<exists>g. (gateway_step os)\<^sup>*\<^sup>* g0 g
          \<and> (if loop_at s = Loop_returned then same_but_env g (gate s) else gate s = g))"

lemma loop_runI:
  assumes "loop_ok (loop_at s') (gate s')" "stopped_ok (gate s')" "loop_at s' \<noteq> Loop_returned"
    and "(gateway_step os)\<^sup>*\<^sup>* g0 (gate s')"
  shows "loop_run os g0 s'"
  using assms by (auto simp: loop_run_def)

lemma loop_run_net:
  assumes run: "loop_run os g0 s" and at: "loop_at s \<noteq> Loop_returned" "pc \<noteq> Loop_returned"
    and step: "net_do os v ev pc s = Some s'"
    and ok: "\<And>g. net_step os v ev (gate s) = Some g \<Longrightarrow> loop_ok pc g"
  shows "loop_run os g0 s'"
proof -
  obtain g where g: "net_step os v ev (gate s) = Some g" "s' = s\<lparr>gate := g, loop_at := pc\<rparr>"
    using step by (auto simp: net_do_def bind_eq_Some_conv)
  have "(gateway_step os)\<^sup>*\<^sup>* g0 g"
    using run at(1) g(1) by (auto simp: loop_run_def intro: rtranclp.rtrancl_into_rtrancl network)
  moreover have "stopped_ok g"
    using net_step_stopped_ok [OF g(1)] run by (simp add: loop_run_def)
  ultimately show ?thesis
    using ok [OF g(1)] at(2) by (intro loop_runI) (simp_all add: g(2))
qed

lemma loop_run_at:
  assumes "loop_run os g0 s" "loop_at s \<noteq> Loop_returned" "pc \<noteq> Loop_returned" "loop_ok pc (gate s)"
  shows "loop_run os g0 (s\<lparr>loop_at := pc\<rparr>)"
  using assms by (intro loop_runI) (auto simp: loop_run_def)

lemma same_but_env_close: "same_but_env g (close_descriptor close_fd fd g')" if "same_but_env g g'"
  using that by (auto simp: same_but_env_def close_descriptor_def)

lemma loop_step_run:
  assumes run: "loop_run os g0 s" and step: "loop_step os close_fd v events s = Some s'"
  shows "loop_run os g0 s'"
proof -
  have ok: "loop_ok (loop_at s) (gate s)" using run by (simp add: loop_run_def)
  show ?thesis
  proof (cases "loop_at s")
    case Loop_head
    then show ?thesis
      using step run ok loop_run_at [OF run, of Loop_drain]
      by (auto simp: loop_step_def is_running_def net_step_def split: if_splits
          elim!: loop_run_net [OF run, rotated 2])
  next
    case Loop_drain
    then show ?thesis
      using step run ok loop_run_at [OF run, of Loop_head] net_step_drain_at_poll
      by (auto simp: loop_step_def split: if_splits elim!: loop_run_net [OF run, rotated 2])
  next
    case Loop_wait
    then show ?thesis
      using step ok dispatch_no_leave loop_run_at [OF run]
      by (auto simp: loop_step_def in_handlers_def)
  next
    case (Loop_handlers hs)
    show ?thesis
    proof (cases "net_at (gate s) = Net_poll \<and> hs = []")
      case True
      then show ?thesis
        using step Loop_handlers loop_run_at [OF run, of Loop_head] by (simp add: loop_step_def)
    next
      case False
      have "in_handlers (net_at g)" if "net_step os v ev (gate s) = Some g" "Ev_leave \<noteq> ev" for ev g
        using net_step_in_handlers [OF that(1) _ that(2) [symmetric]] ok Loop_handlers by simp
      with False show ?thesis
        using step ok Loop_handlers
        by (auto simp: loop_step_def split: if_splits list.splits elim!: loop_run_net [OF run, rotated 2])
    qed
  next
    case Loop_leave
    show ?thesis
    proof (cases "net_at (gate s) = Net_stopped")
      case True
      let ?g = "close_descriptor close_fd (server_fd s) (close_descriptor close_fd (epoll_fd s) (gate s))"
      have s': "s' = s\<lparr>gate := ?g, epoll_fd := - 1, server_fd := - 1, loop_at := Loop_returned\<rparr>"
        using step Loop_leave True by (simp add: loop_step_def)
      have "same_but_env (gate s) ?g" by (intro same_but_env_close) (auto simp: same_but_env_def intro: exI [of _ "env (net (gate s))"])
      moreover have "loop_ok Loop_returned ?g" "stopped_ok ?g"
        using ok run Loop_leave True by (simp_all add: loop_run_def stopped_ok_def close_descriptor_def)
      ultimately show ?thesis
        using run Loop_leave by (auto simp: loop_run_def s')
    next
      case False
      have "loop_ok Loop_leave g" if "net_step os v ev (gate s) = Some g" for ev g
        using net_step_leaving [OF that] net_step_running [OF that] ok Loop_leave by simp
      with False show ?thesis
        using step Loop_leave
        by (auto simp: loop_step_def split: if_splits elim!: loop_run_net [OF run, rotated 2])
    qed
  next
    case Loop_returned
    then show ?thesis using step run by (simp add: loop_step_def)
  qed
qed


lemma match_run:
  assumes run: "loop_run os g0 s" and step: "match_step v (gate s) = Some g"
  shows "loop_run os g0 (s\<lparr>gate := g\<rparr>)"
proof (cases "loop_at s = Loop_returned")
  case True
  then have "match_at (gate s) = Match_done" using run by (simp add: loop_run_def stopped_ok_def)
  with match_step_frame [OF step] run show ?thesis by simp
next
  case False
  have "loop_ok (loop_at s) g" "stopped_ok g"
    using match_step_frame [OF step] run
    by (cases "loop_at s"; force simp: loop_run_def stopped_ok_def)+
  moreover have "(gateway_step os)\<^sup>*\<^sup>* g0 g"
    using run False step by (auto simp: loop_run_def intro: rtranclp.rtrancl_into_rtrancl matching)
  ultimately show ?thesis using False by (intro loop_runI) simp_all
qed

lemma same_but_env_stop:
  assumes "same_but_env g g'"
  shows "same_but_env (stop g) (stop g')"
proof -
  obtain e where "g' = g\<lparr>net := (net g)\<lparr>env := e\<rparr>\<rparr>" using assms by (auto simp: same_but_env_def)
  then have "stop g' = (stop g)\<lparr>net := (net (stop g))\<lparr>env := e\<rparr>\<rparr>" by (simp add: stop_def)
  then show ?thesis unfolding same_but_env_def by blast
qed

lemma stop_run:
  assumes run: "loop_run os g0 s"
  shows "loop_run os g0 (stop_server s)"
proof -
  obtain g where g: "(gateway_step os)\<^sup>*\<^sup>* g0 g"
    "if loop_at s = Loop_returned then same_but_env g (gate s) else gate s = g"
    using run by (auto simp: loop_run_def)
  have "loop_ok (loop_at s) (stop (gate s))" "stopped_ok (stop (gate s))"
    using run by (cases "loop_at s"; simp add: loop_run_def stop_def stopped_ok_def)+
  moreover have "(gateway_step os)\<^sup>*\<^sup>* g0 (stop g)"
    using g(1) signal by (rule rtranclp.rtrancl_into_rtrancl)
  moreover have "if loop_at s = Loop_returned then same_but_env (stop g) (stop (gate s)) else stop (gate s) = stop g"
    using g(2) same_but_env_stop [of g "gate s"] by auto
  ultimately show ?thesis by (auto simp: loop_run_def stop_server_def)
qed

lemma start_server_run:
  assumes "start_server sk s0 = (True, s1)" "\<not> is_running s0"
  shows "loop_run os (gate s1) s1"
  using assms by (auto simp: start_server_def loop_run_def stopped_ok_def Let_def split: prod.splits if_splits)

lemma server_reachable_run:
  assumes "(server_step os close_fd)\<^sup>*\<^sup>* s1 s" "loop_run os g0 s1"
  shows "loop_run os g0 s"
  using assms
proof (induction rule: rtranclp_induct)
  case (step y z)
  from step(2) step.IH [OF step.prems] show ?case
    by cases (auto intro: loop_step_run match_run stop_run)
qed simp

text \<open>The invariant of the two-thread system holds in every state of the server.\<close>

lemma served_inv:
  assumes steps: "(server_step os close_fd)\<^sup>*\<^sup>* s1 s" and run: "loop_run os g0 s1"
    and inv: "gateway_inv g0" and few: "length (accepted (gate s)) \<le> 2 ^ 31"
  shows "gateway_inv (gate s)"
proof -
  obtain g where g: "(gateway_step os)\<^sup>*\<^sup>* g0 g" "gate s = g \<or> same_but_env g (gate s)"
    using server_reachable_run [OF steps run] by (auto simp: loop_run_def split: if_splits)
  have "same_but_env g g" by (auto simp: same_but_env_def intro: exI [of _ "env (net g)"])
  with g(2) obtain e where e: "gate s = g\<lparr>net := (net g)\<lparr>env := e\<rparr>\<rparr>"
    unfolding same_but_env_def by metis
  then have "length (accepted g) \<le> 2 ^ 31" using few by simp
  from gateway_reachable_inv [OF g(1) inv this] show ?thesis
    by (simp add: e gateway_inv_def numbered_def served_def)
qed

section \<open>Starting and stopping\<close>

text \<open>The server as \<^verbatim>\<open>start()\<close> enters its loop for the first time.\<close>

lemma start_new_server:
  assumes new: "server_new e host port (pool_new n) queue_capacity = Some s0"
    and start: "start_server sk s0 = (True, s1)"
    and sizes: "n < 2 ^ 32" "unat queue_capacity \<le> 2 ^ 63"
  shows "gateway_inv (gate s1)" "\<not> is_running s0" "accepted (gate s1) = []"
proof -
  obtain g where g: "gateway_new e queue_capacity (pool_new n) = Some g"
    "s0 = \<lparr>server_host = host, server_port = port, server_fd = - 1, epoll_fd = - 1,
        gate = g\<lparr>running := False\<rparr>, loop_at = Loop_returned\<rparr>"
    using new by (auto simp: server_new_def bind_eq_Some_conv)
  show "\<not> is_running s0" by (simp add: g(2) is_running_def)
  obtain iq rq where form: "g = gateway_start e iq rq (pool_new n)"
    using g(1) by (auto simp: gateway_new_def bind_eq_Some_conv)
  obtain e' where "gate s1 = (gate s0)\<lparr>net := (net (gate s0))\<lparr>env := e'\<rparr>, running := True,
      net_at := Net_poll, match_at := Match_poll\<rparr>"
    using start by (auto simp: start_server_def is_running_def g(2) Let_def split: prod.splits if_splits)
  then have "gate s1 = g\<lparr>net := (net g)\<lparr>env := e'\<rparr>\<rparr>"
    by (simp add: g(2) form gateway_start_def)
  with gateway_new_inv [OF g(1) sizes] show "gateway_inv (gate s1)" "accepted (gate s1) = []"
    by (simp_all add: gateway_inv_def numbered_def served_def) (simp add: form gateway_start_def)
qed

text \<open>A stop that arrives before the loop is entered is forgotten by \<^verbatim>\<open>start()\<close>.\<close>

lemma stop_before_start_is_lost:
  assumes "\<not> is_running s"
  shows "stop_server s = s" "start_server sk (stop_server s) = start_server sk s"
proof -
  have "stop (gate s) = gate s" using assms by (simp add: stop_def is_running_def)
  then show "stop_server s = s" by (simp add: stop_server_def)
  then show "start_server sk (stop_server s) = start_server sk s" by simp
qed

end
