(* ===== verification/Gateway_Descriptors.thy ===== *)
theory Gateway_Descriptors
  imports Gateway_Loop Gateway_Network
begin

text \<open>
  What the server does to the descriptors of its process, and that it always has a defined next
  step. \<open>descriptors_ok\<close> states what the system calls do to the set of open descriptors:
  \<^verbatim>\<open>socket\<close>, \<^verbatim>\<open>epoll_create1\<close> and \<^verbatim>\<open>accept\<close> open a new one or
  fail, \<^verbatim>\<open>close\<close> closes the one given, the others open and close nothing.
\<close>

section \<open>Laws of the system calls\<close>

text \<open>
  What the calls of the handlers do to a set of descriptors: a round of the accept loop adds a new
  one, closing removes one, the other calls leave it alone. The laws hold of the open
  descriptors, and of those in non-blocking mode when \<^verbatim>\<open>fcntl\<close> does not fail.
\<close>

definition connection_calls :: "'e os \<Rightarrow> ('e \<Rightarrow> fd set) \<Rightarrow> bool" where
  "connection_calls os open_fds \<longleftrightarrow>
     (\<forall>fd e. open_fds (snd (os_read os fd e)) = open_fds e)
     \<and> (\<forall>fd d e. open_fds (snd (os_write os fd d e)) = open_fds e)
     \<and> (\<forall>e. open_fds (snd (os_clock os e)) = open_fds e)
     \<and> (\<forall>fd e. open_fds (os_close os fd e) = open_fds e - {fd})
     \<and> (\<forall>e. case accept_client os e of (None, e') \<Rightarrow> open_fds e' = open_fds e
          | (Some fd, e') \<Rightarrow> fd \<notin> open_fds e \<and> open_fds e' = insert fd (open_fds e))"

lemma connection_callsD:
  assumes "connection_calls os open_fds"
  shows "os_read os fd e = (rr, e') \<Longrightarrow> open_fds e' = open_fds e"
    "os_write os fd d e = (wr, e') \<Longrightarrow> open_fds e' = open_fds e"
    "os_clock os e = (t, e') \<Longrightarrow> open_fds e' = open_fds e"
    "open_fds (os_close os fd e) = open_fds e - {fd}"
    "accept_client os e = (None, e') \<Longrightarrow> open_fds e' = open_fds e"
    "accept_client os e = (Some c, e') \<Longrightarrow> c \<notin> open_fds e \<and> open_fds e' = insert c (open_fds e)"
proof -
  note l = assms [unfolded connection_calls_def]
  show "open_fds (os_close os fd e) = open_fds e - {fd}" using l by simp
  have "open_fds (snd (os_read os fd e)) = open_fds e" "open_fds (snd (os_write os fd d e)) = open_fds e"
    "open_fds (snd (os_clock os e)) = open_fds e"
    using l by simp_all
  then show "os_read os fd e = (rr, e') \<Longrightarrow> open_fds e' = open_fds e"
    "os_write os fd d e = (wr, e') \<Longrightarrow> open_fds e' = open_fds e"
    "os_clock os e = (t, e') \<Longrightarrow> open_fds e' = open_fds e"
    by simp_all
  have "case accept_client os e of (None, e') \<Rightarrow> open_fds e' = open_fds e
      | (Some fd, e') \<Rightarrow> fd \<notin> open_fds e \<and> open_fds e' = insert fd (open_fds e)"
    using l by simp
  then show "accept_client os e = (None, e') \<Longrightarrow> open_fds e' = open_fds e"
    "accept_client os e = (Some c, e') \<Longrightarrow> c \<notin> open_fds e \<and> open_fds e' = insert c (open_fds e)"
    by simp_all
qed

definition descriptors_ok ::
    "'e os \<Rightarrow> (fd \<Rightarrow> 'e \<Rightarrow> 'e) \<Rightarrow> 'e sock_os \<Rightarrow> ('e \<Rightarrow> fd set) \<Rightarrow> bool" where
  "descriptors_ok os close_fd sk open_fds \<longleftrightarrow>
     sockets_ok sk open_fds
     \<and> (\<forall>fd e. open_fds (snd (os_read os fd e)) = open_fds e)
     \<and> (\<forall>fd d e. open_fds (snd (os_write os fd d e)) = open_fds e)
     \<and> (\<forall>e. open_fds (snd (os_clock os e)) = open_fds e)
     \<and> (\<forall>fd e. open_fds (os_close os fd e) = open_fds e - {fd})
     \<and> (\<forall>fd e. open_fds (close_fd fd e) = open_fds e - {fd})
     \<and> (\<forall>e. case os_accept os e of (None, e') \<Rightarrow> open_fds e' = open_fds e
          | (Some fd, e') \<Rightarrow> fd \<notin> open_fds e \<and> open_fds e' = insert fd (open_fds e))
     \<and> set_up_keeps os open_fds"

lemma descriptors_okD:
  assumes "descriptors_ok os close_fd sk open_fds"
  shows "sockets_ok sk open_fds" "open_fds (close_fd fd e) = open_fds e - {fd}"
    "connection_calls os open_fds"
proof -
  note l = assms [unfolded descriptors_ok_def]
  show "sockets_ok sk open_fds" "open_fds (close_fd fd e) = open_fds e - {fd}" using l by simp_all
  have "case accept_client os e of (None, e') \<Rightarrow> open_fds e' = open_fds e
      | (Some fd, e') \<Rightarrow> fd \<notin> open_fds e \<and> open_fds e' = insert fd (open_fds e)" for e
  proof -
    obtain r e' where c: "accept_client os e = (r, e')" by (cases "accept_client os e")
    have "set_up_keeps os open_fds" using l by simp
    from accept_client_keeps [OF this c] obtain e1 where
      a: "os_accept os e = (r, e1)" "open_fds e' = open_fds e1" by blast
    have "case os_accept os e of (None, e') \<Rightarrow> open_fds e' = open_fds e
        | (Some fd, e') \<Rightarrow> fd \<notin> open_fds e \<and> open_fds e' = insert fd (open_fds e)"
      using l by simp
    with a c show ?thesis by (cases r) simp_all
  qed
  then show "connection_calls os open_fds" using l by (simp add: connection_calls_def)
qed

section \<open>Connections and descriptors\<close>

text \<open>
  Outside the set \<open>base\<close> the open descriptors are those of the connections, each known by
  its own number and listed once.
\<close>

definition connections_ok :: "('e \<Rightarrow> fd set) \<Rightarrow> fd set \<Rightarrow> 'e net_state \<Rightarrow> bool" where
  "connections_ok open_fds base n \<longleftrightarrow>
     open_fds (env n) = base \<union> fst ` set (clients n) \<and> base \<inter> fst ` set (clients n) = {}
     \<and> distinct (map fst (clients n)) \<and> clients_ok n"

lemma fst_set_update: "fst ` set (AList.update k v al) = insert k (fst ` set al)"
  using dom_update [of k v al] by simp

lemma fst_set_delete: "fst ` set (AList.delete k al) = fst ` set al - {k}"
  by (auto simp: AList.delete_eq)

lemma update_client_ok:
  assumes "update_client fd f n = Some n'" "connections_ok open_fds base n" "\<And>c. conn_fd (f c) = conn_fd c"
  shows "connections_ok open_fds base n'"
proof -
  obtain c where c: "map_of (clients n) fd = Some c"
    "n' = n\<lparr>clients := AList.update fd (f c) (clients n)\<rparr>"
    using assms(1) by (auto simp: update_client_def split: option.splits)
  moreover have "fd \<in> fst ` set (clients n)" using c(1) by (force dest: map_of_SomeD)
  ultimately show ?thesis
    using assms(2,3) by (auto simp: connections_ok_def clients_ok_def fst_set_update insert_absorb
        distinct_update)
qed

lemma env_ok:
  "connections_ok open_fds base n \<Longrightarrow> open_fds e = open_fds (env n) \<Longrightarrow>
   connections_ok open_fds base (n\<lparr>env := e\<rparr>)"
  by (simp add: connections_ok_def clients_ok_def)

lemma close_connection_ok:
  assumes "connection_calls os open_fds" "connections_ok open_fds base n"
  shows "connections_ok open_fds base (close_connection os fd n)"
proof (cases "map_of (clients n) fd")
  case None
  with assms(2) show ?thesis by (simp add: close_connection_def)
next
  case (Some c)
  then have "fd \<in> fst ` set (clients n)" by (force dest: map_of_SomeD)
  then show ?thesis
    using assms Some connection_callsD(4) [OF assms(1)]
    by (auto simp: close_connection_def connections_ok_def clients_ok_def fst_set_delete
        distinct_delete delete_conv')
qed


section \<open>The handlers\<close>

text \<open>Each loop over system calls keeps what one round of it keeps.\<close>

lemma flush_ok:
  assumes run: "flush_client_write_buffer os fd n = Some n'"
    and law: "connection_calls os open_fds" and ok: "connections_ok open_fds base n"
  shows "connections_ok open_fds base n'"
proof -
  have "connections_ok open_fds base n \<longrightarrow> connections_ok open_fds base n'"
    if "connection_calls os open_fds"
    using run that
  proof (induction rule: flush_client_write_buffer.raw_induct [rotated, consumes 1, case_names step])
    case (step flush os fd n n')
    show ?case
    proof
      assume ok: "connections_ok open_fds base n"
      obtain c where c: "map_of (clients n) fd = Some c"
        using step(2) by (auto simp: bind_eq_Some_conv)
      show "connections_ok open_fds base n'"
      proof (cases "write_buffer c = []")
        case True
        with step(2) c ok show ?thesis by simp
      next
        case False
        obtain r e where w: "os_write os (conn_fd c) (write_buffer c) (env n) = (r, e)"
          by (cases "os_write os (conn_fd c) (write_buffer c) (env n)")
        have ok1: "connections_ok open_fds base (n\<lparr>env := e\<rparr>)"
          using env_ok [OF ok connection_callsD(2) [OF step(3) w]] .
        show ?thesis
        proof (cases r)
          case (Wrote k)
          then obtain n1 where
            "update_client fd (\<lambda>c. c\<lparr>write_buffer := drop k (write_buffer c)\<rparr>) (n\<lparr>env := e\<rparr>) = Some n1"
            "flush os fd n1 = Some n'"
            using step(2) c False w by (auto simp: bind_eq_Some_conv)
          with step(1) step(3) update_client_ok [OF _ ok1] show ?thesis by fastforce
        next
          case Write_again
          with step(2) c False w ok1 show ?thesis by simp
        next
          case Write_error
          with step(2) c False w close_connection_ok [OF step(3) ok1] show ?thesis by auto
        qed
      qed
    qed
  qed
  with law ok show ?thesis by blast
qed

lemma new_connection_ok:
  assumes run: "handle_new_connection os n = Some n'"
    and law: "connection_calls os open_fds" and ok: "connections_ok open_fds base n"
  shows "connections_ok open_fds base n'"
proof -
  have "connections_ok open_fds base n \<longrightarrow> connections_ok open_fds base n'"
    if "connection_calls os open_fds"
    using run that
  proof (induction rule: handle_new_connection.raw_induct [rotated, consumes 1, case_names step])
    case (step accept_all os n n')
    obtain r e where a: "accept_client os (env n) = (r, e)" by (cases "accept_client os (env n)")
    show ?case
    proof
      assume ok: "connections_ok open_fds base n"
      show "connections_ok open_fds base n'"
      proof (cases r)
        case None
        with step(2) a env_ok [OF ok] connection_callsD(5) [OF step(3)] show ?thesis by auto
      next
        case (Some fd)
        let ?n = "n\<lparr>env := e, clients := AList.update fd
            \<lparr>conn_fd = fd, read_buffer = '''', write_buffer = ''''\<rparr> (clients n)\<rparr>"
        have "fd \<notin> open_fds (env n)" "open_fds e = insert fd (open_fds (env n))"
          using connection_callsD(6) [OF step(3)] a Some by auto
        then have "connections_ok open_fds base ?n"
          using ok by (auto simp: connections_ok_def clients_ok_def fst_set_update distinct_update)
        with step(1,2) Some a step(3) show ?thesis by auto
      qed
    qed
  qed
  with law ok show ?thesis by blast
qed

lemma read_available_ok:
  assumes run: "read_available os fd n = Some (n', go)"
    and law: "connection_calls os open_fds" and ok: "connections_ok open_fds base n"
  shows "connections_ok open_fds base n'"
proof -
  have "connections_ok open_fds base n \<longrightarrow> connections_ok open_fds base (fst r)"
    if "read_available os fd n = Some r" "connection_calls os open_fds" for r
    using that
  proof (induction rule: read_available.raw_induct [rotated, consumes 1, case_names step])
    case (step read_all os fd n r)
    obtain rr e where a: "os_read os fd (env n) = (rr, e)" by (cases "os_read os fd (env n)")
    show ?case
    proof
      assume ok: "connections_ok open_fds base n"
      have ok1: "connections_ok open_fds base (n\<lparr>env := e\<rparr>)"
        using env_ok [OF ok connection_callsD(1) [OF step(3) a]] .
      show "connections_ok open_fds base (fst r)"
      proof (cases rr)
        case (Read_bytes bytes)
        then obtain n1 where
          "update_client fd (\<lambda>c. c\<lparr>read_buffer := read_buffer c @ bytes\<rparr>) (n\<lparr>env := e\<rparr>) = Some n1"
          "read_all os fd n1 = Some r"
          using step(2) a by (auto simp: bind_eq_Some_conv)
        with step(1) step(3) update_client_ok [OF _ ok1] show ?thesis by fastforce
      qed (use step(2) a ok1 close_connection_ok [OF step(3) ok1] in auto)
    qed
  qed
  from this [OF run law] ok show ?thesis by simp
qed


lemma process_line_ok:
  assumes run: "process_client_line os fd line n seq = Some (n', seq', msg)"
    and law: "connection_calls os open_fds" and ok: "connections_ok open_fds base n"
  shows "connections_ok open_fds base n'"
proof (cases "line = []")
  case True
  with run ok show ?thesis by (simp add: process_client_line_def)
next
  case False
  obtain t e where clock: "os_clock os (env n) = (t, e)" by (cases "os_clock os (env n)")
  define cmd where "cmd = parse_line t line"
  define n1 where "n1 = (if command_type cmd = New then n\<lparr>env := e\<rparr> else n)"
  obtain t2 e2 where clock2: "os_clock os (env n1) = (t2, e2)" by (cases "os_clock os (env n1)")
  note unf = process_client_line_def Let_def clock prod.case cmd_def [symmetric] n1_def [symmetric] clock2
  have ok1: "connections_ok open_fds base n1"
    using ok env_ok [OF ok connection_callsD(3) [OF law clock]] by (simp add: n1_def)
  show ?thesis
  proof (cases "command_type cmd = Unknown")
    case True
    obtain n2 where n2:
      "update_client fd (\<lambda>c. c\<lparr>write_buffer := format_reject 0 (error_msg cmd) (write_buffer c)\<rparr>) n1 = Some n2"
      "flush_client_write_buffer os fd n2 = Some n'"
      using run False True unfolding unf by (auto simp: bind_eq_Some_conv)
    from flush_ok [OF n2(2) law update_client_ok [OF n2(1) ok1]] show ?thesis by simp
  next
    case known: False
    with run False have "n' = n1\<lparr>env := e2\<rparr>" unfolding unf by (auto simp: bind_eq_Some_conv)
    with env_ok [OF ok1 connection_callsD(3) [OF law clock2]] show ?thesis by simp
  qed
qed

lemma deliver_ok:
  assumes "deliver os rs n = Some n'"
    and law: "connection_calls os open_fds" and "connections_ok open_fds base n"
  shows "connections_ok open_fds base n'"
  using assms(1,3)
proof (induction rs arbitrary: n)
  case (Cons r rs)
  show ?case
  proof (cases "map_of (clients n) (rm_client_fd r)")
    case None
    with Cons show ?thesis by simp
  next
    case (Some c)
    then obtain n1 n2 where
      n1: "update_client (rm_client_fd r) (\<lambda>c. c\<lparr>write_buffer := write_buffer c @ rm_payload r\<rparr>) n = Some n1" and
      n2: "flush_client_write_buffer os (rm_client_fd r) n1 = Some n2" and
      rest: "deliver os rs n2 = Some n'"
      using Cons.prems(1) by (auto simp: bind_eq_Some_conv)
    have "connections_ok open_fds base n1" by (rule update_client_ok [OF n1 Cons.prems(2)]) simp
    with Cons.IH [OF rest flush_ok [OF n2 law]] show ?thesis by simp
  qed
qed simp

lemma drain_ok:
  assumes "drain_response_queue os v g = Some g'"
    and law: "connection_calls os open_fds" and ok: "connections_ok open_fds base (net g)"
  shows "connections_ok open_fds base (net g')"
  using assms(1) deliver_ok [OF _ law ok]
  by (auto simp: drain_response_queue_def bind_eq_Some_conv split: prod.splits)

lemma handle_event_ok:
  assumes run: "handle_event os v ev g = Some g'"
    and law: "connection_calls os open_fds" and ok: "connections_ok open_fds base (net g)"
  shows "connections_ok open_fds base (net g')"
proof (cases ev)
  case Ev_drain
  with run drain_ok [OF _ law ok] show ?thesis by simp
next
  case Ev_accept
  with run new_connection_ok [OF _ law ok] show ?thesis by (auto simp: bind_eq_Some_conv)
next
  case (Ev_readable fd)
  with run read_available_ok [OF _ law ok] ok show ?thesis
    by (auto simp: bind_eq_Some_conv split: option.splits)
next
  case (Ev_writable fd)
  with run flush_ok [OF _ law ok] ok show ?thesis
    by (auto simp: bind_eq_Some_conv handle_client_write_def split: option.splits)
next
  case (Ev_hangup fd)
  with run close_connection_ok [OF law ok] show ?thesis by auto
next
  case Ev_leave
  with run ok show ?thesis by auto
qed

lemma fold_close_ok:
  assumes law: "connection_calls os open_fds" and "connections_ok open_fds base n"
  shows "connections_ok open_fds base (fold (close_connection os) fds n)"
  using assms(2) close_connection_ok [OF law] by (induction fds arbitrary: n) simp_all

lemma net_step_ok:
  assumes run: "net_step os v ev g = Some g'"
    and law: "connection_calls os open_fds" and ok: "connections_ok open_fds base (net g)"
  shows "connections_ok open_fds base (net g')"
proof (cases "net_at g")
  case Net_poll
  with run handle_event_ok [OF _ law ok] show ?thesis by (simp add: net_step_def)
next
  case (Net_lines fd)
  obtain c where c: "map_of (clients (net g)) fd = Some c"
    using run Net_lines by (auto simp: net_step_def bind_eq_Some_conv)
  show ?thesis
  proof (cases "next_line (read_buffer c)")
    case None
    with run Net_lines c ok show ?thesis by (auto simp: net_step_def)
  next
    case (Some ll)
    obtain line len where ll: "ll = (line, len)" by (cases ll)
    obtain n1 seq msg where p: "process_client_line os fd line (net g) (next_sequence g) = Some (n1, seq, msg)"
      and rest: "(case msg of
          None \<Rightarrow> do { n \<leftarrow> update_client fd (\<lambda>c. c\<lparr>read_buffer := drop len (read_buffer c)\<rparr>) n1; Some (g\<lparr>net := n\<rparr>) }
        | Some m \<Rightarrow> Some (g\<lparr>net := n1, next_sequence := seq, net_at := Net_push fd len m\<rparr>)) = Some g'"
      using run Net_lines c Some ll by (auto simp: net_step_def bind_eq_Some_conv)
    note ok1 = process_line_ok [OF p law ok]
    show ?thesis
    proof (cases msg)
      case None
      with rest obtain n2 where "update_client fd (\<lambda>c. c\<lparr>read_buffer := drop len (read_buffer c)\<rparr>) n1 = Some n2"
        "g' = g\<lparr>net := n2\<rparr>" by (auto simp: bind_eq_Some_conv)
      with update_client_ok [OF _ ok1] show ?thesis by simp
    qed (use rest ok1 in auto)
  qed
next
  case (Net_push fd len msg)
  with run ok update_client_ok [OF _ ok] show ?thesis
    by (auto simp: net_step_def bind_eq_Some_conv split: prod.splits bool.splits)
next
  case Net_join
  show ?thesis
  proof (cases "match_at g = Match_done")
    case True
    with Net_join run obtain g1 where d: "drain_response_queue os v g = Some g1"
      and g': "g' = g1\<lparr>net := fold (close_connection os) (map fst (clients (net g1))) (net g1), net_at := Net_stopped\<rparr>"
      by (auto simp: net_step_def bind_eq_Some_conv)
    from fold_close_ok [OF law drain_ok [OF d law ok]] show ?thesis by (simp add: g')
  qed (use Net_join run ok in \<open>simp add: net_step_def\<close>)
next
  case Net_stopped
  with run ok show ?thesis by (simp add: net_step_def)
qed


section \<open>The descriptors of the server\<close>

definition server_fds :: "'e server \<Rightarrow> fd set" where
  "server_fds s = (if loop_at s = Loop_returned then {} else {server_fd s, epoll_fd s})"

definition server_fds_ok :: "('e \<Rightarrow> fd set) \<Rightarrow> fd set \<Rightarrow> 'e server \<Rightarrow> bool" where
  "server_fds_ok open_fds base s \<longleftrightarrow>
     connections_ok open_fds (base \<union> server_fds s) (net (gate s))
     \<and> base \<inter> server_fds s = {} \<and> (\<forall>fd \<in> server_fds s. 0 \<le> fd)"

text \<open>A step of the loop is a step of the network thread, or moves the loop, or is the last one.\<close>

lemma loop_step_cases:
  assumes "loop_step os close_fd v events s = Some s'"
  obtains (net) ev pc where "net_do os v ev pc s = Some s'" "pc \<noteq> Loop_returned" "loop_at s \<noteq> Loop_returned"
  | (move) pc where "s' = s\<lparr>loop_at := pc\<rparr>" "pc \<noteq> Loop_returned" "loop_at s \<noteq> Loop_returned"
  | (closing) "loop_at s = Loop_leave" "net_at (gate s) = Net_stopped"
      "s' = s\<lparr>gate := close_descriptor close_fd (server_fd s) (close_descriptor close_fd (epoll_fd s) (gate s)),
              epoll_fd := - 1, server_fd := - 1, loop_at := Loop_returned\<rparr>"
  | (idle) "s' = s"
proof -
  have "(\<exists>ev pc. net_do os v ev pc s = Some s' \<and> pc \<noteq> Loop_returned \<and> loop_at s \<noteq> Loop_returned)
    \<or> (\<exists>pc. s' = s\<lparr>loop_at := pc\<rparr> \<and> pc \<noteq> Loop_returned \<and> loop_at s \<noteq> Loop_returned)
    \<or> (loop_at s = Loop_leave \<and> net_at (gate s) = Net_stopped
        \<and> s' = s\<lparr>gate := close_descriptor close_fd (server_fd s) (close_descriptor close_fd (epoll_fd s) (gate s)),
              epoll_fd := - 1, server_fd := - 1, loop_at := Loop_returned\<rparr>)
    \<or> s' = s"
    using assms
    by (cases "loop_at s") (force simp: loop_step_def split: if_splits list.splits)+
  then show ?thesis using that by blast
qed

lemma loop_step_fds:
  assumes step: "loop_step os close_fd v events s = Some s'"
    and law: "descriptors_ok os close_fd sk open_fds" and ok: "server_fds_ok open_fds base s"
    and run: "loop_run os g0 s"
  shows "server_fds_ok open_fds base s'"
  using step
proof (cases rule: loop_step_cases)
  case (net ev pc)
  then obtain g where g: "net_step os v ev (gate s) = Some g" "s' = s\<lparr>gate := g, loop_at := pc\<rparr>"
    by (auto simp: net_do_def bind_eq_Some_conv)
  with net_step_ok [OF g(1) descriptors_okD(3) [OF law]] ok net(2,3) show ?thesis
    by (simp add: server_fds_ok_def server_fds_def)
next
  case (move pc)
  with ok show ?thesis by (simp add: server_fds_ok_def server_fds_def)
next
  case closing
  have "clients (net (gate s)) = []"
    using run closing(2) by (simp add: loop_run_def stopped_ok_def)
  moreover have "open_fds (env (net (gate s'))) = open_fds (env (net (gate s))) - {epoll_fd s} - {server_fd s}"
    using ok closing(1) descriptors_okD(2) [OF law]
    by (simp add: closing(3) close_descriptor_def server_fds_ok_def server_fds_def)
  moreover have "clients (net (gate s')) = clients (net (gate s))"
    by (simp add: closing(3) close_descriptor_def)
  ultimately show ?thesis
    using ok closing(1) by (auto simp: closing(3) server_fds_ok_def server_fds_def connections_ok_def clients_ok_def)
next
  case idle
  with ok show ?thesis by simp
qed

lemma server_step_fds:
  assumes "server_step os close_fd s s'" "descriptors_ok os close_fd sk open_fds"
    and "server_fds_ok open_fds base s" "loop_run os g0 s"
  shows "server_fds_ok open_fds base s'"
  using assms(1)
proof cases
  case (server_loop v events)
  then show ?thesis using loop_step_fds assms(2-4) by blast
next
  case (server_match v g)
  with match_step_frame assms(3) show ?thesis by (fastforce simp: server_fds_ok_def server_fds_def)
next
  case server_stop
  then have "server_fds s' = server_fds s" "net (gate s') = net (gate s)"
    by (simp_all add: server_fds_def stop_server_def stop_def)
  with assms(3) show ?thesis by (simp add: server_fds_ok_def)
qed

lemma server_reachable_fds:
  assumes "(server_step os close_fd)\<^sup>*\<^sup>* s1 s" "descriptors_ok os close_fd sk open_fds"
    and "server_fds_ok open_fds base s1" "loop_run os g0 s1"
  shows "server_fds_ok open_fds base s"
  using assms(1)
proof (induction rule: rtranclp_induct)
  case (step y z)
  with server_reachable_run [OF step(1) assms(4)] server_step_fds assms(2) show ?case by blast
qed (rule assms(3))

lemma new_server_start:
  assumes new: "server_new e host port b queue_capacity = Some s0"
    and start: "start_server sk s0 = (ok, s1)" and law: "descriptors_ok os close_fd sk open_fds"
  shows "if ok then server_fds_ok open_fds (open_fds e) s1
    else open_fds (env (net (gate s1))) = open_fds e \<and> server_fd s1 < 0 \<and> epoll_fd s1 < 0"
proof -
  obtain g where g: "gateway_new e queue_capacity b = Some g"
    "s0 = \<lparr>server_host = host, server_port = port, server_fd = - 1, epoll_fd = - 1,
        gate = g\<lparr>running := False\<rparr>, loop_at = Loop_returned\<rparr>"
    using new by (auto simp: server_new_def bind_eq_Some_conv)
  then obtain iq rq where form: "g = gateway_start e iq rq b"
    by (auto simp: gateway_new_def bind_eq_Some_conv)
  obtain up sfd efd e' where socks: "setup_server_socket sk host port (- 1) e = (up, sfd, efd, e')"
    by (metis prod.exhaust)
  have "ok = up" "server_fd s1 = sfd" "epoll_fd s1 = efd" "env (net (gate s1)) = e'"
    "clients (net (gate s1)) = []" "up \<Longrightarrow> loop_at s1 = Loop_head"
    using start socks by (cases up; auto simp: start_server_def is_running_def g(2) form gateway_start_def Let_def)+
  with setup_no_leak [OF descriptors_okD(1) [OF law] socks] show ?thesis
    by (auto simp: server_fds_ok_def server_fds_def connections_ok_def clients_ok_def)
qed


section \<open>Always a defined next step\<close>

text \<open>
  What keeps the loops over the system calls finite and the connection of a line alive: no
  \<^verbatim>\<open>write\<close> fails, and a pass over \<^verbatim>\<open>read\<close> or \<^verbatim>\<open>accept\<close> uses up
  what is pending.
\<close>

definition no_write_errors :: "'e os \<Rightarrow> bool" where
  "no_write_errors os \<longleftrightarrow> (\<forall>fd d e. fst (os_write os fd d e) \<noteq> Write_error)"

definition passes_end :: "'e os \<Rightarrow> ('e \<Rightarrow> nat) \<Rightarrow> bool" where
  "passes_end os pending \<longleftrightarrow>
     (\<forall>fd e bytes e'. os_read os fd e = (Read_bytes bytes, e') \<longrightarrow> pending e' < pending e)
     \<and> (\<forall>e fd e'. os_accept os e = (Some fd, e') \<longrightarrow> pending e' < pending e) \<and> set_up_keeps os pending"

abbreviation connected :: "'e net_state \<Rightarrow> fd set" where
  "connected n \<equiv> fst ` set (clients n)"

lemma connected_iff: "fd \<in> connected n \<longleftrightarrow> (\<exists>c. map_of (clients n) fd = Some c)"
  by (metis dom_map_of_conv_image_fst domIff not_None_eq)

lemma update_client_total:
  assumes "fd \<in> connected n"
  shows "\<exists>n'. update_client fd f n = Some n' \<and> connected n' = connected n \<and> env n' = env n"
proof -
  obtain c where "map_of (clients n) fd = Some c" using assms connected_iff by blast
  with assms show ?thesis by (simp add: update_client_def fst_set_update insert_absorb)
qed

lemma update_client_connected: "update_client fd f n = Some n' \<Longrightarrow> connected n' = connected n"
proof -
  assume u: "update_client fd f n = Some n'"
  then have "fd \<in> connected n" by (auto simp: update_client_def connected_iff split: option.splits)
  from update_client_total [OF this, of f] u show ?thesis by auto
qed

lemma flush_keeps:
  assumes "flush_client_write_buffer os fd n = Some n'" "no_write_errors os"
  shows "connected n' = connected n"
  using assms
proof (induction rule: flush_client_write_buffer.raw_induct [rotated, consumes 1, case_names step])
  case (step flush os fd n n')
  obtain c where c: "map_of (clients n) fd = Some c"
    using step(2) by (auto simp: bind_eq_Some_conv)
  show ?case
  proof (cases "write_buffer c = []")
    case True
    with step(2) c show ?thesis by simp
  next
    case False
    obtain r e where w: "os_write os (conn_fd c) (write_buffer c) (env n) = (r, e)"
      by (cases "os_write os (conn_fd c) (write_buffer c) (env n)")
    show ?thesis
    proof (cases r)
      case (Wrote k)
      then obtain n1 where
        u: "update_client fd (\<lambda>c. c\<lparr>write_buffer := drop k (write_buffer c)\<rparr>) (n\<lparr>env := e\<rparr>) = Some n1"
        and rest: "flush os fd n1 = Some n'"
        using step(2) c False w by (auto simp: bind_eq_Some_conv)
      from step(1) [OF rest step(3)] update_client_connected [OF u] show ?thesis by simp
    next
      case Write_again
      with step(2) c False w show ?thesis by auto
    next
      case Write_error
      with w step(3) show ?thesis unfolding no_write_errors_def by (metis fst_conv)
    qed
  qed
qed

lemma flush_total:
  assumes "writes_append os sent_on" "clients_ok n" "fd \<in> connected n"
  shows "\<exists>n'. flush_client_write_buffer os fd n = Some n'"
proof -
  obtain c where "map_of (clients n) fd = Some c" using assms(3) connected_iff by blast
  from flush_correct [OF assms(1,2) this] show ?thesis by blast
qed

lemma new_connection_total:
  assumes "passes_end os pending"
  shows "\<exists>n'. handle_new_connection os n = Some n'"
proof (induction "pending (env n)" arbitrary: n rule: less_induct)
  case less
  obtain r e where a: "accept_client os (env n) = (r, e)" by (cases "accept_client os (env n)")
  show ?case
  proof (cases r)
    case None
    with a show ?thesis by (subst handle_new_connection.simps) simp
  next
    case (Some fd)
    obtain e1 where "os_accept os (env n) = (Some fd, e1)" "pending e = pending e1"
      using accept_client_keeps [OF _ a] assms Some unfolding passes_end_def by blast
    then have "pending e < pending (env n)" using assms unfolding passes_end_def by metis
    with less [of "n\<lparr>env := e, clients := AList.update fd
        \<lparr>conn_fd = fd, read_buffer = '''', write_buffer = ''''\<rparr> (clients n)\<rparr>"] a Some
    show ?thesis by (subst handle_new_connection.simps) simp
  qed
qed

lemma read_available_total:
  assumes "passes_end os pending" "fd \<in> connected n"
  shows "\<exists>n' go. read_available os fd n = Some (n', go) \<and> (go \<longrightarrow> fd \<in> connected n')"
  using assms(2)
proof (induction "pending (env n)" arbitrary: n rule: less_induct)
  case less
  obtain r e where a: "os_read os fd (env n) = (r, e)" by (cases "os_read os fd (env n)")
  show ?case
  proof (cases r)
    case (Read_bytes bytes)
    have dec: "pending e < pending (env n)" using assms(1) a Read_bytes unfolding passes_end_def by blast
    have "fd \<in> connected (n\<lparr>env := e\<rparr>)" using less.prems by simp
    from update_client_total [OF this, of "\<lambda>c. c\<lparr>read_buffer := read_buffer c @ bytes\<rparr>"]
    obtain n1 where n1: "update_client fd (\<lambda>c. c\<lparr>read_buffer := read_buffer c @ bytes\<rparr>) (n\<lparr>env := e\<rparr>) = Some n1"
      "connected n1 = connected n" "env n1 = e"
      by auto
    from less.hyps [of n1] less.prems dec n1 a Read_bytes show ?thesis
      by (subst read_available.simps) simp
  next
    case Read_again
    with a less.prems show ?thesis
      by (intro exI [of _ "n\<lparr>env := e\<rparr>"] exI [of _ True]) (subst read_available.simps, simp)
  next
    case Read_eof
    with a show ?thesis by (subst read_available.simps) auto
  next
    case Read_error
    with a show ?thesis by (subst read_available.simps) auto
  qed
qed


lemma process_line_total:
  assumes os: "writes_append os sent_on" "no_write_errors os" and n: "clients_ok n" "fd \<in> connected n"
  shows "\<exists>n' seq' msg. process_client_line os fd line n seq = Some (n', seq', msg) \<and> fd \<in> connected n'"
proof (cases "line = []")
  case True
  with n show ?thesis by (simp add: process_client_line_def)
next
  case False
  obtain t e where clock: "os_clock os (env n) = (t, e)" by (cases "os_clock os (env n)")
  define cmd where "cmd = parse_line t line"
  define n1 where "n1 = (if command_type cmd = New then n\<lparr>env := e\<rparr> else n)"
  obtain t2 e2 where clock2: "os_clock os (env n1) = (t2, e2)" by (cases "os_clock os (env n1)")
  note unf = process_client_line_def Let_def clock prod.case cmd_def [symmetric] n1_def [symmetric] clock2
  have n1: "clients n1 = clients n" by (simp add: n1_def)
  show ?thesis
  proof (cases "command_type cmd = Unknown")
    case True
    let ?f = "\<lambda>c. c\<lparr>write_buffer := format_reject 0 (error_msg cmd) (write_buffer c)\<rparr>"
    obtain n2 where n2: "update_client fd ?f n1 = Some n2" "connected n2 = connected n1"
      using update_client_total [of fd n1 ?f] n(2) n1 by auto
    have "clients_ok n2"
      using n2(1) n(1) n1 by (auto simp: update_client_def clients_ok_def split: option.splits if_splits)
    moreover have "fd \<in> connected n2" using n2(2) n(2) n1 by simp
    ultimately obtain n3 where n3: "flush_client_write_buffer os fd n2 = Some n3"
      using flush_total [OF os(1)] by blast
    have "connected n3 = connected n" using flush_keeps [OF n3 os(2)] n2(2) n1 by simp
    with n n2(1) n3 False True show ?thesis unfolding unf by simp
  next
    case known: False
    obtain c where "map_of (clients n) fd = Some c" using n(2) connected_iff by blast
    with False known n(2) n1 show ?thesis unfolding unf by auto
  qed
qed

text \<open>The connection a line loop refers to is there.\<close>

fun line_of :: "net_pc \<Rightarrow> fd option" where
  "line_of (Net_lines fd) = Some fd"
| "line_of (Net_push fd len msg) = Some fd"
| "line_of _ = None"

definition referred_ok :: "'e gateway \<Rightarrow> bool" where
  "referred_ok g \<longleftrightarrow> (\<forall>fd. line_of (net_at g) = Some fd \<longrightarrow> fd \<in> connected (net g))"

lemma drain_total:
  assumes "writes_append os sent_on" "clients_ok (net g)"
  shows "\<exists>g'. drain_response_queue os v g = Some g' \<and> net_at g' = net_at g"
proof -
  obtain rs q where p: "pop_batch (min 64 v) (response_queue g) = (rs, q)" by (metis prod.exhaust)
  obtain n' where "deliver os rs (net g) = Some n'"
    using deliver_correct [OF assms] by blast
  with p show ?thesis by (simp add: drain_response_queue_def)
qed

lemma handle_event_total:
  assumes os: "writes_append os sent_on" "passes_end os pending"
    and g: "clients_ok (net g)" "net_at g = Net_poll"
  shows "\<exists>g'. handle_event os v ev g = Some g' \<and> referred_ok g'"
proof (cases ev)
  case Ev_drain
  with drain_total [OF os(1) g(1), of v] g(2) show ?thesis by (auto simp: referred_ok_def)
next
  case Ev_accept
  with new_connection_total [OF os(2), of "net g"] g(2) show ?thesis by (auto simp: referred_ok_def)
next
  case (Ev_readable fd)
  show ?thesis
  proof (cases "fd \<in> connected (net g)")
    case True
    then obtain c where c: "map_of (clients (net g)) fd = Some c" using connected_iff by blast
    from read_available_total [OF os(2) True] obtain n' go where
      "read_available os fd (net g) = Some (n', go)" "go \<longrightarrow> fd \<in> connected n'" by blast
    with c Ev_readable show ?thesis by (simp add: referred_ok_def)
  next
    case False
    then have "map_of (clients (net g)) fd = None" by (simp add: map_of_eq_None_iff)
    with Ev_readable g(2) show ?thesis by (simp add: referred_ok_def)
  qed
next
  case (Ev_writable fd)
  show ?thesis
  proof (cases "map_of (clients (net g)) fd")
    case (Some c)
    then have "fd \<in> connected (net g)" using connected_iff by blast
    from flush_total [OF os(1) g(1) this] Ev_writable Some g(2) show ?thesis
      by (auto simp: handle_client_write_def referred_ok_def)
  qed (use Ev_writable g(2) in \<open>simp add: handle_client_write_def referred_ok_def\<close>)
next
  case (Ev_hangup fd)
  with g(2) show ?thesis by (simp add: referred_ok_def)
next
  case Ev_leave
  with g(2) show ?thesis by (simp add: referred_ok_def)
qed

lemma net_step_total:
  assumes os: "writes_append os sent_on" "passes_end os pending" "no_write_errors os"
    and g: "clients_ok (net g)" "referred_ok g"
  shows "\<exists>g'. net_step os v ev g = Some g' \<and> referred_ok g'"
proof (cases "net_at g")
  case Net_poll
  with handle_event_total [OF os(1,2) g(1) Net_poll] show ?thesis by (simp add: net_step_def)
next
  case (Net_lines fd)
  then have fd: "fd \<in> connected (net g)" using g(2) by (simp add: referred_ok_def)
  then obtain c where c: "map_of (clients (net g)) fd = Some c" using connected_iff by blast
  show ?thesis
  proof (cases "next_line (read_buffer c)")
    case None
    with Net_lines c show ?thesis by (simp add: net_step_def referred_ok_def)
  next
    case (Some ll)
    obtain line len where ll: "ll = (line, len)" by (cases ll)
    obtain n' seq' msg where p: "process_client_line os fd line (net g) (next_sequence g) = Some (n', seq', msg)"
      "fd \<in> connected n'"
      using process_line_total [OF os(1,3) g(1) fd] by blast
    from update_client_total [OF p(2), of "\<lambda>c. c\<lparr>read_buffer := drop len (read_buffer c)\<rparr>"]
    obtain n2 where "update_client fd (\<lambda>c. c\<lparr>read_buffer := drop len (read_buffer c)\<rparr>) n' = Some n2"
      "connected n2 = connected n'" by blast
    then show ?thesis
      using Net_lines c Some ll p by (cases msg) (simp_all add: net_step_def referred_ok_def)
  qed
next
  case (Net_push fd len msg)
  then have fd: "fd \<in> connected (net g)" using g(2) by (simp add: referred_ok_def)
  from update_client_total [OF this, of "\<lambda>c. c\<lparr>read_buffer := drop len (read_buffer c)\<rparr>"]
  obtain n1 where n1: "update_client fd (\<lambda>c. c\<lparr>read_buffer := drop len (read_buffer c)\<rparr>) (net g) = Some n1"
    "connected n1 = connected (net g)" by blast
  obtain ok q where "push msg (ingress_queue g) = (ok, q)" by (metis prod.exhaust)
  with Net_push fd n1 show ?thesis by (cases ok) (simp_all add: net_step_def referred_ok_def)
next
  case Net_join
  with drain_total [OF os(1) g(1), of v] show ?thesis by (auto simp: net_step_def referred_ok_def)
next
  case Net_stopped
  then show ?thesis by (simp add: net_step_def referred_ok_def)
qed


lemma net_step_referred:
  assumes "net_step os v ev g = Some g'" "writes_append os sent_on" "passes_end os pending" "no_write_errors os"
    and "clients_ok (net g)" "referred_ok g"
  shows "referred_ok g'"
  using net_step_total [OF assms(2-6), of v ev] assms(1) by auto

lemma loop_step_total:
  assumes "writes_append os sent_on" "passes_end os pending" "no_write_errors os"
    and "clients_ok (net (gate s))" "referred_ok (gate s)"
  shows "loop_step os close_fd v events s \<noteq> None"
proof -
  have "net_do os v ev pc s \<noteq> None" for ev pc
    using net_step_total [OF assms(1-5), of v ev] by (auto simp: net_do_def)
  then show ?thesis
    by (cases "loop_at s") (simp_all add: loop_step_def split: list.split)
qed

lemma server_step_referred:
  assumes os: "writes_append os sent_on" "passes_end os pending" "no_write_errors os"
    and step: "server_step os close_fd s s'" and ok: "clients_ok (net (gate s))" "referred_ok (gate s)"
  shows "referred_ok (gate s')"
  using step
proof cases
  case (server_loop v events)
  then show ?thesis
  proof (cases rule: loop_step_cases)
    case (net ev pc)
    then obtain g where "net_step os v ev (gate s) = Some g" "gate s' = g"
      by (auto simp: net_do_def bind_eq_Some_conv)
    with net_step_referred [OF _ os ok] show ?thesis by simp
  next
    case closing
    then show ?thesis by (simp add: referred_ok_def close_descriptor_def)
  qed (use ok in simp_all)
next
  case (server_match v g)
  with ok match_step_frame show ?thesis by (fastforce simp: referred_ok_def)
next
  case server_stop
  with ok show ?thesis by (simp add: referred_ok_def stop_server_def stop_def)
qed

lemma server_reachable_referred:
  assumes os: "writes_append os sent_on" "passes_end os pending" "no_write_errors os"
    and law: "descriptors_ok os close_fd sk open_fds"
    and start: "server_fds_ok open_fds base s1" "loop_run os g0 s1" "referred_ok (gate s1)"
    and steps: "(server_step os close_fd)\<^sup>*\<^sup>* s1 s"
  shows "referred_ok (gate s)"
  using steps
proof (induction rule: rtranclp_induct)
  case (step y z)
  have "clients_ok (net (gate y))"
    using server_reachable_fds [OF step(1) law start(1,2)] by (simp add: server_fds_ok_def connections_ok_def)
  with server_step_referred [OF os step(2)] step.IH show ?case by blast
qed (rule start(3))

lemma start_referred:
  assumes "start_server sk s0 = (True, s1)" "\<not> is_running s0"
  shows "referred_ok (gate s1)"
  using assms by (auto simp: start_server_def referred_ok_def Let_def split: prod.splits if_splits)

end
