(* ===== verification/Client_Stream.thy ===== *)
theory Client_Stream
  imports Gateway_Descriptors
begin

text \<open>
  The bytes a client receives. While its connection stays open, each step of the gateway leaves
  the bytes sent and buffered for it as they are or appends whole replies: the payloads of the
  responses drained for its descriptor, in order, and the rejections of its own malformed lines.
\<close>

section \<open>Shuffles\<close>

lemma shuffles_append_left: "zs \<in> shuffles xs ys \<Longrightarrow> zs @ ws \<in> shuffles (xs @ ws) ys"
proof (induction xs ys arbitrary: zs rule: shuffles.induct)
  case (1 ys)
  then show ?case
    by (induction ys arbitrary: zs) (cases ws; auto simp: Cons_in_shuffles_iff)+
next
  case (3 x xs y ys)
  from "3.prems" show ?case
    by (auto dest: "3.IH" simp: Cons_in_shuffles_iff)
qed (cases ws; simp)

lemma shuffles_append_right: "zs \<in> shuffles xs ys \<Longrightarrow> zs @ ws \<in> shuffles xs (ys @ ws)"
  using shuffles_append_left [of zs ys xs ws] by (simp add: shuffles_commutes)

section \<open>Calls that send nothing\<close>

text \<open>Reading, accepting, setting options and asking for the time put no bytes on a connection.\<close>

definition quiet_calls :: "'e os \<Rightarrow> (fd \<Rightarrow> 'e \<Rightarrow> string) \<Rightarrow> bool" where
  "quiet_calls os sent_on \<longleftrightarrow>
     (\<forall>fd fd' e. sent_on fd (snd (os_read os fd' e)) = sent_on fd e)
     \<and> (\<forall>fd e. sent_on fd (snd (os_accept os e)) = sent_on fd e)
     \<and> (\<forall>fd e. sent_on fd (snd (os_clock os e)) = sent_on fd e)
     \<and> (\<forall>fd. set_up_keeps os (sent_on fd))"

lemma quiet_callsD:
  assumes "quiet_calls os sent_on"
  shows "os_read os fd' e = (rr, e') \<Longrightarrow> sent_on fd e' = sent_on fd e"
    "accept_client os e = (ar, e') \<Longrightarrow> sent_on fd e' = sent_on fd e"
    "os_clock os e = (t, e') \<Longrightarrow> sent_on fd e' = sent_on fd e"
proof -
  have quiet: "sent_on fd (snd (os_read os fd' e)) = sent_on fd e"
    "sent_on fd (snd (os_accept os e)) = sent_on fd e"
    "sent_on fd (snd (os_clock os e)) = sent_on fd e" "set_up_keeps os (sent_on fd)"
    using assms by (simp_all add: quiet_calls_def)
  then show "os_read os fd' e = (rr, e') \<Longrightarrow> sent_on fd e' = sent_on fd e"
    "os_clock os e = (t, e') \<Longrightarrow> sent_on fd e' = sent_on fd e"
    by simp_all
  show "sent_on fd e' = sent_on fd e" if "accept_client os e = (ar, e')"
    using accept_client_keeps [OF quiet(4) that] quiet(2) by auto
qed

lemma outgoing_env:
  "sent_on fd e = sent_on fd (env n) \<Longrightarrow> outgoing sent_on fd (n\<lparr>env := e\<rparr>) = outgoing sent_on fd n"
  by (simp add: outgoing_def)

lemma outgoing_update:
  assumes "update_client fd' f n = Some n'" "\<And>c. write_buffer (f c) = write_buffer c"
  shows "outgoing sent_on fd n' = outgoing sent_on fd n"
  using assms by (auto simp: update_client_def outgoing_def split: option.splits)

lemma outgoing_close:
  assumes "writes_append os sent_on" "fd \<in> connected (close_connection os fd' n)"
  shows "outgoing sent_on fd (close_connection os fd' n) = outgoing sent_on fd n"
  using assms by (auto simp: close_connection_def outgoing_def writes_append_close fst_set_delete
      split: option.splits)

lemma close_connected: "connected (close_connection os fd n) = connected n - {fd}"
  by (auto simp: close_connection_def fst_set_delete map_of_eq_None_iff split: option.split)

lemma flush_outgoing:
  assumes os: "writes_append os sent_on" and ok: "clients_ok n" "fd' \<in> connected n"
    and run: "flush_client_write_buffer os fd' n = Some n'" and still: "fd \<in> connected n'"
  shows "outgoing sent_on fd n' = outgoing sent_on fd n"
proof -
  obtain c where c: "map_of (clients n) fd' = Some c" using ok(2) connected_iff by blast
  from flush_correct [OF os ok(1) c] run have "flushed sent_on fd' n n'" by auto
  moreover have "outgoing sent_on fd n' \<noteq> None"
    using still by (simp add: outgoing_None map_of_eq_None_iff)
  ultimately show ?thesis by (cases "fd = fd'") (auto simp: flushed_def)
qed

lemma read_outgoing:
  assumes run: "read_available os fd' n = Some (n', go)" and still: "fd \<in> connected n'"
    and laws: "writes_append os sent_on" "quiet_calls os sent_on"
  shows "outgoing sent_on fd n' = outgoing sent_on fd n"
proof -
  have "fd \<in> connected (fst r) \<longrightarrow> outgoing sent_on fd (fst r) = outgoing sent_on fd n"
    if "read_available os fd' n = Some r" "writes_append os sent_on" "quiet_calls os sent_on" for r
    using that
  proof (induction rule: read_available.raw_induct [rotated, consumes 1, case_names step])
    case (step read_all os fd' n r)
    obtain rr e where a: "os_read os fd' (env n) = (rr, e)" by (cases "os_read os fd' (env n)")
    have same: "outgoing sent_on fd (n\<lparr>env := e\<rparr>) = outgoing sent_on fd n"
      by (rule outgoing_env, rule quiet_callsD(1) [OF step(4) a])
    note closed = outgoing_close [OF step(3), of fd fd' "n\<lparr>env := e\<rparr>"]
    show ?case
    proof (cases rr)
      case (Read_bytes bytes)
      then obtain n1 where
        u: "update_client fd' (\<lambda>c. c\<lparr>read_buffer := read_buffer c @ bytes\<rparr>) (n\<lparr>env := e\<rparr>) = Some n1"
        and rest: "read_all os fd' n1 = Some r"
        using step(2) a by (auto simp: bind_eq_Some_conv)
      have "outgoing sent_on fd n1 = outgoing sent_on fd (n\<lparr>env := e\<rparr>)"
        by (rule outgoing_update [OF u]) simp
      with step(1) [OF rest step(3,4)] same show ?thesis by simp
    next
      case Read_eof
      with step(2) a have "fst r = close_connection os fd' (n\<lparr>env := e\<rparr>)" by auto
      with same closed show ?thesis by simp
    next
      case Read_again
      with step(2) a have "fst r = n\<lparr>env := e\<rparr>" by auto
      with same show ?thesis by simp
    next
      case Read_error
      with step(2) a have "fst r = close_connection os fd' (n\<lparr>env := e\<rparr>)" by auto
      with same closed show ?thesis by simp
    qed
  qed
  from this [OF run laws] still show ?thesis by simp
qed

lemma accept_outgoing:
  assumes run: "handle_new_connection os n = Some n'" and law: "connection_calls os open_fds"
    and ok: "connections_ok open_fds base n" "fd \<in> connected n" and quiet: "quiet_calls os sent_on"
  shows "outgoing sent_on fd n' = outgoing sent_on fd n"
proof -
  have "connections_ok open_fds base n \<longrightarrow> fd \<in> connected n \<longrightarrow> outgoing sent_on fd n' = outgoing sent_on fd n"
    if "connection_calls os open_fds" "quiet_calls os sent_on"
    using run that
  proof (induction rule: handle_new_connection.raw_induct [rotated, consumes 1, case_names step])
    case (step accept_all os n n')
    obtain r e where a: "accept_client os (env n) = (r, e)" by (cases "accept_client os (env n)")
    have sent: "sent_on fd e = sent_on fd (env n)" by (rule quiet_callsD(2) [OF step(4) a])
    show ?case
    proof (intro impI)
      assume ok: "connections_ok open_fds base n" and fd: "fd \<in> connected n"
      show "outgoing sent_on fd n' = outgoing sent_on fd n"
      proof (cases r)
        case None
        with step(2) a outgoing_env [of sent_on fd e n] sent show ?thesis by auto
      next
        case (Some c)
        let ?n = "n\<lparr>env := e, clients := AList.update c
            \<lparr>conn_fd = c, read_buffer = '''', write_buffer = ''''\<rparr> (clients n)\<rparr>"
        have new: "c \<notin> open_fds (env n)" "open_fds e = insert c (open_fds (env n))"
          using connection_callsD(6) [OF step(3)] a Some by auto
        then have "connections_ok open_fds base ?n"
          using ok by (auto simp: connections_ok_def clients_ok_def fst_set_update distinct_update)
        moreover have "fd \<noteq> c" using new(1) fd ok by (auto simp: connections_ok_def)
        moreover have "accept_all os ?n = Some n'" using step(2) a Some by simp
        ultimately show ?thesis
          using step(1) [OF _ step(3,4), of ?n n'] fd sent by (simp add: fst_set_update outgoing_def)
      qed
    qed
  qed
  with law ok quiet show ?thesis by blast
qed


section \<open>One step\<close>

definition rejections :: "string list \<Rightarrow> bool" where
  "rejections rs \<longleftrightarrow> (\<forall>r \<in> set rs. \<exists>reason. r = format_reject 0 reason [])"

text \<open>What is appended to the bytes on their way to a client, one entry for each reply.\<close>

definition appended :: "(fd \<Rightarrow> 'e \<Rightarrow> string) \<Rightarrow> fd \<Rightarrow> string list \<Rightarrow> 'e net_state \<Rightarrow> 'e net_state \<Rightarrow> bool" where
  "appended sent_on fd ms n n' \<longleftrightarrow>
     outgoing sent_on fd n' = map_option (\<lambda>s. s @ concat ms) (outgoing sent_on fd n)"

lemma appended_Nil: "appended sent_on fd [] n n' \<longleftrightarrow> outgoing sent_on fd n' = outgoing sent_on fd n"
  by (simp add: appended_def option.map_ident)

lemma appended_trans:
  "appended sent_on fd ms n n1 \<Longrightarrow> appended sent_on fd ms' n1 n2 \<Longrightarrow> appended sent_on fd (ms @ ms') n n2"
  by (cases "outgoing sent_on fd n") (simp_all add: appended_def)

lemma process_line_outgoing:
  assumes run: "process_client_line os fd' line n seq = Some (n', seq', msg)"
    and laws: "writes_append os sent_on" "quiet_calls os sent_on"
    and n: "clients_ok n" "fd' \<in> connected n" and still: "fd \<in> connected n'"
  shows "\<exists>rs. rejections rs \<and> appended sent_on fd rs n n'"
proof (cases "line = []")
  case True
  with run have "appended sent_on fd [] n n'" by (simp add: process_client_line_def appended_Nil)
  moreover have "rejections []" by (simp add: rejections_def)
  ultimately show ?thesis by blast
next
  case False
  obtain t e where clock: "os_clock os (env n) = (t, e)" by (cases "os_clock os (env n)")
  define cmd where "cmd = parse_line t line"
  define n1 where "n1 = (if command_type cmd = New then n\<lparr>env := e\<rparr> else n)"
  obtain t2 e2 where clock2: "os_clock os (env n1) = (t2, e2)" by (cases "os_clock os (env n1)")
  note unf = process_client_line_def Let_def clock prod.case cmd_def [symmetric] n1_def [symmetric] clock2
  have same1: "outgoing sent_on fd n1 = outgoing sent_on fd n"
    using outgoing_env [of sent_on fd e n] quiet_callsD(3) [OF laws(2) clock] by (simp add: n1_def)
  have n1: "clients n1 = clients n" by (simp add: n1_def)
  show ?thesis
  proof (cases "command_type cmd = Unknown")
    case True
    let ?reject = "format_reject 0 (error_msg cmd) []"
    obtain n2 where
      u: "update_client fd' (\<lambda>c. c\<lparr>write_buffer := format_reject 0 (error_msg cmd) (write_buffer c)\<rparr>) n1 = Some n2"
      and f: "flush_client_write_buffer os fd' n2 = Some n'"
      using run False True unfolding unf by (auto simp: bind_eq_Some_conv)
    have "clients_ok n2"
      using u n(1) n1 by (auto simp: update_client_def clients_ok_def split: option.splits if_splits)
    moreover have "fd' \<in> connected n2" using update_client_connected [OF u] n(2) n1 by simp
    ultimately have same2: "outgoing sent_on fd n' = outgoing sent_on fd n2"
      by (rule flush_outgoing [OF laws(1) _ _ f still])
    have app: "format_reject 0 m out = out @ format_reject 0 m []" for m out
      by (simp add: format_reject_def)
    obtain c where c: "map_of (clients n1) fd' = Some c" using n(2) connected_iff n1 by auto
    then have n2: "n2 = n1\<lparr>clients := AList.update fd'
        (c\<lparr>write_buffer := write_buffer c @ ?reject\<rparr>) (clients n1)\<rparr>"
      using u app [of "error_msg cmd" "write_buffer c"] by (simp add: update_client_def)
    have "outgoing sent_on fd n2 =
        map_option (\<lambda>s. s @ (if fd = fd' then ?reject else [])) (outgoing sent_on fd n1)"
      using c by (cases "fd = fd'") (simp_all add: n2 outgoing_def option.map_ident)
    then have "appended sent_on fd (if fd = fd' then [?reject] else []) n n'"
      using same1 same2 by (simp add: appended_def)
    moreover have "rejections (if fd = fd' then [?reject] else [])" by (auto simp: rejections_def)
    ultimately show ?thesis by blast
  next
    case known: False
    with run False have "n' = n1\<lparr>env := e2\<rparr>" unfolding unf by (auto simp: bind_eq_Some_conv)
    then have "outgoing sent_on fd n' = outgoing sent_on fd n1"
      using outgoing_env [of sent_on fd e2 n1] quiet_callsD(3) [OF laws(2) clock2] by simp
    then have "appended sent_on fd [] n n'" using same1 by (simp add: appended_Nil)
    moreover have "rejections []" by (simp add: rejections_def)
    ultimately show ?thesis by blast
  qed
qed

definition payloads_for :: "fd \<Rightarrow> response_message list \<Rightarrow> string list" where
  "payloads_for fd rs = map rm_payload (filter (\<lambda>r. rm_client_fd r = fd) rs)"

lemma payloads_for_append: "payloads_for fd (rs @ rs') = payloads_for fd rs @ payloads_for fd rs'"
  by (simp add: payloads_for_def)

lemma drain_outgoing:
  assumes run: "drain_response_queue os v g = Some g'" and laws: "writes_append os sent_on"
    and ok: "clients_ok (net g)" and still: "fd \<in> connected (net g')"
  shows "\<exists>rs. drained g' = drained g @ rs \<and> appended sent_on fd (payloads_for fd rs) (net g) (net g')"
proof -
  obtain rs q n where p: "pop_batch (min 64 v) (response_queue g) = (rs, q)"
    and d: "deliver os rs (net g) = Some n" and g': "g' = g\<lparr>net := n, response_queue := q, drained := drained g @ rs\<rparr>"
    using run by (auto simp: drain_response_queue_def bind_eq_Some_conv split: prod.splits)
  have "outgoing sent_on fd n \<in> {map_option (\<lambda>s. s @ payload_for fd rs) (outgoing sent_on fd (net g)), None}"
    using deliver_correct [OF laws ok, of rs] d by auto
  moreover have "outgoing sent_on fd n \<noteq> None"
    using still by (simp add: g' outgoing_None map_of_eq_None_iff)
  ultimately show ?thesis
    by (auto simp: g' appended_def payload_for_def payloads_for_def)
qed


text \<open>A step delivers some responses, or rejects a line, or leaves the bytes as they are.\<close>

definition replied ::
    "(fd \<Rightarrow> 'e \<Rightarrow> string) \<Rightarrow> fd \<Rightarrow> 'e gateway \<Rightarrow> 'e gateway \<Rightarrow> bool" where
  "replied sent_on fd g g' \<longleftrightarrow>
     (\<exists>new. drained g' = drained g @ new \<and> appended sent_on fd (payloads_for fd new) (net g) (net g'))
     \<or> drained g' = drained g \<and> (\<exists>rs. rejections rs \<and> appended sent_on fd rs (net g) (net g'))"

lemma replied_same:
  "drained g' = drained g \<Longrightarrow> outgoing sent_on fd (net g') = outgoing sent_on fd (net g) \<Longrightarrow>
   replied sent_on fd g g'"
  unfolding replied_def by (intro disjI2) (auto simp: rejections_def appended_Nil intro!: exI [of _ "[]"])

lemma handle_event_replied:
  assumes run: "handle_event os v ev g = Some g'"
    and laws: "writes_append os sent_on" "quiet_calls os sent_on" "connection_calls os open_fds"
    and ok: "connections_ok open_fds base (net g)" and fd: "fd \<in> connected (net g)" "fd \<in> connected (net g')"
  shows "replied sent_on fd g g'"
proof -
  have cl: "clients_ok (net g)" using ok by (simp add: connections_ok_def)
  show ?thesis
  proof (cases ev)
    case Ev_drain
    with run drain_outgoing [OF _ laws(1) cl fd(2)] show ?thesis by (auto simp: replied_def)
  next
    case Ev_accept
    with run accept_outgoing [OF _ laws(3) ok fd(1) laws(2)] show ?thesis
      by (auto simp: bind_eq_Some_conv intro!: replied_same)
  next
    case (Ev_readable c)
    with run fd read_outgoing [OF _ _ laws(1,2)] show ?thesis
      by (force simp: bind_eq_Some_conv intro!: replied_same split: option.splits)
  next
    case (Ev_writable c)
    show ?thesis
    proof (cases "map_of (clients (net g)) c")
      case None
      with Ev_writable run have "g' = g\<lparr>net := net g\<rparr>" by (simp add: handle_client_write_def)
      then show ?thesis by (intro replied_same) simp_all
    next
      case (Some cc)
      then have c: "c \<in> connected (net g)" using connected_iff by blast
      obtain n where n: "flush_client_write_buffer os c (net g) = Some n" "g' = g\<lparr>net := n\<rparr>"
        using Some Ev_writable run by (auto simp: handle_client_write_def bind_eq_Some_conv)
      with flush_outgoing [OF laws(1) cl c n(1), of fd] fd(2) show ?thesis
        by (intro replied_same) simp_all
    qed
  next
    case (Ev_hangup c)
    then have g': "g' = g\<lparr>net := close_connection os c (net g)\<rparr>" using run by simp
    with fd(2) outgoing_close [OF laws(1), of fd c "net g"] show ?thesis
      by (intro replied_same) simp_all
  next
    case Ev_leave
    with run show ?thesis by (intro replied_same) auto
  qed
qed

lemma fold_close_connected: "connected (fold (close_connection os) fds n) = connected n - set fds"
  by (induction fds arbitrary: n) (auto simp: close_connected)

lemma net_step_replied:
  assumes run: "net_step os v ev g = Some g'"
    and laws: "writes_append os sent_on" "quiet_calls os sent_on" "connection_calls os open_fds"
    and ok: "connections_ok open_fds base (net g)" and fd: "fd \<in> connected (net g)" "fd \<in> connected (net g')"
  shows "replied sent_on fd g g'"
proof (cases "net_at g")
  case Net_poll
  with run handle_event_replied [OF _ laws ok fd] show ?thesis by (simp add: net_step_def)
next
  case (Net_lines c)
  obtain cc where c: "map_of (clients (net g)) c = Some cc"
    using run Net_lines by (auto simp: net_step_def bind_eq_Some_conv)
  then have conn: "c \<in> connected (net g)" using connected_iff by blast
  have cl: "clients_ok (net g)" using ok by (simp add: connections_ok_def)
  show ?thesis
  proof (cases "next_line (read_buffer cc)")
    case None
    with run Net_lines c show ?thesis by (intro replied_same) (auto simp: net_step_def)
  next
    case (Some ll)
    obtain line len where ll: "ll = (line, len)" by (cases ll)
    obtain n1 seq msg where p: "process_client_line os c line (net g) (next_sequence g) = Some (n1, seq, msg)"
      and rest: "(case msg of
          None \<Rightarrow> do { n \<leftarrow> update_client c (\<lambda>c. c\<lparr>read_buffer := drop len (read_buffer c)\<rparr>) n1; Some (g\<lparr>net := n\<rparr>) }
        | Some m \<Rightarrow> Some (g\<lparr>net := n1, next_sequence := seq, net_at := Net_push c len m\<rparr>)) = Some g'"
      using run Net_lines c Some ll by (auto simp: net_step_def bind_eq_Some_conv)
    have end_of: "drained g' = drained g \<and> connected (net g') = connected n1
        \<and> outgoing sent_on fd (net g') = outgoing sent_on fd n1"
    proof (cases msg)
      case None
      with rest obtain n2 where u: "update_client c (\<lambda>c. c\<lparr>read_buffer := drop len (read_buffer c)\<rparr>) n1 = Some n2"
        "g' = g\<lparr>net := n2\<rparr>" by (auto simp: bind_eq_Some_conv)
      have "outgoing sent_on fd n2 = outgoing sent_on fd n1" by (rule outgoing_update [OF u(1)]) simp
      with update_client_connected [OF u(1)] u(2) show ?thesis by simp
    qed (use rest in auto)
    then have "fd \<in> connected n1" using fd(2) by simp
    from process_line_outgoing [OF p laws(1,2) cl conn this] end_of show ?thesis
      unfolding replied_def appended_def by (intro disjI2) simp
  qed
next
  case (Net_push c len msg)
  show ?thesis
  proof (cases "push msg (ingress_queue g)")
    case (Pair pushed q)
    have "outgoing sent_on fd n1 = outgoing sent_on fd (net g)"
      if "update_client c (\<lambda>c. c\<lparr>read_buffer := drop len (read_buffer c)\<rparr>) (net g) = Some n1" for n1
      by (rule outgoing_update [OF that]) simp
    with run Net_push Pair show ?thesis
      by (cases pushed) (auto simp: net_step_def bind_eq_Some_conv intro!: replied_same)
  qed
next
  case Net_join
  show ?thesis
  proof (cases "match_at g = Match_done")
    case True
    with Net_join run obtain g1 where
      "g' = g1\<lparr>net := fold (close_connection os) (map fst (clients (net g1))) (net g1), net_at := Net_stopped\<rparr>"
      by (auto simp: net_step_def bind_eq_Some_conv)
    with fd(2) show ?thesis by (simp add: fold_close_connected)
  next
    case False
    with Net_join run show ?thesis by (intro replied_same) (simp_all add: net_step_def)
  qed
next
  case Net_stopped
  with run show ?thesis by (intro replied_same) (simp_all add: net_step_def)
qed

section \<open>A connection's lifetime\<close>

text \<open>Steps of the gateway during which the connection stays open.\<close>

definition open_step :: "'e os \<Rightarrow> fd \<Rightarrow> 'e gateway \<Rightarrow> 'e gateway \<Rightarrow> bool" where
  "open_step os fd g g' \<longleftrightarrow> gateway_step os g g' \<and> fd \<in> connected (net g) \<and> fd \<in> connected (net g')"

lemma gateway_step_connections:
  assumes "gateway_step os g g'" "connection_calls os open_fds" "connections_ok open_fds base (net g)"
  shows "connections_ok open_fds base (net g')"
  using assms(1)
proof cases
  case (network v ev)
  then show ?thesis using net_step_ok assms(2,3) by blast
next
  case (matching v)
  with match_step_frame assms(3) show ?thesis by fastforce
next
  case signal
  with assms(3) show ?thesis by (simp add: stop_def)
qed

lemma gateway_step_replied:
  assumes step: "open_step os fd g g'"
    and laws: "writes_append os sent_on" "quiet_calls os sent_on" "connection_calls os open_fds"
    and ok: "connections_ok open_fds base (net g)"
  shows "replied sent_on fd g g'"
proof -
  have fd: "fd \<in> connected (net g)" "fd \<in> connected (net g')" and g: "gateway_step os g g'"
    using step by (simp_all add: open_step_def)
  from g show ?thesis
  proof cases
    case (network v ev)
    then show ?thesis using net_step_replied [OF _ laws ok fd] by blast
  next
    case (matching v)
    have "drained g' = drained g"
      using matching by (auto simp: match_step_def bind_eq_Some_conv Let_def
          split: match_pc.splits list.splits if_splits prod.splits bool.splits)
    with match_step_frame [OF matching] show ?thesis by (intro replied_same) simp_all
  next
    case signal
    then show ?thesis by (intro replied_same) (simp_all add: stop_def)
  qed
qed

lemma open_run_stream:
  assumes laws: "writes_append os sent_on" "quiet_calls os sent_on" "connection_calls os open_fds"
    and ok: "connections_ok open_fds base (net g0)"
    and run: "(open_step os fd)\<^sup>*\<^sup>* g0 g"
  shows "connections_ok open_fds base (net g) \<and>
    (\<exists>new rs ms. drained g = drained g0 @ new \<and> rejections rs \<and> ms \<in> shuffles (payloads_for fd new) rs
      \<and> appended sent_on fd ms (net g0) (net g))"
  using run
proof (induction rule: rtranclp_induct)
  case base
  have "rejections []" "[] \<in> shuffles (payloads_for fd []) []" by (simp_all add: rejections_def payloads_for_def)
  then show ?case using ok by (intro conjI exI [of _ "[]"]) (simp_all add: appended_Nil)
next
  case (step y z)
  obtain new rs ms where h: "drained y = drained g0 @ new" "rejections rs"
    "ms \<in> shuffles (payloads_for fd new) rs" "appended sent_on fd ms (net g0) (net y)"
    using step.IH by blast
  have conn: "connections_ok open_fds base (net z)"
    using step.IH gateway_step_connections [OF _ laws(3)] step.hyps(2) by (auto simp: open_step_def)
  have "replied sent_on fd y z"
    using gateway_step_replied [OF step.hyps(2) laws] step.IH by blast
  then show ?case
    unfolding replied_def
  proof
    assume "\<exists>more. drained z = drained y @ more \<and> appended sent_on fd (payloads_for fd more) (net y) (net z)"
    then obtain more where m: "drained z = drained y @ more"
      "appended sent_on fd (payloads_for fd more) (net y) (net z)" by blast
    have "ms @ payloads_for fd more \<in> shuffles (payloads_for fd (new @ more)) rs"
      using shuffles_append_left [OF h(3)] by (simp add: payloads_for_append)
    moreover have "drained z = drained g0 @ new @ more" using m(1) h(1) by simp
    ultimately show ?thesis using conn h(2) appended_trans [OF h(4) m(2)] by blast
  next
    assume "drained z = drained y \<and> (\<exists>rs. rejections rs \<and> appended sent_on fd rs (net y) (net z))"
    then obtain rs' where m: "drained z = drained y" "rejections rs'" "appended sent_on fd rs' (net y) (net z)"
      by blast
    have "rejections (rs @ rs')" using h(2) m(2) by (auto simp: rejections_def)
    with conn h(1) m(1) shuffles_append_right [OF h(3)] appended_trans [OF h(4) m(3)] show ?thesis by auto
  qed
qed


text \<open>A schedule during which the connection stays open, as data.\<close>

definition schedule_step :: "'e os \<Rightarrow> schedule_item \<Rightarrow> 'e gateway \<Rightarrow> 'e gateway option" where
  "schedule_step os item g =
     (case item of
        Network ev \<Rightarrow> net_step os 64 ev g
      | Matching \<Rightarrow> match_step 64 g
      | Signal \<Rightarrow> Some (stop g))"

fun run_open :: "'e os \<Rightarrow> fd \<Rightarrow> schedule_item list \<Rightarrow> 'e gateway \<Rightarrow> 'e gateway option" where
  "run_open os fd [] g = Some g"
| "run_open os fd (item # sch) g =
     do { g' \<leftarrow> schedule_step os item g;
          if fd \<in> connected (net g) \<and> fd \<in> connected (net g') then run_open os fd sch g' else None }"

lemma schedule_step_is: "schedule_step os item g = Some g' \<Longrightarrow> gateway_step os g g'"
  by (auto simp: schedule_step_def intro: gateway_step.intros split: schedule_item.splits)

lemma run_open_steps: "run_open os fd sch g = Some g' \<Longrightarrow> (open_step os fd)\<^sup>*\<^sup>* g g'"
proof (induction os fd sch g rule: run_open.induct)
  case (2 os fd item sch g)
  then obtain y where y: "schedule_step os item g = Some y" "fd \<in> connected (net g) \<and> fd \<in> connected (net y)"
    "run_open os fd sch y = Some g'"
    by (auto simp: bind_eq_Some_conv simp del: image_eqI split: if_split_asm)
  then have "open_step os fd g y" by (simp add: open_step_def schedule_step_is)
  moreover have "(open_step os fd)\<^sup>*\<^sup>* y g'" using "2.IH" y by blast
  ultimately show ?case by (rule converse_rtranclp_into_rtranclp)
qed simp

end
