(* ===== verification/Non_Blocking.thy ===== *)
theory Non_Blocking
  imports Client_Stream
begin

text \<open>
  Why the network thread never waits inside a system call: \<^verbatim>\<open>set_non_blocking\<close> is called
  on the listening socket and on each client before it is registered. The code looks at no
  result of it, so this rests on \<^verbatim>\<open>fcntl\<close> not failing, which is what \<open>fcntl_ok\<close> states.
\<close>

section \<open>What the calls do to the mode of a descriptor\<close>

definition fcntl_ok :: "'e fd_calls \<Rightarrow> ('e \<Rightarrow> fd set) \<Rightarrow> bool" where
  "fcntl_ok fc non_blocking \<longleftrightarrow>
     (\<forall>fd e. case fc_getfl fc fd e of (flags, e') \<Rightarrow> flags \<noteq> - 1 \<and> non_blocking e' = non_blocking e)
     \<and> (\<forall>fd flags e. case fc_setfl fc fd flags e of (ok, e') \<Rightarrow> ok \<and> non_blocking e'
          = (if flags AND O_NONBLOCK = 0 then non_blocking e - {fd} else insert fd (non_blocking e)))
     \<and> (\<forall>fd opt e. non_blocking (snd (fc_setsockopt fc fd opt e)) = non_blocking e)"

definition modes_ok :: "'e os \<Rightarrow> 'e sock_os \<Rightarrow> ('e \<Rightarrow> fd set) \<Rightarrow> bool" where
  "modes_ok os sk non_blocking \<longleftrightarrow>
     fcntl_ok (os_calls os) non_blocking \<and> fcntl_ok (sk_calls sk) non_blocking
     \<and> (\<forall>fd e. non_blocking (snd (os_read os fd e)) = non_blocking e)
     \<and> (\<forall>fd d e. non_blocking (snd (os_write os fd d e)) = non_blocking e)
     \<and> (\<forall>e. non_blocking (snd (os_clock os e)) = non_blocking e)
     \<and> (\<forall>fd e. non_blocking (os_close os fd e) = non_blocking e - {fd})
     \<and> (\<forall>fd e. non_blocking (os_epoll_add os fd e) = non_blocking e)
     \<and> (\<forall>e. case os_accept os e of (r, e') \<Rightarrow>
          non_blocking e' = non_blocking e \<and> (\<forall>fd. r = Some fd \<longrightarrow> fd \<notin> non_blocking e))
     \<and> (\<forall>fd a p e. non_blocking (snd (sk_bind sk fd a p e)) = non_blocking e)
     \<and> (\<forall>fd e. non_blocking (snd (sk_listen sk fd e)) = non_blocking e)
     \<and> (\<forall>e. non_blocking (snd (sk_epoll_create sk e)) = non_blocking e)
     \<and> (\<forall>ep fd e. non_blocking (snd (sk_epoll_add sk ep fd e)) = non_blocking e)"

lemma flags_or_non_blocking: "(flags OR O_NONBLOCK) AND O_NONBLOCK \<noteq> 0"
proof -
  have "(flags OR O_NONBLOCK) AND O_NONBLOCK = O_NONBLOCK"
    by (auto simp: bit_eq_iff bit_simps)
  then show ?thesis by (simp add: O_NONBLOCK_def)
qed

lemma set_non_blocking_sets:
  assumes "fcntl_ok fc non_blocking"
  shows "fst (set_non_blocking fc fd e)"
    "non_blocking (snd (set_non_blocking fc fd e)) = insert fd (non_blocking e)"
proof -
  obtain flags e1 where g: "fc_getfl fc fd e = (flags, e1)" by (cases "fc_getfl fc fd e")
  obtain ok e2 where s: "fc_setfl fc fd (flags OR O_NONBLOCK) e1 = (ok, e2)"
    by (cases "fc_setfl fc fd (flags OR O_NONBLOCK) e1")
  have "case fc_getfl fc fd e of (flags, e') \<Rightarrow> flags \<noteq> - 1 \<and> non_blocking e' = non_blocking e"
    "case fc_setfl fc fd (flags OR O_NONBLOCK) e1 of (ok, e') \<Rightarrow> ok \<and> non_blocking e'
      = (if (flags OR O_NONBLOCK) AND O_NONBLOCK = 0 then non_blocking e1 - {fd} else insert fd (non_blocking e1))"
    using assms unfolding fcntl_ok_def by (simp_all only: simp_thms)
  then show "fst (set_non_blocking fc fd e)"
    "non_blocking (snd (set_non_blocking fc fd e)) = insert fd (non_blocking e)"
    by (simp_all add: set_non_blocking_def g s flags_or_non_blocking)
qed

lemma setsockopt_mode:
  assumes "fcntl_ok fc non_blocking"
  shows "non_blocking (snd (fc_setsockopt fc fd opt e)) = non_blocking e"
    "non_blocking (snd (disable_nagle fc fd e)) = non_blocking e"
  using assms by (simp_all add: fcntl_ok_def disable_nagle_def)

section \<open>Connections\<close>

text \<open>A round of the accept loop adds a non-blocking descriptor, so the laws of the handlers apply.\<close>

lemma modes_connection_calls:
  assumes "modes_ok os sk non_blocking"
  shows "connection_calls os non_blocking"
proof -
  note l = assms [unfolded modes_ok_def]
  have fc: "fcntl_ok (os_calls os) non_blocking" using l by simp
  have "case accept_client os e of (None, e') \<Rightarrow> non_blocking e' = non_blocking e
      | (Some fd, e') \<Rightarrow> fd \<notin> non_blocking e \<and> non_blocking e' = insert fd (non_blocking e)" for e
  proof -
    obtain r e1 where a: "os_accept os e = (r, e1)" by (cases "os_accept os e")
    have "case os_accept os e of (r, e') \<Rightarrow>
        non_blocking e' = non_blocking e \<and> (\<forall>fd. r = Some fd \<longrightarrow> fd \<notin> non_blocking e)"
      using l by simp
    with a have acc: "non_blocking e1 = non_blocking e" "\<And>fd. r = Some fd \<Longrightarrow> fd \<notin> non_blocking e"
      by simp_all
    show ?thesis
    proof (cases r)
      case None
      with a acc(1) show ?thesis by (simp add: accept_client_def)
    next
      case (Some fd)
      have "accept_client os e = (Some fd, os_epoll_add os fd
          (snd (disable_nagle (os_calls os) fd (snd (set_non_blocking (os_calls os) fd e1)))))"
        using a Some by (simp add: accept_client_def split: prod.split)
      with Some acc l show ?thesis
        by (simp add: setsockopt_mode [OF fc] set_non_blocking_sets [OF fc])
    qed
  qed
  then show ?thesis using l by (simp add: connection_calls_def)
qed

section \<open>The server\<close>

lemma listening_socket_mode:
  assumes law: "modes_ok os sk non_blocking"
    and run: "setup_server_socket sk host port (- 1) e = (True, sfd, efd, e')"
  shows "sfd \<in> non_blocking e'"
proof -
  note l = law [unfolded modes_ok_def]
  have fc: "fcntl_ok (sk_calls sk) non_blocking" using l by simp
  obtain s e0 where c1: "sk_socket sk e = (s, e0)" by (cases "sk_socket sk e")
  define e1 where "e1 = listening_options (sk_calls sk) s e0"
  define address where "address = (case sk_inet_pton sk host of Some a \<Rightarrow> a | None \<Rightarrow> INADDR_ANY)"
  obtain b e2 where c2: "sk_bind sk s address port e1 = (b, e2)" by (cases "sk_bind sk s address port e1")
  obtain ls e3 where c3: "sk_listen sk s e2 = (ls, e3)" by (cases "sk_listen sk s e2")
  obtain ep e4 where c4: "sk_epoll_create sk e3 = (ep, e4)" by (cases "sk_epoll_create sk e3")
  obtain a e5 where c5: "sk_epoll_add sk ep s e4 = (a, e5)" by (cases "sk_epoll_add sk ep s e4")
  have "non_blocking e2 = non_blocking e1" "non_blocking e3 = non_blocking e2"
    "non_blocking e4 = non_blocking e3" "non_blocking e5 = non_blocking e4"
    using l c2 c3 c4 c5 by (metis snd_conv)+
  moreover have "s \<in> non_blocking e1"
    by (simp add: e1_def listening_options_alt set_non_blocking_sets [OF fc])
  moreover have "sfd = s" "e' = e5"
    using run unfolding setup_server_socket_def c1 prod.case Let_def e1_def [symmetric]
      address_def [symmetric] c2 c3 c4 c5
    by (auto split: if_splits)
  ultimately show ?thesis by simp
qed

lemma start_modes:
  assumes new: "server_new e host port b queue_capacity = Some s0" "start_server sk s0 = (True, s1)"
    and law: "modes_ok os sk non_blocking"
  shows "connections_ok non_blocking (non_blocking (env (net (gate s1)))) (net (gate s1))"
    "server_fd s1 \<in> non_blocking (env (net (gate s1)))" "\<not> is_running s0"
proof -
  obtain g where g: "gateway_new e queue_capacity b = Some g"
    "s0 = \<lparr>server_host = host, server_port = port, server_fd = - 1, epoll_fd = - 1,
        gate = g\<lparr>running := False\<rparr>, loop_at = Loop_returned\<rparr>"
    using new(1) by (auto simp: server_new_def bind_eq_Some_conv)
  then obtain iq rq where form: "g = gateway_start e iq rq b"
    by (auto simp: gateway_new_def bind_eq_Some_conv)
  obtain up sfd efd e' where socks: "setup_server_socket sk host port (- 1) e = (up, sfd, efd, e')"
    by (metis prod.exhaust)
  have s1: "up" "server_fd s1 = sfd" "env (net (gate s1)) = e'" "clients (net (gate s1)) = []"
    using new(2) socks by (cases up; auto simp: start_server_def is_running_def g(2) form gateway_start_def Let_def)+
  show "connections_ok non_blocking (non_blocking (env (net (gate s1)))) (net (gate s1))"
    by (simp add: connections_ok_def clients_ok_def s1)
  show "server_fd s1 \<in> non_blocking (env (net (gate s1)))"
    using listening_socket_mode [OF law, of host port e sfd efd e'] socks s1 by simp
  show "\<not> is_running s0" by (simp add: g(2) is_running_def)
qed

end
