(* ===== verification/Server_Main.thy ===== *)
theory Server_Main
  imports Gateway_Loop
begin

text \<open>
  \<^verbatim>\<open>src/main.cpp\<close>: the command line, the signal handler and the exit code.
  \<^verbatim>\<open>std::stoi\<close> is modelled as the standard describes it, and its exceptions, which
  nothing catches, are values.
\<close>

section \<open>The command line\<close>

datatype std_exception = Std_invalid_argument | Std_out_of_range

definition is_space :: "char \<Rightarrow> bool" where
  "is_space c \<longleftrightarrow> c \<in> {CHR '' '', CHR 0x09, CHR 0x0A, CHR 0x0B, CHR 0x0C, CHR 0x0D}"

definition stoi :: "string \<Rightarrow> std_exception + int" where
  "stoi str =
     (let s = dropWhile is_space str;
          negative = (s \<noteq> [] \<and> hd s = CHR ''-'');
          s = (if s \<noteq> [] \<and> (hd s = CHR ''-'' \<or> hd s = CHR ''+'') then tl s else s);
          ds = takeWhile is_digit s;
          v = foldl (\<lambda>acc c. acc * 10 + int (digit_value c)) 0 ds;
          v = (if negative then - v else v)
      in if ds = [] then Inl Std_invalid_argument
         else if v < - (2 ^ 31) \<or> 2 ^ 31 \<le> v then Inl Std_out_of_range
         else Inr v)"

text \<open>Port and host from the arguments after the program's name.\<close>

definition server_config :: "string list \<Rightarrow> std_exception + u16 \<times> string" where
  "server_config args =
     (let host = (if length args > 1 then args ! 1 else ''0.0.0.0'') in
      if length args > 0 then
        (case stoi (args ! 0) of Inl ex \<Rightarrow> Inl ex | Inr v \<Rightarrow> Inr (word_of_int v, host))
      else Inr (8080, host))"

lemma takeWhile_digits: "\<forall>c \<in> set ds. is_digit c \<Longrightarrow> takeWhile is_digit ds = ds"
  by (simp add: takeWhile_eq_all_conv)

lemma digit_not_prefix: "is_digit c \<Longrightarrow> \<not> is_space c \<and> c \<noteq> CHR ''-'' \<and> c \<noteq> CHR ''+''"
  by (auto simp: is_digit_def is_space_def)

text \<open>
  A port is read back exactly when it fits: a larger number wraps around modulo \<open>2 ^ 16\<close>
  without a message.
\<close>

lemma server_config_port:
  assumes "n < 2 ^ 31"
  shows "server_config [to_string n] = Inr (word_of_nat n, ''0.0.0.0'')"
proof -
  have ds: "\<forall>c \<in> set (to_string n). is_digit c" using to_string_digits [of n] by blast
  obtain c cs where c: "to_string n = c # cs" by (cases "to_string n") simp_all
  have p: "\<not> is_space c" "c \<noteq> CHR ''-''" "c \<noteq> CHR ''+''"
    using ds digit_not_prefix [of c] by (simp_all add: c)
  have v: "foldl (\<lambda>acc c. acc * 10 + int (digit_value c)) 0 (c # cs) = int n"
    using decimal_value_int [of "to_string n"] to_string_value [of n] by (simp add: c)
  have tw: "takeWhile is_digit (c # cs) = c # cs" using takeWhile_digits ds c by metis
  have "stoi (to_string n) = Inr (int n)"
    using p assms unfolding stoi_def c Let_def by (simp add: v tw del: foldl_Cons takeWhile.simps)
  then show ?thesis by (simp add: server_config_def)
qed

section \<open>Signals and the main function\<close>

definition handle_signal :: "int \<Rightarrow> 'e server option \<Rightarrow> 'e server option" where
  "handle_signal signal g_server =
     (if signal = 2 \<or> signal = 15 then map_option stop_server g_server else g_server)"

text \<open>
  Up to the loop of \<^verbatim>\<open>start()\<close>: the exit code when the program ends before it, or the
  running server.
\<close>

definition titan_main ::
    "'e sock_os \<Rightarrow> string list \<Rightarrow> 'e \<Rightarrow> (std_exception + int + 'e server) option" where
  "titan_main sk args e =
     (case server_config args of
        Inl ex \<Rightarrow> Some (Inl ex)
      | Inr (port, host) \<Rightarrow>
          do {
            g_server \<leftarrow> server_new e host port (pool_new 1000000) 65536;
            Some (Inr (case start_server sk g_server of
                (False, _) \<Rightarrow> Inl 1
              | (True, g_server) \<Rightarrow> Inr g_server))
          })"

end
