(* ===== verification/Server_Properties.thy ===== *)
theory Server_Properties
  imports Non_Blocking Server_Main
begin

text \<open>
  The properties of the server as a whole: the polling loop runs the two-thread system, no
  descriptor leaks, the loop never runs into undefined behaviour while writes succeed, and what
  the program serves from \<^verbatim>\<open>main\<close> on. The sample runs use a small kernel: a table of
  descriptors, pending connections and a script of reads.
\<close>

section \<open>A sample kernel\<close>

record kernel =
  fd_table :: "fd list"
  arriving :: nat
  incoming :: "read_result list"
  outgoing_log :: "(fd \<times> string) list"
  non_blocking_fds :: "fd list"

definition kernel_close :: "fd \<Rightarrow> kernel \<Rightarrow> kernel" where
  "kernel_close fd e = e\<lparr>fd_table := filter (\<lambda>x. x \<noteq> fd) (fd_table e),
     non_blocking_fds := filter (\<lambda>x. x \<noteq> fd) (non_blocking_fds e)\<rparr>"

definition kernel_open :: "kernel \<Rightarrow> fd \<times> kernel" where
  "kernel_open e =
     (let fd = fresh_fd (fd_table e @ non_blocking_fds e) in (fd, e\<lparr>fd_table := fd # fd_table e\<rparr>))"

definition kernel_calls :: "kernel fd_calls" where
  "kernel_calls =
     \<lparr>fc_getfl = (\<lambda>fd e. (if fd \<in> set (non_blocking_fds e) then O_NONBLOCK else 0, e)),
      fc_setfl = (\<lambda>fd fl e. (True, e\<lparr>non_blocking_fds := (if fl AND O_NONBLOCK = 0 then [] else [fd])
        @ filter (\<lambda>x. x \<noteq> fd) (non_blocking_fds e)\<rparr>)),
      fc_setsockopt = (\<lambda>fd opt e. (True, e))\<rparr>"

definition kernel_os :: "kernel os" where
  "kernel_os =
     \<lparr>os_read = (\<lambda>fd e. case incoming e of [] \<Rightarrow> (Read_again, e) | r # rs \<Rightarrow> (r, e\<lparr>incoming := rs\<rparr>)),
      os_write = (\<lambda>fd data e. (Wrote (min 5 (length data)), e\<lparr>outgoing_log := outgoing_log e @ [(fd, take 5 data)]\<rparr>)),
      os_close = kernel_close,
      os_accept = (\<lambda>e. if arriving e = 0 then (None, e)
        else let (fd, e) = kernel_open e in (Some fd, e\<lparr>arriving := arriving e - 1\<rparr>)),
      os_clock = (\<lambda>e. (7, e)), os_calls = kernel_calls, os_epoll_add = (\<lambda>fd e. e)\<rparr>"

definition kernel_sockets :: "kernel sock_os" where
  "kernel_sockets =
     \<lparr>sk_socket = kernel_open, sk_inet_pton = (\<lambda>_. None), sk_bind = (\<lambda>fd a p e. (True, e)),
      sk_listen = (\<lambda>fd e. (True, e)), sk_epoll_create = kernel_open, sk_epoll_add = (\<lambda>ep fd e. (True, e)),
      sk_close = kernel_close, sk_calls = kernel_calls\<rparr>"

definition open_in :: "kernel \<Rightarrow> fd set" where
  "open_in e = set (fd_table e)"

definition kernel_sent :: "fd \<Rightarrow> kernel \<Rightarrow> string" where
  "kernel_sent fd e = concat (map snd (filter (\<lambda>(fd', _). fd' = fd) (outgoing_log e)))"

definition kernel_pending :: "kernel \<Rightarrow> nat" where
  "kernel_pending e = arriving e + length (incoming e)"

lemma fresh_fd_new: "fresh_fd (t @ u) \<notin> set t" "fresh_fd (t @ u) \<notin> set u" "\<not> fresh_fd t < 0"
proof -
  have "fresh_fd t \<notin> set t" "\<not> fresh_fd t < 0" for t
    using fold_max_le [of 2 t] by (auto simp: fresh_fd_def)
  from this(1) [of "t @ u"] this(2) [of t]
  show "fresh_fd (t @ u) \<notin> set t" "fresh_fd (t @ u) \<notin> set u" "\<not> fresh_fd t < 0" by simp_all
qed

definition kernel_non_blocking :: "kernel \<Rightarrow> fd set" where
  "kernel_non_blocking e = set (non_blocking_fds e)"

lemma kernel_set_up:
  assumes "\<And>e fds. obs (e\<lparr>non_blocking_fds := fds\<rparr>) = obs e"
  shows "calls_keep kernel_calls obs" "set_up_keeps kernel_os obs"
  using assms by (simp_all add: set_up_keeps_def calls_keep_def kernel_calls_def kernel_os_def)

lemma kernel_descriptors: "descriptors_ok kernel_os kernel_close kernel_sockets open_in"
proof -
  have "open_in (e\<lparr>non_blocking_fds := fds\<rparr>) = open_in e" for e fds by (simp add: open_in_def)
  note k = kernel_set_up [of open_in, OF this]
  from k(1) have "sockets_ok kernel_sockets open_in"
    by (auto simp: sockets_ok_def opens_def kernel_sockets_def open_in_def kernel_close_def kernel_open_def
        fresh_fd_new Let_def)
  then show ?thesis unfolding descriptors_ok_def
    by (intro conjI k(2)) (auto simp: kernel_os_def open_in_def kernel_close_def kernel_open_def
        fresh_fd_new Let_def split: list.split)
qed

lemma kernel_writes: "writes_append kernel_os kernel_sent"
  by (auto simp: writes_append_def kernel_os_def kernel_sent_def kernel_close_def min_def)

lemma kernel_no_errors: "no_write_errors kernel_os"
  by (simp add: no_write_errors_def kernel_os_def)

lemma kernel_passes: "passes_end kernel_os kernel_pending"
proof -
  have "set_up_keeps kernel_os kernel_pending" by (rule kernel_set_up) (simp add: kernel_pending_def)
  then show ?thesis unfolding passes_end_def
    by (intro conjI) (auto simp: kernel_os_def kernel_pending_def kernel_open_def Let_def
        split: list.splits if_splits)
qed

text \<open>A schedule of the server: the results of the waits, the matching thread, the signal.\<close>

datatype server_item = Poll "epoll_event list" | Match_once | Stop

fun run_server :: "'e os \<Rightarrow> (fd \<Rightarrow> 'e \<Rightarrow> 'e) \<Rightarrow> server_item list \<Rightarrow> 'e server \<Rightarrow> 'e server option" where
  "run_server os close_fd [] s = Some s"
| "run_server os close_fd (Poll events # sch) s =
     do { s \<leftarrow> loop_step os close_fd 64 events s; run_server os close_fd sch s }"
| "run_server os close_fd (Match_once # sch) s =
     do { g \<leftarrow> match_step 64 (gate s); run_server os close_fd sch (s\<lparr>gate := g\<rparr>) }"
| "run_server os close_fd (Stop # sch) s = run_server os close_fd sch (stop_server s)"

lemma run_server_steps:
  "run_server os close_fd sch s = Some s' \<Longrightarrow> (server_step os close_fd)\<^sup>*\<^sup>* s s'"
proof (induction os close_fd sch s rule: run_server.induct)
  case (2 os close_fd events sch s)
  then show ?case
    by (auto simp: bind_eq_Some_conv intro: converse_rtranclp_into_rtranclp server_loop)
next
  case (3 os close_fd sch s)
  then show ?case
    by (auto simp: bind_eq_Some_conv intro: converse_rtranclp_into_rtranclp server_match)
next
  case (4 os close_fd sch s)
  then show ?case
    by (auto intro: converse_rtranclp_into_rtranclp server_stop)
qed simp

text \<open>One client sends an order and a line that is no command; then the server is stopped.\<close>

definition sample_kernel :: kernel where
  "sample_kernel = \<lparr>fd_table = [2, 1, 0], arriving = 1,
     incoming = [Read_bytes (''NEW BUY 1 100 5'' @ [newline] @ ''HELLO'' @ [newline])], outgoing_log = [], non_blocking_fds = []\<rparr>"

definition listening_event :: epoll_event where
  "listening_event = \<lparr>ev_fd = 3, ev_in = True, ev_out = False, ev_hup = False\<rparr>"

definition client_event :: epoll_event where
  "client_event = \<lparr>ev_fd = 5, ev_in = True, ev_out = True, ev_hup = False\<rparr>"

definition sample_server :: "(bool \<times> kernel server) option" where
  "sample_server = map_option (start_server kernel_sockets)
     (server_new sample_kernel ''0.0.0.0'' 8080 (pool_new 2) 4)"

definition serving_schedule :: "server_item list" where
  "serving_schedule = Match_once # replicate 3 (Poll [listening_event, client_event]) @ replicate 9 (Poll [])
     @ replicate 4 Match_once @ replicate 4 (Poll [])"

definition stopping_schedule :: "server_item list" where
  "stopping_schedule = Stop # Match_once # replicate 9 (Poll [])"


definition sample_run :: "server_item list \<Rightarrow> kernel server option" where
  "sample_run sch =
     (case sample_server of
        Some (True, s) \<Rightarrow> run_server kernel_os kernel_close sch s
      | _ \<Rightarrow> None)"

lemma sample_run_reaches:
  assumes "sample_run sch = Some s"
  obtains s0 s1 where "server_new sample_kernel ''0.0.0.0'' 8080 (pool_new 2) 4 = Some s0"
    "start_server kernel_sockets s0 = (True, s1)" "(server_step kernel_os kernel_close)\<^sup>*\<^sup>* s1 s"
proof -
  obtain s0 s1 where "server_new sample_kernel ''0.0.0.0'' 8080 (pool_new 2) 4 = Some s0"
    "start_server kernel_sockets s0 = (True, s1)" "run_server kernel_os kernel_close sch s1 = Some s"
    using assms by (auto simp: sample_run_def sample_server_def split: option.splits prod.splits bool.splits)
  then show ?thesis using that run_server_steps by blast
qed

lemma sample_stopped:
  "map_option (\<lambda>s. (loop_at s, length (accepted (gate s)), length (drained (gate s)), fd_table (env (net (gate s)))))
     (sample_run (serving_schedule @ stopping_schedule)) = Some (Loop_returned, 1, 1, [2, 1, 0])"
  by code_simp

lemma sample_serving:
  "map_option (\<lambda>s. (loop_at s, length (accepted (gate s)), map fst (clients (net (gate s))), fd_table (env (net (gate s)))))
     (sample_run serving_schedule) = Some (Loop_handlers [], 1, [5], [5, 4, 3, 2, 1, 0])"
  by code_simp

lemma mapped: "map_option f x = Some y \<Longrightarrow> \<exists>z. x = Some z \<and> f z = y"
  by auto

section \<open>Properties\<close>

text \<open>C7. The polling loop of \<^verbatim>\<open>start()\<close>, which drains, waits, calls the handlers of the
  ready descriptors in order and drains again, runs the two-thread system: whatever
  \<^verbatim>\<open>epoll_wait\<close> reports and however the matching thread and the signal interleave,
  each state of the server is a state of that system, with the same queues, logs, book and
  connections. Once \<^verbatim>\<open>start()\<close> has returned they differ only in the environment, in
  which the server has closed its own two descriptors; then the matching thread has left and no
  connection is open.\<close>

theorem server_loop_refines:
  assumes "start_server sk s0 = (True, s1)" "\<not> is_running s0"
    and "(server_step os close_fd)\<^sup>*\<^sup>* s1 s"
  shows "\<exists>g. (gateway_step os)\<^sup>*\<^sup>* (gate s1) g
    \<and> (if loop_at s = Loop_returned
       then same_but_env g (gate s) \<and> \<not> is_running s \<and> match_at g = Match_done \<and> connected_clients s = 0
       else gate s = g)"
proof -
  have run: "loop_run os (gate s1) s"
    using server_reachable_run [OF assms(3) start_server_run [OF assms(1,2)]] .
  then obtain g where g: "(gateway_step os)\<^sup>*\<^sup>* (gate s1) g"
    "if loop_at s = Loop_returned then same_but_env g (gate s) else gate s = g"
    by (auto simp: loop_run_def)
  show ?thesis
  proof (cases "loop_at s = Loop_returned")
    case True
    then have "same_but_env g (gate s)" using g(2) by simp
    moreover from this have "match_at (gate s) = match_at g" by (auto simp: same_but_env_def)
    moreover have "net_at (gate s) = Net_stopped" "\<not> running (gate s)"
      using run True by (simp_all add: loop_run_def)
    ultimately show ?thesis
      using g(1) run True
      by (intro exI [of _ g]) (simp add: loop_run_def stopped_ok_def is_running_def connected_clients_def)
  qed (use g in auto)
qed

theorem server_loop_refines_witness:
  "\<exists>s. sample_run (serving_schedule @ stopping_schedule) = Some s \<and> connected_clients s = 0
     \<and> length (accepted (gate s)) = 1"
proof -
  obtain s where s: "sample_run (serving_schedule @ stopping_schedule) = Some s"
    "loop_at s = Loop_returned" "length (accepted (gate s)) = 1"
    using mapped [OF sample_stopped] by auto
  obtain s0 s1 where r: "server_new sample_kernel ''0.0.0.0'' 8080 (pool_new 2) 4 = Some s0"
    "start_server kernel_sockets s0 = (True, s1)" "(server_step kernel_os kernel_close)\<^sup>*\<^sup>* s1 s"
    using sample_run_reaches [OF s(1)] .
  have "\<not> is_running s0" using start_new_server(2) [OF r(1,2)] by simp
  from server_loop_refines [OF r(2) this r(3)] s show ?thesis by auto
qed

text \<open>C13. No descriptor leaks. While \<^verbatim>\<open>start()\<close> runs, the descriptors open beyond those
  the process had before are the listening socket, the epoll instance and one for each entry of
  the connection table, all different; when it has returned, and when the set-up failed, none
  are left. Connections closed by end of file, errors, hang-ups or failed writes are included.\<close>

theorem server_no_descriptor_leak:
  assumes "descriptors_ok os close_fd sk open_fds"
    and "server_new e host port b queue_capacity = Some s0" "start_server sk s0 = (ok, s1)"
    and "(server_step os close_fd)\<^sup>*\<^sup>* s1 s"
  shows "if ok then
      open_fds (env (net (gate s))) = open_fds e \<union> server_fds s \<union> fst ` set (clients (net (gate s)))
      \<and> (open_fds e \<union> server_fds s) \<inter> fst ` set (clients (net (gate s))) = {}
      \<and> connected_clients s = card (fst ` set (clients (net (gate s))))
      \<and> (loop_at s = Loop_returned \<longrightarrow> open_fds (env (net (gate s))) = open_fds e)
    else open_fds (env (net (gate s1))) = open_fds e"
proof (cases ok)
  case True
  have start: "start_server sk s0 = (True, s1)" using assms(3) True by simp
  have fresh: "\<not> is_running s0"
    using assms(2) by (auto simp: server_new_def bind_eq_Some_conv is_running_def)
  note run1 = start_server_run [OF start fresh, of os]
  have fds1: "server_fds_ok open_fds (open_fds e) s1"
    using new_server_start [OF assms(2,3,1)] True by simp
  from server_reachable_fds [OF assms(4,1) fds1 run1]
  have c: "connections_ok open_fds (open_fds e \<union> server_fds s) (net (gate s))"
    by (simp add: server_fds_ok_def)
  have "clients (net (gate s)) = []" if "loop_at s = Loop_returned"
    using server_reachable_run [OF assms(4) run1] that by (simp add: loop_run_def stopped_ok_def)
  moreover have "connected_clients s = card (set (map fst (clients (net (gate s)))))"
    using c distinct_card unfolding connections_ok_def connected_clients_def by (metis length_map)
  ultimately show ?thesis
    using c True by (auto simp: connections_ok_def server_fds_def)
next
  case False
  with new_server_start [OF assms(2,3,1)] show ?thesis by simp
qed

theorem server_no_descriptor_leak_witness:
  "\<exists>s. sample_run serving_schedule = Some s \<and> open_in (env (net (gate s))) = {0, 1, 2} \<union> server_fds s \<union> {5}
     \<and> connected_clients s = 1"
proof -
  obtain s where s: "sample_run serving_schedule = Some s" "map fst (clients (net (gate s))) = [5]"
    using mapped [OF sample_serving] by auto
  obtain s0 s1 where r: "server_new sample_kernel ''0.0.0.0'' 8080 (pool_new 2) 4 = Some s0"
    "start_server kernel_sockets s0 = (True, s1)" "(server_step kernel_os kernel_close)\<^sup>*\<^sup>* s1 s"
    using sample_run_reaches [OF s(1)] .
  have "fst ` set (clients (net (gate s))) = {5}" using arg_cong [OF s(2), of set] by simp
  moreover have "open_in sample_kernel = {0, 1, 2}" by (auto simp: open_in_def sample_kernel_def)
  ultimately show ?thesis
    using server_no_descriptor_leak [OF kernel_descriptors r] s(1) by simp
qed


text \<open>C14. While no \<^verbatim>\<open>write\<close> fails and each pass over \<^verbatim>\<open>read\<close> and
  \<^verbatim>\<open>accept\<close> uses up what is pending, both threads always have a defined next step: no
  reference to an erased connection is used, no loop over a system call runs for ever and the
  book is never driven into an undefined state, whatever clients send, whatever is reported
  ready and however the threads interleave.\<close>

theorem server_always_defined:
  assumes "writes_append os sent_on" "no_write_errors os" "passes_end os pending"
    and "descriptors_ok os close_fd sk open_fds"
    and "server_new e host port (pool_new n) queue_capacity = Some s0" "start_server sk s0 = (True, s1)"
    and "n < 2 ^ 32" "unat queue_capacity \<le> 2 ^ 63"
    and "(server_step os close_fd)\<^sup>*\<^sup>* s1 s" "length (accepted (gate s)) \<le> 2 ^ 31"
  shows "loop_step os close_fd v events s \<noteq> None \<and> match_step v (gate s) \<noteq> None"
proof -
  note start = start_new_server [OF assms(5-8)]
  note run1 = start_server_run [OF assms(6) start(2), of os]
  have fds1: "server_fds_ok open_fds (open_fds e) s1"
    using new_server_start [OF assms(5,6,4)] by simp
  have "clients_ok (net (gate s))"
    using server_reachable_fds [OF assms(9,4) fds1 run1] by (simp add: server_fds_ok_def connections_ok_def)
  moreover have "referred_ok (gate s)"
    using server_reachable_referred [OF assms(1,3,2,4) fds1 run1 start_referred [OF assms(6) start(2)] assms(9)] .
  ultimately have "loop_step os close_fd v events s \<noteq> None"
    using loop_step_total [OF assms(1,3,2)] by blast
  moreover have "gateway_inv (gate s)"
    using served_inv [OF assms(9) run1 start(1) assms(10)] .
  then have "match_step v (gate s) \<noteq> None" using match_step_inv assms(10) by blast
  ultimately show ?thesis by blast
qed

theorem server_always_defined_witness:
  "\<exists>s. sample_run serving_schedule = Some s
     \<and> loop_step kernel_os kernel_close 1 [client_event] s \<noteq> None \<and> match_step 1 (gate s) \<noteq> None"
proof -
  obtain s where s: "sample_run serving_schedule = Some s" "length (accepted (gate s)) = 1"
    using mapped [OF sample_serving] by auto
  obtain s0 s1 where r: "server_new sample_kernel ''0.0.0.0'' 8080 (pool_new 2) 4 = Some s0"
    "start_server kernel_sockets s0 = (True, s1)" "(server_step kernel_os kernel_close)\<^sup>*\<^sup>* s1 s"
    using sample_run_reaches [OF s(1)] .
  have small: "(2 :: nat) < 2 ^ 32" "unat (4 :: u64) \<le> 2 ^ 63" "length (accepted (gate s)) \<le> 2 ^ 31"
    using s(2) by simp_all
  from server_always_defined [OF kernel_writes kernel_no_errors kernel_passes kernel_descriptors
      r(1,2) small(1,2) r(3) small(3)] s(1)
  show ?thesis by blast
qed

text \<open>C3. What the program serves, from its command line on: in every state reached from a
  successful start of \<^verbatim>\<open>main\<close>, the executed commands are a prefix of the accepted
  ones, the responses drained, queued and about to be queued are those of the sequential
  price-time server, one for each executed command, and the book is the one that server ends
  with.\<close>

theorem titan_serves:
  assumes "titan_main sk args e = Some (Inr (Inr s1))"
    and "(server_step os close_fd)\<^sup>*\<^sup>* s1 s" "length (accepted (gate s)) \<le> 2 ^ 31"
  shows "spec_serve (executed (gate s)) lob_empty
      = (drained (gate s) @ contents (response_queue (gate s)) @ unsent (match_at (gate s)),
         pool_abs (order_book (gate s)))
    \<and> accepted (gate s) = executed (gate s) @ in_hand (match_at (gate s)) @ contents (ingress_queue (gate s))
    \<and> processed_orders_count s = word_of_nat (length (drained (gate s) @ contents (response_queue (gate s))))"
proof -
  obtain port host s0 where new: "server_new e host port (pool_new 1000000) 65536 = Some s0"
    "start_server sk s0 = (True, s1)"
  proof (cases "server_config args")
    case (Inr cfg)
    obtain port host where cfg: "cfg = (port, host)" by (cases cfg)
    obtain s0 where s0: "server_new e host port (pool_new 1000000) 65536 = Some s0"
      using assms(1) Inr cfg by (auto simp: titan_main_def bind_eq_Some_conv)
    obtain ok s' where "start_server sk s0 = (ok, s')" by (cases "start_server sk s0")
    with assms(1) Inr cfg s0 that show ?thesis by (cases ok) (simp_all add: titan_main_def)
  qed (use assms(1) in \<open>simp add: titan_main_def\<close>)
  have sizes: "(1000000 :: nat) < 2 ^ 32" "unat (65536 :: u64) \<le> 2 ^ 63" by simp_all
  note start = start_new_server [OF new sizes]
  have "gateway_inv (gate s)"
    using served_inv [OF assms(2) start_server_run [OF new(2) start(2)] start(1) assms(3)] .
  then show ?thesis
    unfolding gateway_inv_def served_def processed_orders_count_def by (metis append_assoc)
qed

lemma sample_main:
  "\<exists>s1. titan_main kernel_sockets [''9000''] sample_kernel = Some (Inr (Inr s1)) \<and> accepted (gate s1) = []"
proof -
  have conf: "server_config [''9000''] = Inr (9000, ''0.0.0.0'')" by code_simp
  have up: "setup_server_socket kernel_sockets ''0.0.0.0'' 9000 (- 1) sample_kernel
      = (True, 3, 4, sample_kernel\<lparr>fd_table := [4, 3, 2, 1, 0], non_blocking_fds := [3]\<rparr>)"
    by code_simp
  have cap: "unat (65536 :: u64) \<le> 2 ^ 63" by simp
  obtain iq rq where q: "spsc_new default_ingress 65536 = Some iq" "spsc_new default_response 65536 = Some rq"
    using spsc_new_correct [OF cap] by metis
  show ?thesis
    by (simp add: titan_main_def conf server_new_def gateway_new_def q start_server_def is_running_def
        gateway_start_def up)
qed

theorem titan_serves_witness:
  "\<exists>s1. titan_main kernel_sockets [''9000''] sample_kernel = Some (Inr (Inr s1))
     \<and> spec_serve (executed (gate (stop_server s1))) lob_empty
       = (drained (gate (stop_server s1)) @ contents (response_queue (gate (stop_server s1)))
            @ unsent (match_at (gate (stop_server s1))), pool_abs (order_book (gate (stop_server s1))))"
proof -
  obtain s1 where s1: "titan_main kernel_sockets [''9000''] sample_kernel = Some (Inr (Inr s1))"
    "accepted (gate s1) = []" using sample_main by blast
  have "(server_step kernel_os kernel_close)\<^sup>*\<^sup>* s1 (stop_server s1)"
    using server_stop by (rule r_into_rtranclp)
  moreover have "length (accepted (gate (stop_server s1))) \<le> 2 ^ 31"
    by (simp add: stop_server_def stop_def s1(2))
  ultimately show ?thesis using titan_serves [OF s1(1)] s1(1) by blast
qed







section \<open>No call blocks\<close>

text \<open>C20. The network thread never waits inside a call. As long as \<^verbatim>\<open>fcntl\<close> does not
  fail, in every state of the running server the listening socket and the descriptor of every
  connection are in non-blocking mode: \<^verbatim>\<open>accept\<close>, \<^verbatim>\<open>read\<close> and
  \<^verbatim>\<open>write\<close> are only ever called on such descriptors, and a connection that is known to
  the server has the number it is listed under.\<close>

theorem server_never_blocks:
  assumes "modes_ok os sk non_blocking"
    and "server_new e host port b queue_capacity = Some s0" "start_server sk s0 = (True, s1)"
    and "(server_step os close_fd)\<^sup>*\<^sup>* s1 s" "loop_at s \<noteq> Loop_returned"
  shows "insert (server_fd s1) (fst ` set (clients (net (gate s)))) \<subseteq> non_blocking (env (net (gate s)))
    \<and> (\<forall>fd c. map_of (clients (net (gate s))) fd = Some c \<longrightarrow> conn_fd c = fd)"
proof -
  note start = start_modes [OF assms(2,3,1)]
  have "loop_run os (gate s1) s"
    using server_reachable_run [OF assms(4) start_server_run [OF assms(3) start(3)]] .
  then have "(gateway_step os)\<^sup>*\<^sup>* (gate s1) (gate s)"
    using assms(5) by (auto simp: loop_run_def)
  then have "connections_ok non_blocking (non_blocking (env (net (gate s1)))) (net (gate s))"
  proof (induction rule: rtranclp_induct)
    case (step y z)
    then show ?case using gateway_step_connections [OF _ modes_connection_calls [OF assms(1)]] by blast
  qed (rule start(1))
  with start(2) show ?thesis by (auto simp: connections_ok_def clients_ok_def)
qed

lemma kernel_fcntl: "fcntl_ok kernel_calls kernel_non_blocking"
  by (auto simp: fcntl_ok_def kernel_calls_def kernel_non_blocking_def O_NONBLOCK_def)

lemma kernel_modes: "modes_ok kernel_os kernel_sockets kernel_non_blocking"
  unfolding modes_ok_def
  by (auto simp: kernel_fcntl kernel_os_def kernel_sockets_def kernel_close_def kernel_open_def
      kernel_non_blocking_def fresh_fd_new Let_def split: list.split)

text \<open>The sample run up to its stop: descriptor 3 is the listening socket, 5 the client.\<close>

theorem server_never_blocks_witness:
  "\<exists>s. sample_run serving_schedule = Some s \<and> {3, 5} \<subseteq> kernel_non_blocking (env (net (gate s)))"
proof -
  have run: "map_option (\<lambda>s. (loop_at s, map fst (clients (net (gate s))))) (sample_run serving_schedule)
      = Some (Loop_handlers [], [5])"
    "map_option (\<lambda>(_, s). server_fd s) sample_server = Some 3"
    by code_simp+
  obtain s where s: "sample_run serving_schedule = Some s" "loop_at s = Loop_handlers []"
    "map fst (clients (net (gate s))) = [5]"
    using mapped [OF run(1)] by auto
  obtain s0 s1 where r: "server_new sample_kernel ''0.0.0.0'' 8080 (pool_new 2) 4 = Some s0"
    "start_server kernel_sockets s0 = (True, s1)" "(server_step kernel_os kernel_close)\<^sup>*\<^sup>* s1 s"
    using sample_run_reaches [OF s(1)] .
  have "server_fd s1 = 3" using run(2) r(1,2) by (simp add: sample_server_def)
  moreover have "fst ` set (clients (net (gate s))) = {5}" using s(3) by (metis list.set(1,2) set_map)
  moreover note server_never_blocks [OF kernel_modes r]
  ultimately show ?thesis using s(1,2) by auto
qed

end
